(* ===== verification/Prelude.thy ===== *)
theory Prelude
  imports Complex_Main "HOL-Library.Word"
begin

text \<open>
  Shared vocabulary of the development: the machine-integer types of
  \<^verbatim>\<open>libcore/src/util/Platform.hpp\<close>, the collections of rewrite rules the component
  theories fill, decimal printing as \<^verbatim>\<open>operator<<\<close> does it on integers, and the
  lemmas on lists and words several components use.
\<close>

section \<open>Machine types\<close>

type_synonym u8 = "8 word"
type_synonym u32 = "32 word"
type_synonym u64 = "64 word"

section \<open>Rule collections\<close>

text \<open>
  \<open>accessor_defs\<close>: getters and constructors that unfold to record fields.
  \<open>step_defs\<close>: the operations that change state.
  \<open>inv_defs\<close>: the well-formedness predicates.
\<close>

named_theorems accessor_defs
named_theorems step_defs
named_theorems inv_defs

section \<open>Printing of unsigned integers\<close>

text \<open>
  \<^verbatim>\<open>std::ostream << n\<close> for an unsigned integer: decimal digits without leading zeros.
\<close>

definition digit_char :: "nat \<Rightarrow> char" where
  "digit_char d = char_of (48 + d)"

fun show_nat :: "nat \<Rightarrow> string" where
  "show_nat n = (if n < 10 then [digit_char n] else show_nat (n div 10) @ [digit_char (n mod 10)])"

declare show_nat.simps [simp del]

definition show_u64 :: "u64 \<Rightarrow> string" where
  "show_u64 w = show_nat (unat w)"

definition char_digit :: "char \<Rightarrow> nat option" where
  "char_digit c = (let k = of_char c :: nat in if 48 \<le> k \<and> k \<le> 57 then Some (k - 48) else None)"

lemma char_digit_digit_char [simp]: "d < 10 \<Longrightarrow> char_digit (digit_char d) = Some d"
  by (simp add: char_digit_def digit_char_def)

lemma show_nat_nonempty [simp]: "show_nat n \<noteq> []"
  by (subst show_nat.simps) simp

section \<open>Lists and maps\<close>

lemma sorted_wrt_append_Cons:
  "sorted_wrt P (xs @ y # ys) \<longleftrightarrow>
     sorted_wrt P xs \<and> sorted_wrt P ys \<and> (\<forall>x\<in>set xs. P x y) \<and> (\<forall>z\<in>set ys. P y z)
     \<and> (\<forall>x\<in>set xs. \<forall>z\<in>set ys. P x z)"
  by (auto simp: sorted_wrt_append)

lemma sorted_wrt_filterI: "sorted_wrt P xs \<Longrightarrow> sorted_wrt P (filter Q xs)"
  by (induction xs) auto

lemma sum_list_filter_le: "sum_list (map f (filter P xs)) \<le> sum_list (map (f :: 'a \<Rightarrow> nat) xs)"
  by (induction xs) auto

lemma sum_list_update:
  fixes f :: "'a \<Rightarrow> 'b::comm_monoid_add"
  shows "i < length xs \<Longrightarrow> sum_list (map f (xs[i := y])) + f (xs ! i) = sum_list (map f xs) + f y"
proof (induction xs arbitrary: i)
  case (Cons x xs)
  then show ?case by (cases i) (auto simp: ac_simps)
qed simp

section \<open>Byte arrays\<close>

text \<open>The array \<open>a\<close> after the bytes \<open>bs\<close> were copied to it at position \<open>pos\<close>.\<close>

definition overwrite :: "nat \<Rightarrow> u8 list \<Rightarrow> u8 list \<Rightarrow> u8 list" where
  "overwrite pos bs a = take pos a @ bs @ drop (pos + length bs) a"

lemma overwrite_length [simp]: "pos + length bs \<le> length a \<Longrightarrow> length (overwrite pos bs a) = length a"
  by (simp add: overwrite_def)

lemma overwrite_Nil [simp]: "overwrite pos [] a = a"
  by (simp add: overwrite_def)

lemma overwrite_take: "pos + length bs \<le> length a \<Longrightarrow> take (pos + length bs) (overwrite pos bs a) = take pos a @ bs"
  by (simp add: overwrite_def)

section \<open>Words\<close>

lemma unat_of_nat_eq: "x < 2 ^ LENGTH('a) \<Longrightarrow> unat (of_nat x :: 'a::len word) = x"
  by (simp add: unat_of_nat)

text \<open>Space accounting: what is equal as a sum of naturals is equal with the sizes as words.\<close>

lemma of_nat_exchange:
  assumes "a + unat (s :: 'a::len word) = b + unat n"
  shows "(of_nat a :: 'a word) = of_nat b + n - s"
proof -
  from assms have "(of_nat (a + unat s) :: 'a word) = of_nat (b + unat n)" by (rule arg_cong)
  then have "of_nat a + s = of_nat b + n" by simp
  then show ?thesis by (metis add_diff_cancel_right')
qed

lemma word_less_add_iff:
  fixes a n :: "'a::len word"
  shows "a < a + n \<longleftrightarrow> n \<noteq> 0 \<and> unat a + unat n < 2 ^ LENGTH('a)"
proof
  assume less: "a < a + n"
  then have "n \<noteq> 0" by auto
  moreover have "unat a + unat n < 2 ^ LENGTH('a)"
  proof (rule ccontr)
    assume "\<not> ?thesis"
    moreover have "unat a < 2 ^ LENGTH('a)" "unat n < 2 ^ LENGTH('a)"
      by (rule unsigned_less)+
    ultimately have "unat a + unat n - 2 ^ LENGTH('a) < 2 ^ LENGTH('a)"
        "2 ^ LENGTH('a) \<le> unat a + unat n"
      by linarith+
    then have "unat (a + n) = unat a + unat n - 2 ^ LENGTH('a)"
      by (simp add: unat_word_ariths le_mod_geq)
    with \<open>unat n < 2 ^ LENGTH('a)\<close> have "unat (a + n) < unat a \<or> unat (a + n) = unat a"
      by linarith
    with less show False by (simp add: word_less_nat_alt)
  qed
  ultimately show "n \<noteq> 0 \<and> unat a + unat n < 2 ^ LENGTH('a)" ..
next
  assume n: "n \<noteq> 0 \<and> unat a + unat n < 2 ^ LENGTH('a)"
  then have "unat (a + n) = unat a + unat n"
    by (simp add: unat_word_ariths)
  moreover from n have "0 < unat n" by (simp add: unat_gt_0)
  ultimately show "a < a + n" by (simp add: word_less_nat_alt)
qed

lemma sint_small: "unat (w :: u64) < 2 ^ 63 \<Longrightarrow> sint w = int (unat w)"
proof -
  assume "unat w < 2 ^ 63"
  then have "int (unat w) < int (2 ^ 63)" by (simp only: of_nat_less_iff)
  then have "uint w < 2 ^ 63" by simp
  moreover have "- (2 ^ 63) \<le> uint w" using uint_ge_0 [of w] by (rule order_trans [rotated]) simp
  ultimately have "signed_take_bit 63 (uint w) = uint w" by (intro signed_take_bit_int_eq_self)
  then have "sint w = uint w" by (simp add: sint_uint)
  then show ?thesis by simp
qed

lemma sint_nonneg_iff: "0 \<le> sint (w :: u64) \<longleftrightarrow> unat w < 2 ^ 63"
proof
  assume "0 \<le> sint w"
  moreover have "sint w < 2 ^ 63" using sint_lt [of w] by simp
  ultimately have "uint w = sint w" by (simp add: uint_sint take_bit_int_eq_self)
  with \<open>sint w < 2 ^ 63\<close> have "int (unat w) < int (2 ^ 63)" by simp
  then show "unat w < 2 ^ 63" by (simp only: of_nat_less_iff)
qed (simp add: sint_small)

section \<open>Results\<close>

text \<open>
  An operation that can fail is a sum, one that may also not return is an option of a sum. Both
  are composed by passing failures on.
\<close>

type_synonym ('e, 'a) run = "('e + 'a) option"

definition sum_bind :: "'e + 'a \<Rightarrow> ('a \<Rightarrow> 'e + 'b) \<Rightarrow> 'e + 'b" where
  "sum_bind x f = (case x of Inl e \<Rightarrow> Inl e | Inr a \<Rightarrow> f a)"

definition run_bind :: "('e, 'a) run \<Rightarrow> ('a \<Rightarrow> ('e, 'b) run) \<Rightarrow> ('e, 'b) run" where
  "run_bind x f = (case x of None \<Rightarrow> None | Some (Inl e) \<Rightarrow> Some (Inl e) | Some (Inr a) \<Rightarrow> f a)"

lemma bind_simps [simp]:
  "sum_bind (Inl e) f = Inl e" "sum_bind (Inr a) f = f a"
  "run_bind None g = None" "run_bind (Some (Inl e)) g = Some (Inl e)" "run_bind (Some (Inr a)) g = g a"
  by (simp_all add: sum_bind_def run_bind_def)

end
