(* ===== verification/Sha2_Spec.thy ===== *)
theory Sha2_Spec
  imports Prelude
begin

unbundle bit_operations_syntax

text \<open>
  What \<open>util/internal_sha2.cpp\<close> has to compute, for both word sizes: the compression function, the
  padding and the hash of a message as the Secure Hash Standard (FIPS 180) describes them; and the
  part of the code both word sizes share: the byte orders of the host, the macros \<open>R\<close>, \<open>Ch\<close> and
  \<open>Maj\<close>, and the shape of the unrolled loop of rounds.

  The locale \<open>sha2_rounds\<close> is the contract between the round macros and the compression function,
  the locale \<open>block_hash\<close> the one between the buffering code and the hash of a message.
\<close>

section \<open>Words in memory\<close>

datatype byte_order = Little_endian | Big_endian

primrec word_le :: "u8 list \<Rightarrow> 'a::len word" where
  "word_le [] = 0"
| "word_le (b # bs) = ucast b OR push_bit 8 (word_le bs)"

definition bytes_le :: "nat \<Rightarrow> 'a::len word \<Rightarrow> u8 list" where
  "bytes_le n w = map (\<lambda>i. ucast (drop_bit (8 * i) w)) [0 ..< n]"

text \<open>The word of the host in memory at \<open>bs\<close>, and the bytes of a word of the host.\<close>

definition load_word :: "byte_order \<Rightarrow> u8 list \<Rightarrow> 'a::len word" where
  "load_word bo bs = (case bo of Little_endian \<Rightarrow> word_le bs | Big_endian \<Rightarrow> word_le (rev bs))"

definition store_word :: "byte_order \<Rightarrow> 'a::len word \<Rightarrow> u8 list" where
  "store_word bo w = (let n = LENGTH('a) div 8 in
     case bo of Little_endian \<Rightarrow> bytes_le n w | Big_endian \<Rightarrow> rev (bytes_le n w))"

text \<open>Sixteen words at the address of an array of bytes.\<close>

definition load_words :: "byte_order \<Rightarrow> u8 list \<Rightarrow> 'a::len word list" where
  "load_words bo bs =
     (let n = LENGTH('a) div 8 in map (\<lambda>i. load_word bo (take n (drop (n * i) bs))) [0 ..< 16])"

section \<open>The logical functions both hashes use\<close>

definition R :: "nat \<Rightarrow> 'a::len word \<Rightarrow> 'a word" where
  "R b x = drop_bit b x"

definition Ch :: "'a::len word \<Rightarrow> 'a word \<Rightarrow> 'a word \<Rightarrow> 'a word" where
  "Ch x y z = (x AND y) XOR (NOT x AND z)"

definition Maj :: "'a::len word \<Rightarrow> 'a word \<Rightarrow> 'a word \<Rightarrow> 'a word" where
  "Maj x y z = (x AND y) XOR (x AND z) XOR (y AND z)"

section \<open>The rounds\<close>

type_synonym 'w regs = "'w \<times> 'w \<times> 'w \<times> 'w \<times> 'w \<times> 'w \<times> 'w \<times> 'w"

text \<open>
  A round macro changes its fourth and its eighth argument and the array \<open>W\<close>; \<open>j\<close> is the number of
  the round. Eight calls, with the registers renamed instead of moved, are the body of the loops.
\<close>

type_synonym 'w round_macro =
  "nat \<Rightarrow> 'w \<Rightarrow> 'w \<Rightarrow> 'w \<Rightarrow> 'w \<Rightarrow> 'w \<Rightarrow> 'w \<Rightarrow> 'w \<Rightarrow> 'w \<Rightarrow> 'w list \<Rightarrow> 'w \<times> 'w \<times> 'w list"

definition eight_rounds :: "'w round_macro \<Rightarrow> nat \<Rightarrow> 'w regs \<times> 'w list \<Rightarrow> 'w regs \<times> 'w list" where
  "eight_rounds ROUND j = (\<lambda>((a, b, c, d, e, f, g, h), W).
     (let (d, h, W) = ROUND j a b c d e f g h W;
          (c, g, W) = ROUND (j + 1) h a b c d e f g W;
          (b, f, W) = ROUND (j + 2) g h a b c d e f W;
          (a, e, W) = ROUND (j + 3) f g h a b c d e W;
          (h, d, W) = ROUND (j + 4) e f g h a b c d W;
          (g, c, W) = ROUND (j + 5) d e f g h a b c W;
          (f, b, W) = ROUND (j + 6) c d e f g h a b W;
          (e, a, W) = ROUND (j + 7) b c d e f g h a W
      in ((a, b, c, d, e, f, g, h), W)))"

text \<open>\<^verbatim>\<open>do { eight rounds } while (j < limit)\<close>\<close>

function do_rounds :: "'w round_macro \<Rightarrow> nat \<Rightarrow> nat \<Rightarrow> 'w regs \<times> 'w list \<Rightarrow> 'w regs \<times> 'w list" where
  "do_rounds ROUND limit j s =
     (let s = eight_rounds ROUND j s
      in if j + 8 < limit then do_rounds ROUND limit (j + 8) s else s)"
  by auto
termination by (relation "measure (\<lambda>(_, limit, j, _). limit - j)") auto

declare do_rounds.simps [simp del]

text \<open>One call of the macro with the registers moved: the loop is a fold of such turns.\<close>

definition turn :: "'w round_macro \<Rightarrow> nat \<Rightarrow> 'w regs \<times> 'w list \<Rightarrow> 'w regs \<times> 'w list" where
  "turn ROUND j = (\<lambda>((a, b, c, d, e, f, g, h), W).
     (case ROUND j a b c d e f g h W of (d, h, W) \<Rightarrow> ((h, a, b, c, d, e, f, g), W)))"

lemma bit_word_le:
  "bit (word_le bs :: 'a::len word) i \<longleftrightarrow>
     i < LENGTH('a) \<and> i div 8 < length bs \<and> bit (bs ! (i div 8)) (i mod 8)"
proof (induction bs arbitrary: i)
  case (Cons b bs)
  show ?case
  proof (cases "i < 8")
    case True
    then show ?thesis by (auto simp: bit_simps)
  next
    case False
    then have "i div 8 = Suc ((i - 8) div 8)" "i mod 8 = (i - 8) mod 8" "\<not> bit b i"
      by (simp_all add: le_div_geq le_mod_geq bit_word.rep_eq not_less impossible_bit)
    with False show ?thesis by (auto simp: bit_simps Cons.IH)
  qed
qed simp

lemma length_bytes_le [simp]: "length (bytes_le n w) = n"
  by (simp add: bytes_le_def)

lemma bit_bytes_le: "k < n \<Longrightarrow> bit (bytes_le n (w :: 'a::len word) ! k) j \<longleftrightarrow> j < 8 \<and> bit w (8 * k + j)"
  by (auto simp: bytes_le_def bit_simps)

lemma word_le_bytes_le: "LENGTH('a) = 8 * n \<Longrightarrow> word_le (bytes_le n w) = (w :: 'a::len word)"
  by (rule bit_word_eqI) (auto simp: bit_word_le bit_bytes_le less_mult_imp_div_less mult.commute)

lemma bytes_le_word_le:
  assumes "LENGTH('a) = 8 * length bs"
  shows "bytes_le (length bs) (word_le bs :: 'a::len word) = bs"
proof (rule nth_equalityI)
  fix k assume "k < length (bytes_le (length bs) (word_le bs :: 'a word))"
  then have k: "k < length bs" by simp
  have "bit (bytes_le (length bs) (word_le bs :: 'a word) ! k) j \<longleftrightarrow> bit (bs ! k) j" if "j < 8" for j
  proof -
    have "8 * k + j < LENGTH('a)" using that k assms by linarith
    moreover have "(8 * k + j) div 8 = k" "(8 * k + j) mod 8 = j" using that by simp_all
    ultimately show ?thesis using that k by (simp add: bit_bytes_le bit_word_le)
  qed
  then show "bytes_le (length bs) (word_le bs :: 'a word) ! k = bs ! k"
    by (intro bit_word_eqI) simp
qed simp

lemma length_store_word [simp]: "length (store_word bo (w :: 'a::len word)) = LENGTH('a) div 8"
  by (simp add: store_word_def Let_def split: byte_order.split)

lemma length_load_words [simp]: "length (load_words bo bs) = 16"
  by (simp add: load_words_def Let_def)

lemma length_stored_words:
  "length W = 16 \<Longrightarrow> length (concat (map (store_word bo) (W :: 'a::len word list))) = 16 * (LENGTH('a) div 8)"
  by (simp add: length_concat comp_def sum_list_triv)

lemma shifts_rotr:
  fixes x :: "'a::len word"
  assumes "0 < b" "b < LENGTH('a)"
  shows "drop_bit b x OR push_bit (LENGTH('a) - b) x = word_rotr b x"
proof (rule bit_word_eqI)
  fix n assume n: "n < LENGTH('a)"
  show "bit (drop_bit b x OR push_bit (LENGTH('a) - b) x) n = bit (word_rotr b x) n"
  proof (cases "n + b < LENGTH('a)")
    case True
    then show ?thesis using n assms by (auto simp: bit_simps add.commute)
  next
    case False
    then have "(n + b) mod LENGTH('a) = n + b - LENGTH('a)" using n assms by (simp add: le_mod_geq)
    then show ?thesis using n assms False by (auto simp: bit_simps add.commute impossible_bit)
  qed
qed

lemma and_15: "j AND 15 = j mod (16 :: nat)"
  using take_bit_eq_mask [of 4 j] by (simp add: take_bit_eq_mod mask_eq_exp_minus_1)

lemma regs_cases:
  obtains a b c d e f g h where "(r :: 'w regs) = (a, b, c, d, e, f, g, h)"
proof -
  obtain a b c d e f gh where "r = (a, b, c, d, e, f, gh)" by (cases r)
  moreover obtain g h where "gh = (g, h)" by (cases gh)
  ultimately show thesis by (intro that) simp
qed

lemma eight_rounds_turns: "eight_rounds ROUND j s = fold (turn ROUND) [j ..< j + 8] s"
proof -
  have "[j ..< j + 8] = [j, j+1, j+2, j+3, j+4, j+5, j+6, j+7]"
    by (simp add: upt_conv_Cons)
  then show ?thesis
    by (simp add: eight_rounds_def turn_def split: prod.splits)
qed

lemma do_rounds_turns:
  "do_rounds ROUND (j + 8 * Suc n) j s = fold (turn ROUND) [j ..< j + 8 * Suc n] s"
proof (induction n arbitrary: j s)
  case 0
  then show ?case by (subst do_rounds.simps) (simp add: eight_rounds_turns)
next
  case (Suc n)
  have split: "[j ..< j + 8 + 8 * Suc n] = [j ..< j + 8] @ [j + 8 ..< j + 8 + 8 * Suc n]"
    using upt_add_eq_append [of j "j + 8" "8 * Suc n"] by simp
  have eq: "j + 8 * Suc (Suc n) = j + 8 + 8 * Suc n" by simp
  show ?case
    unfolding eq
    by (subst do_rounds.simps)
      (simp add: Suc.IH split eight_rounds_turns del: upt_Suc mult_Suc_right)
qed

section \<open>The compression function of the standard\<close>

definition regs_of :: "'w list \<Rightarrow> 'w regs" where
  "regs_of H = (H ! 0, H ! 1, H ! 2, H ! 3, H ! 4, H ! 5, H ! 6, H ! 7)"

definition add_regs :: "'w::plus list \<Rightarrow> 'w regs \<Rightarrow> 'w list" where
  "add_regs H = (\<lambda>(a, b, c, d, e, f, g, h).
     [H ! 0 + a, H ! 1 + b, H ! 2 + c, H ! 3 + d, H ! 4 + e, H ! 5 + f, H ! 6 + g, H ! 7 + h])"

text \<open>
  The parameters of a hash of the family: the functions \<open>\<Sigma>\<close> and \<open>\<sigma>\<close> and the constants, one per
  round.
\<close>

record 'w sha2_parameters =
  Sigma0 :: "'w \<Rightarrow> 'w"
  Sigma1 :: "'w \<Rightarrow> 'w"
  sigma0 :: "'w \<Rightarrow> 'w"
  sigma1 :: "'w \<Rightarrow> 'w"
  Kt :: "'w list"

fun schedule :: "'a::len word sha2_parameters \<Rightarrow> 'a word list \<Rightarrow> nat \<Rightarrow> 'a word" where
  "schedule P M t =
     (if t < 16 then M ! t
      else sigma1 P (schedule P M (t - 2)) + schedule P M (t - 7)
         + sigma0 P (schedule P M (t - 15)) + schedule P M (t - 16))"

declare schedule.simps [simp del]

definition fips_step :: "'a::len word sha2_parameters \<Rightarrow> 'a word \<Rightarrow> 'a word \<Rightarrow> 'a word regs \<Rightarrow> 'a word regs" where
  "fips_step P k w = (\<lambda>(a, b, c, d, e, f, g, h).
     let T1 = h + Sigma1 P e + Ch e f g + k + w; T2 = Sigma0 P a + Maj a b c
     in (T1 + T2, a, b, c, d + T1, e, f, g))"

definition fips_compress :: "'a::len word sha2_parameters \<Rightarrow> 'a word list \<Rightarrow> 'a word list \<Rightarrow> 'a word list" where
  "fips_compress P H M = add_regs H
     (fold (\<lambda>t. fips_step P (Kt P ! t) (schedule P M t)) [0 ..< length (Kt P)] (regs_of H))"

section \<open>The contract of the round macros\<close>

text \<open>
  \<open>first x\<close> is the macro of rounds 0 to 15 reading the block \<open>x\<close>, \<open>later\<close> the macro of the other
  rounds, which keeps the last sixteen words of the schedule in the array \<open>W\<close>. \<open>loads x W M\<close> says that
  the block \<open>x\<close>, which may be the array itself with content \<open>W\<close>, holds the words \<open>M\<close>.
\<close>

locale sha2_rounds =
  fixes P :: "'a::len word sha2_parameters"
    and first :: "'x \<Rightarrow> 'a word round_macro"
    and later :: "'a word round_macro"
    and loads :: "'x \<Rightarrow> 'a word list \<Rightarrow> 'a word list \<Rightarrow> bool"
  assumes rounds_many: "\<exists>n. length (Kt P) = 16 + 8 * Suc n"
    and first_round: "loads x W\<^sub>0 M \<Longrightarrow> j < 16 \<Longrightarrow> length W = 16 \<Longrightarrow> (\<forall>i. j \<le> i \<longrightarrow> i < 16 \<longrightarrow> W ! i = W\<^sub>0 ! i)
      \<Longrightarrow> turn (first x) j (r, W) = (fips_step P (Kt P ! j) (M ! j) r, W[j := M ! j])"
    and later_round: "16 \<le> j \<Longrightarrow> length W = 16 \<Longrightarrow> w = W ! (j mod 16) + (sigma1 P (W ! ((j + 14) mod 16))
        + W ! ((j + 9) mod 16) + sigma0 P (W ! ((j + 1) mod 16)))
      \<Longrightarrow> turn later j (r, W) = (fips_step P (Kt P ! j) w r, W[j mod 16 := w])"
begin

lemma first_rounds:
  assumes "loads x W\<^sub>0 M" "length W\<^sub>0 = 16" "length M = 16" "j \<le> 16"
  shows "fold (turn (first x)) [0 ..< j] (r, W\<^sub>0)
    = (fold (\<lambda>t. fips_step P (Kt P ! t) (schedule P M t)) [0 ..< j] r, take j M @ drop j W\<^sub>0)"
  using assms(4)
proof (induction j)
  case (Suc j)
  let ?W = "take j M @ drop j W\<^sub>0"
  have "length ?W = 16" "\<forall>i. j \<le> i \<longrightarrow> i < 16 \<longrightarrow> ?W ! i = W\<^sub>0 ! i"
    using assms(2,3) Suc.prems by (auto simp: nth_append)
  note step = first_round [OF assms(1) _ this]
  have "?W[j := M ! j] = take (Suc j) M @ drop (Suc j) W\<^sub>0"
    using assms(2,3) Suc.prems
    by (simp add: list_update_append take_Suc_conv_app_nth Cons_nth_drop_Suc [symmetric])
  moreover have "schedule P M j = M ! j" using Suc.prems by (subst schedule.simps) simp
  ultimately show ?case using Suc step by simp
qed simp

lemma later_rounds:
  assumes "length W = 16" "\<forall>i<16. W ! i = schedule P M i"
  shows "\<exists>W'. fold (turn later) [16 ..< 16 + n] (r, W)
      = (fold (\<lambda>t. fips_step P (Kt P ! t) (schedule P M t)) [16 ..< 16 + n] r, W')
    \<and> length W' = 16 \<and> (\<forall>i. n \<le> i \<longrightarrow> i < n + 16 \<longrightarrow> W' ! (i mod 16) = schedule P M i)"
proof (induction n)
  case 0
  then show ?case using assms by simp
next
  case (Suc n)
  then obtain W' where IH: "fold (turn later) [16 ..< 16 + n] (r, W)
      = (fold (\<lambda>t. fips_step P (Kt P ! t) (schedule P M t)) [16 ..< 16 + n] r, W')"
    and W': "length W' = 16" "\<And>i. n \<le> i \<Longrightarrow> i < n + 16 \<Longrightarrow> W' ! (i mod 16) = schedule P M i"
    by auto
  let ?w = "schedule P M (16 + n)"
  have shift: "(16 + n + 14) mod 16 = (n + 14) mod 16" "(16 + n + 9) mod 16 = (n + 9) mod 16"
    "(16 + n + 1) mod 16 = (n + 1) mod 16" "(16 + n) mod 16 = n mod 16"
    by (simp_all only: add.assoc mod_add_self1)
  have "16 + n - 2 = n + 14" "16 + n - 7 = n + 9" "16 + n - 15 = n + 1" "16 + n - 16 = n" "\<not> 16 + n < 16"
    by simp_all
  then have rec: "?w = sigma1 P (schedule P M (n + 14)) + schedule P M (n + 9)
      + sigma0 P (schedule P M (n + 1)) + schedule P M n"
    using schedule.simps [of P M "16 + n"] by (simp only: if_False)
  have "?w = W' ! ((16 + n) mod 16) + (sigma1 P (W' ! ((16 + n + 14) mod 16))
      + W' ! ((16 + n + 9) mod 16) + sigma0 P (W' ! ((16 + n + 1) mod 16)))"
    unfolding shift using rec W'(2) [of n] W'(2) [of "n + 14"] W'(2) [of "n + 9"] W'(2) [of "n + 1"]
    by (simp only: add.commute add.left_commute add.assoc le_add1 less_add_same_cancel1)
  note step = later_round [OF _ W'(1) this]
  have new: "W'[(16 + n) mod 16 := ?w] ! (i mod 16) = schedule P M i" if "Suc n \<le> i" "i < Suc n + 16" for i
  proof (cases "i = n + 16")
    case True
    then show ?thesis using W'(1) by (simp add: add.commute)
  next
    case False
    with that have "\<not> 16 dvd i - n" by (auto dest!: dvd_imp_le)
    with that have "i mod 16 \<noteq> n mod 16" by (simp add: mod_eq_dvd_iff_nat)
    then show ?thesis using W'(2) [of i] that False by (simp add: nth_list_update)
  qed
  have up: "[16 ..< 16 + Suc n] = [16 ..< 16 + n] @ [16 + n]"
    by (simp only: add_Suc_right upt_Suc_append le_add1)
  have "fold (turn later) [16 ..< 16 + Suc n] (r, W)
      = (fold (\<lambda>t. fips_step P (Kt P ! t) (schedule P M t)) [16 ..< 16 + Suc n] r, W'[(16 + n) mod 16 := ?w])"
    unfolding up using step [of r] by (simp add: IH step)
  then show ?case using W'(1) new by (intro exI [of _ "W'[(16 + n) mod 16 := ?w]"]) simp
qed

text \<open>The two loops of the transform compute the compression function.\<close>

lemma transform_compresses:
  assumes "loads x W\<^sub>0 M" "length W\<^sub>0 = 16" "length M = 16"
  shows "\<exists>W. do_rounds later (length (Kt P)) 16 (do_rounds (first x) 16 0 (regs_of H, W\<^sub>0))
      = (fold (\<lambda>t. fips_step P (Kt P ! t) (schedule P M t)) [0 ..< length (Kt P)] (regs_of H), W)
    \<and> length W = 16"
proof -
  obtain n where n: "length (Kt P) = 16 + 8 * Suc n" using rounds_many by auto
  let ?f = "\<lambda>t. fips_step P (Kt P ! t) (schedule P M t)"
  have one: "do_rounds (first x) 16 0 (regs_of H, W\<^sub>0) = (fold ?f [0 ..< 16] (regs_of H), M)"
    using do_rounds_turns [of "first x" 0 1 "(regs_of H, W\<^sub>0)"] first_rounds [OF assms, of 16 "regs_of H"]
      assms(2,3) by simp
  have "\<forall>i<16. M ! i = schedule P M i" by (simp add: schedule.simps)
  from later_rounds [OF assms(3) this, of "8 * Suc n" "fold ?f [0 ..< 16] (regs_of H)"]
  obtain W where "fold (turn later) [16 ..< 16 + 8 * Suc n] (fold ?f [0 ..< 16] (regs_of H), M)
      = (fold ?f [16 ..< 16 + 8 * Suc n] (fold ?f [0 ..< 16] (regs_of H)), W)" "length W = 16"
    by (elim exE conjE) (rule that)
  moreover have "[0 ..< 16 + 8 * Suc n] = [0 ..< 16] @ [16 ..< 16 + 8 * Suc n]"
    using upt_add_eq_append [of 0 16 "8 * Suc n"] by simp
  ultimately show ?thesis
    unfolding n one do_rounds_turns by (intro exI [of _ W]) (simp del: upt_Suc mult_Suc_right)
qed

end

section \<open>Hashing a message block by block\<close>

definition nth_block :: "nat \<Rightarrow> nat \<Rightarrow> u8 list \<Rightarrow> u8 list" where
  "nth_block B i m = take B (drop (B * i) m)"

definition absorbed :: "nat \<Rightarrow> ('h \<Rightarrow> u8 list \<Rightarrow> 'h) \<Rightarrow> 'h \<Rightarrow> u8 list \<Rightarrow> 'h" where
  "absorbed B compress H\<^sub>0 m = fold (\<lambda>i H. compress H (nth_block B i m)) [0 ..< length m div B] H\<^sub>0"

text \<open>
  The padding of the standard: a one bit, zeros up to the length field, which holds the number of bits
  of the message and takes an eighth of a block.
\<close>

definition fips_pad :: "nat \<Rightarrow> (nat \<Rightarrow> u8 list) \<Rightarrow> u8 list \<Rightarrow> u8 list" where
  "fips_pad B count_bytes m =
     m @ 0x80 # replicate ((2 * B - B div 8 - 1 - length m mod B) mod B) 0 @ count_bytes (8 * length m)"

text \<open>A hash value and a buffer that represent the message \<open>m\<close>.\<close>

definition holds :: "nat \<Rightarrow> ('h \<Rightarrow> u8 list \<Rightarrow> 'h) \<Rightarrow> 'h \<Rightarrow> u8 list \<Rightarrow> 'h \<Rightarrow> u8 list \<Rightarrow> bool" where
  "holds B compress H\<^sub>0 m H buf \<longleftrightarrow> length buf = B \<and> H = absorbed B compress H\<^sub>0 m
     \<and> take (length m mod B) buf = drop (B * (length m div B)) m"

locale block_hash =
  fixes B :: nat and compress :: "'h \<Rightarrow> u8 list \<Rightarrow> 'h" and H\<^sub>0 :: 'h and count_bytes :: "nat \<Rightarrow> u8 list"
  assumes block_positive: "16 \<le> B"
    and count_length: "length (count_bytes n) = B div 8"
begin

lemma holds_init: "length buf = B \<Longrightarrow> holds B compress H\<^sub>0 [] H\<^sub>0 buf"
  by (simp add: holds_def absorbed_def)

lemma holds_length: "holds B compress H\<^sub>0 m H buf \<Longrightarrow> length buf = B"
  by (simp add: holds_def)

lemma nth_block_append: "i < length m div B \<Longrightarrow> nth_block B i (m @ d) = nth_block B i m"
proof -
  assume "i < length m div B"
  then have "Suc i * B \<le> length m"
    by (meson Suc_leI div_times_less_eq_dividend le_trans mult_le_mono1)
  then have "B * i + B \<le> length m" by (simp add: mult.commute)
  then show ?thesis by (simp add: nth_block_def)
qed

lemma absorbed_append_fold:
  "absorbed B compress H\<^sub>0 (m @ d) = fold (\<lambda>i H. compress H (nth_block B i (m @ d)))
     [length m div B ..< length (m @ d) div B] (absorbed B compress H\<^sub>0 m)"
proof -
  have "length m div B \<le> length (m @ d) div B" by (simp add: div_le_mono)
  then have "[0 ..< length (m @ d) div B] = [0 ..< length m div B] @ [length m div B ..< length (m @ d) div B]"
    by (metis le_add_diff_inverse upt_add_eq_append zero_le)
  moreover have "fold (\<lambda>i H. compress H (nth_block B i (m @ d))) [0 ..< length m div B] H\<^sub>0
      = absorbed B compress H\<^sub>0 m"
    unfolding absorbed_def by (rule fold_cong) (simp_all add: nth_block_append)
  ultimately show ?thesis by (simp add: absorbed_def)
qed

text \<open>Bytes that do not complete a block are copied to the buffer.\<close>

lemma holds_partial:
  assumes "holds B compress H\<^sub>0 m H buf" "length m mod B + length d < B"
  shows "holds B compress H\<^sub>0 (m @ d) H (overwrite (length m mod B) d buf)"
proof -
  have B: "0 < B" using block_positive by simp
  have len: "length (m @ d) = B * (length m div B) + (length m mod B + length d)" by simp
  from assms(2) B have same: "length (m @ d) div B = length m div B" "length (m @ d) mod B = length m mod B + length d"
    by (simp_all only: len div_mult_self4 [OF B [THEN less_imp_neq, symmetric]] mod_mult_self4 div_less mod_less add_0_right)
  have "length buf = B" using assms(1) by (rule holds_length)
  then have "take (length m mod B + length d) (overwrite (length m mod B) d buf) = take (length m mod B) buf @ d"
    using assms(2) by (intro overwrite_take) simp
  moreover have "absorbed B compress H\<^sub>0 (m @ d) = absorbed B compress H\<^sub>0 m"
    unfolding absorbed_append_fold same by simp
  ultimately show ?thesis
    using assms \<open>length buf = B\<close> same by (simp add: holds_def)
qed

text \<open>Bytes that complete a block compress it; the buffer may then hold anything.\<close>

lemma holds_fill:
  assumes "holds B compress H\<^sub>0 m H buf" "length m mod B + length d = B" "length buf' = B"
  shows "holds B compress H\<^sub>0 (m @ d) (compress H (take (length m mod B) buf @ d)) buf'"
proof -
  have B: "0 < B" using block_positive by simp
  have "length (m @ d) = B * (length m div B) + (length m mod B + length d)" by simp
  then have len: "length (m @ d) = B * Suc (length m div B)" unfolding assms(2) by simp
  from B have same: "length (m @ d) div B = Suc (length m div B)" "length (m @ d) mod B = 0"
    unfolding len by simp_all
  have "nth_block B (length m div B) (m @ d) = drop (B * (length m div B)) m @ d"
    using assms(2) by (simp add: nth_block_def minus_mod_eq_mult_div [symmetric])
  then have "absorbed B compress H\<^sub>0 (m @ d) = compress H (take (length m mod B) buf @ d)"
    unfolding absorbed_append_fold same using assms(1) by (simp add: holds_def)
  moreover have "drop (B * (length (m @ d) div B)) (m @ d) = []" using len same by simp
  ultimately show ?thesis unfolding holds_def same using assms(3) by simp
qed

text \<open>The two ways to complete the padding.\<close>

lemma pad_short:
  assumes "holds B compress H\<^sub>0 m H buf" "length m mod B + 1 \<le> B - B div 8"
  shows "absorbed B compress H\<^sub>0 (fips_pad B count_bytes m)
    = compress H (take (length m mod B) buf @ 0x80 # replicate (B - B div 8 - (length m mod B + 1)) 0
        @ count_bytes (8 * length m))"
proof -
  have "2 * B - B div 8 - 1 - length m mod B = B + (B - B div 8 - (length m mod B + 1))"
    using assms(2) block_positive by linarith
  moreover have "B - B div 8 - (length m mod B + 1) < B" using block_positive by simp
  ultimately have k: "(2 * B - B div 8 - 1 - length m mod B) mod B = B - B div 8 - (length m mod B + 1)"
    by (simp only: mod_add_self1 mod_less)
  let ?d = "0x80 # replicate (B - B div 8 - (length m mod B + 1)) 0 @ count_bytes (8 * length m)"
  have "length m mod B + length ?d = B"
    using assms(2) block_positive by (simp add: count_length)
  from holds_fill [OF assms(1) this holds_length [OF assms(1)]] show ?thesis
    unfolding fips_pad_def k by (simp add: holds_def)
qed

lemma pad_long:
  assumes "holds B compress H\<^sub>0 m H buf" "B - B div 8 < length m mod B + 1"
  shows "absorbed B compress H\<^sub>0 (fips_pad B count_bytes m)
    = compress (compress H (take (length m mod B) buf @ 0x80 # replicate (B - (length m mod B + 1)) 0))
        (replicate (B - B div 8) 0 @ count_bytes (8 * length m))"
proof -
  let ?r = "length m mod B"
  have r: "?r < B" using block_positive by simp
  let ?d1 = "(0x80 :: u8) # replicate (B - (?r + 1)) 0" and ?d2 = "replicate (B - B div 8) 0 @ count_bytes (8 * length m)"
  have "2 * B - B div 8 - 1 - ?r < B" using assms(2) block_positive by linarith
  moreover have "2 * B - B div 8 - 1 - ?r = (B - (?r + 1)) + (B - B div 8)"
    using r block_positive by linarith
  ultimately have k: "(2 * B - B div 8 - 1 - ?r) mod B = (B - (?r + 1)) + (B - B div 8)"
    by (simp only: mod_less)
  have one: "?r + length ?d1 = B" using r by simp
  have h1: "holds B compress H\<^sub>0 (m @ ?d1) (compress H (take ?r buf @ ?d1)) buf"
    by (rule holds_fill [OF assms(1) one holds_length [OF assms(1)]])
  have "length (m @ ?d1) mod B = (?r + length ?d1) mod B" by (simp only: length_append mod_add_left_eq)
  then have r1: "length (m @ ?d1) mod B = 0" unfolding one by simp
  have two: "length (m @ ?d1) mod B + length ?d2 = B"
    unfolding r1 using block_positive by (simp add: count_length)
  from holds_fill [OF h1 two holds_length [OF assms(1)]] show ?thesis
    unfolding fips_pad_def k r1 replicate_add by (simp add: holds_def)
qed

end

end
