(* ===== verification/Sha256_Code.thy ===== *)
theory Sha256_Code
  imports Sha2_Spec
begin

text \<open>
  The SHA-256 part of \<open>util/internal_sha2.cpp\<close>. The byte order of the host is a parameter of the
  definitions, so that both branches of the conditional compilation are modelled.

  \<open>SHA256_Transform\<close> uses the buffer of the context as its array of sixteen words and is also called
  on that buffer: a block is therefore \<open>None\<close> for the buffer of the context or \<open>Some\<close> the bytes at the
  pointer. The pointer \<open>data\<close> moves with the counter \<open>j\<close>, so word \<open>j\<close> is read in round \<open>j\<close>.
\<close>

section \<open>Macros and constants\<close>

definition SHA256_BLOCK_LENGTH :: nat where "SHA256_BLOCK_LENGTH = 64"

definition SHA256_SHORT_BLOCK_LENGTH :: nat where "SHA256_SHORT_BLOCK_LENGTH = SHA256_BLOCK_LENGTH - 8"

definition REVERSE32 :: "u32 \<Rightarrow> u32" where
  "REVERSE32 w = (let tmp = drop_bit 16 w OR push_bit 16 w
     in drop_bit 8 (tmp AND 0xff00ff00) OR push_bit 8 (tmp AND 0x00ff00ff))"

definition REVERSE64 :: "u64 \<Rightarrow> u64" where
  "REVERSE64 w = (let tmp = drop_bit 32 w OR push_bit 32 w;
       tmp = drop_bit 8 (tmp AND 0xff00ff00ff00ff00) OR push_bit 8 (tmp AND 0x00ff00ff00ff00ff)
     in drop_bit 16 (tmp AND 0xffff0000ffff0000) OR push_bit 16 (tmp AND 0x0000ffff0000ffff))"

definition S32 :: "nat \<Rightarrow> u32 \<Rightarrow> u32" where
  "S32 b x = drop_bit b x OR push_bit (32 - b) x"

definition Sigma0_256 :: "u32 \<Rightarrow> u32" where
  "Sigma0_256 x = S32 2 x XOR S32 13 x XOR S32 22 x"

definition Sigma1_256 :: "u32 \<Rightarrow> u32" where
  "Sigma1_256 x = S32 6 x XOR S32 11 x XOR S32 25 x"

definition sigma0_256 :: "u32 \<Rightarrow> u32" where
  "sigma0_256 x = S32 7 x XOR S32 18 x XOR R 3 x"

definition sigma1_256 :: "u32 \<Rightarrow> u32" where
  "sigma1_256 x = S32 17 x XOR S32 19 x XOR R 10 x"

definition K256 :: "u32 list" where
  "K256 =
     concat
      [[0x428a2f98, 0x71374491, 0xb5c0fbcf, 0xe9b5dba5],
       [0x3956c25b, 0x59f111f1, 0x923f82a4, 0xab1c5ed5],
       [0xd807aa98, 0x12835b01, 0x243185be, 0x550c7dc3],
       [0x72be5d74, 0x80deb1fe, 0x9bdc06a7, 0xc19bf174],
       [0xe49b69c1, 0xefbe4786, 0x0fc19dc6, 0x240ca1cc],
       [0x2de92c6f, 0x4a7484aa, 0x5cb0a9dc, 0x76f988da],
       [0x983e5152, 0xa831c66d, 0xb00327c8, 0xbf597fc7],
       [0xc6e00bf3, 0xd5a79147, 0x06ca6351, 0x14292967],
       [0x27b70a85, 0x2e1b2138, 0x4d2c6dfc, 0x53380d13],
       [0x650a7354, 0x766a0abb, 0x81c2c92e, 0x92722c85],
       [0xa2bfe8a1, 0xa81a664b, 0xc24b8b70, 0xc76c51a3],
       [0xd192e819, 0xd6990624, 0xf40e3585, 0x106aa070],
       [0x19a4c116, 0x1e376c08, 0x2748774c, 0x34b0bcb5],
       [0x391c0cb3, 0x4ed8aa4a, 0x5b9cca4f, 0x682e6ff3],
       [0x748f82ee, 0x78a5636f, 0x84c87814, 0x8cc70208],
       [0x90befffa, 0xa4506ceb, 0xbef9a3f7, 0xc67178f2]]"

definition sha256_initial_hash_value :: "u32 list" where
  "sha256_initial_hash_value =
     [0x6a09e667, 0xbb67ae85, 0x3c6ef372, 0xa54ff53a,
      0x510e527f, 0x9b05688c, 0x1f83d9ab, 0x5be0cd19]"

section \<open>The context and the transform\<close>

record SHA256_CTX =
  state :: "u32 list"
  bitcount :: u64
  buffer :: "u8 list"

text \<open>The memory of a context that was not initialised is an argument.\<close>

definition SHA256_Init :: "SHA256_CTX \<Rightarrow> SHA256_CTX" where
  "SHA256_Init context = context
     \<lparr>state := sha256_initial_hash_value, buffer := replicate SHA256_BLOCK_LENGTH 0, bitcount := 0\<rparr>"

definition ROUND256_0_TO_15 :: "byte_order \<times> u32 list option \<Rightarrow> u32 round_macro" where
  "ROUND256_0_TO_15 = (\<lambda>(bo, data) j a b c d e f g h W256.
     let word = (case data of None \<Rightarrow> W256 ! j | Some ws \<Rightarrow> ws ! j);
         W256 = W256[j := (case bo of Little_endian \<Rightarrow> REVERSE32 word | Big_endian \<Rightarrow> word)];
         T1 = h + Sigma1_256 e + Ch e f g + K256 ! j + W256 ! j
     in (d + T1, T1 + Sigma0_256 a + Maj a b c, W256))"

definition ROUND256 :: "u32 round_macro" where
  "ROUND256 j a b c d e f g h W256 =
     (let s0 = sigma0_256 (W256 ! ((j + 1) AND 0x0f));
          s1 = sigma1_256 (W256 ! ((j + 14) AND 0x0f));
          W256 = W256[j AND 0x0f := W256 ! (j AND 0x0f) + (s1 + W256 ! ((j + 9) AND 0x0f) + s0)];
          T1 = h + Sigma1_256 e + Ch e f g + K256 ! j + W256 ! (j AND 0x0f)
      in (d + T1, T1 + Sigma0_256 a + Maj a b c, W256))"

definition SHA256_Transform :: "byte_order \<Rightarrow> u8 list option \<Rightarrow> SHA256_CTX \<Rightarrow> SHA256_CTX" where
  "SHA256_Transform bo data context =
     (let W256 = load_words bo (buffer context);
          ws = map_option (load_words bo) data;
          s = do_rounds (ROUND256_0_TO_15 (bo, ws)) 16 0 (regs_of (state context), W256);
          (regs, W256) = do_rounds ROUND256 64 16 s
      in context\<lparr>state := add_regs (state context) regs, buffer := concat (map (store_word bo) W256)\<rparr>)"

text \<open>The version without unrolled loops, which moves the registers.\<close>

definition rolled_round_0_to_15 :: "byte_order \<times> u32 list option \<Rightarrow> nat \<Rightarrow> u32 regs \<times> u32 list \<Rightarrow> u32 regs \<times> u32 list" where
  "rolled_round_0_to_15 = (\<lambda>(bo, data) j ((a, b, c, d, e, f, g, h), W256).
     let word = (case data of None \<Rightarrow> W256 ! j | Some ws \<Rightarrow> ws ! j);
         W256 = W256[j := (case bo of Little_endian \<Rightarrow> REVERSE32 word | Big_endian \<Rightarrow> word)];
         T1 = h + Sigma1_256 e + Ch e f g + K256 ! j + W256 ! j;
         T2 = Sigma0_256 a + Maj a b c
     in ((T1 + T2, a, b, c, d + T1, e, f, g), W256))"

definition rolled_round :: "nat \<Rightarrow> u32 regs \<times> u32 list \<Rightarrow> u32 regs \<times> u32 list" where
  "rolled_round j = (\<lambda>((a, b, c, d, e, f, g, h), W256).
     let s0 = sigma0_256 (W256 ! ((j + 1) AND 0x0f));
         s1 = sigma1_256 (W256 ! ((j + 14) AND 0x0f));
         W256 = W256[j AND 0x0f := W256 ! (j AND 0x0f) + (s1 + W256 ! ((j + 9) AND 0x0f) + s0)];
         T1 = h + Sigma1_256 e + Ch e f g + K256 ! j + W256 ! (j AND 0x0f);
         T2 = Sigma0_256 a + Maj a b c
     in ((T1 + T2, a, b, c, d + T1, e, f, g), W256))"

function do_rolled :: "(nat \<Rightarrow> 's \<Rightarrow> 's) \<Rightarrow> nat \<Rightarrow> nat \<Rightarrow> 's \<Rightarrow> 's" where
  "do_rolled body limit j s = (let s = body j s in if j + 1 < limit then do_rolled body limit (j + 1) s else s)"
  by auto
termination by (relation "measure (\<lambda>(_, limit, j, _). limit - j)") auto

declare do_rolled.simps [simp del]

definition SHA256_Transform_rolled :: "byte_order \<Rightarrow> u8 list option \<Rightarrow> SHA256_CTX \<Rightarrow> SHA256_CTX" where
  "SHA256_Transform_rolled bo data context =
     (let W256 = load_words bo (buffer context);
          ws = map_option (load_words bo) data;
          s = do_rolled (rolled_round_0_to_15 (bo, ws)) 16 0 (regs_of (state context), W256);
          (regs, W256) = do_rolled rolled_round 64 16 s
      in context\<lparr>state := add_regs (state context) regs, buffer := concat (map (store_word bo) W256)\<rparr>)"

section \<open>Update, Final and End\<close>

function update_blocks :: "byte_order \<Rightarrow> SHA256_CTX \<Rightarrow> u8 list \<Rightarrow> SHA256_CTX \<times> u8 list" where
  "update_blocks bo context data =
     (if length data \<ge> SHA256_BLOCK_LENGTH
      then let context = SHA256_Transform bo (Some (take SHA256_BLOCK_LENGTH data)) context;
               context = context\<lparr>bitcount := bitcount context + push_bit 3 (of_nat SHA256_BLOCK_LENGTH)\<rparr>
           in update_blocks bo context (drop SHA256_BLOCK_LENGTH data)
      else (context, data))"
  by auto
termination
  by (relation "measure (\<lambda>(_, _, data). length data)") (auto simp: SHA256_BLOCK_LENGTH_def)

declare update_blocks.simps [simp del]

text \<open>The part of \<open>SHA256_Update\<close> after the buffered bytes were dealt with.\<close>

definition update_rest :: "byte_order \<Rightarrow> SHA256_CTX \<Rightarrow> u8 list \<Rightarrow> SHA256_CTX" where
  "update_rest bo context data =
     (case update_blocks bo context data of (context, data) \<Rightarrow>
        if length data > 0
        then context\<lparr>buffer := overwrite 0 data (buffer context),
                     bitcount := bitcount context + push_bit 3 (of_nat (length data))\<rparr>
        else context)"

definition usedspace :: "SHA256_CTX \<Rightarrow> nat" where
  "usedspace context = unat (drop_bit 3 (bitcount context) mod of_nat SHA256_BLOCK_LENGTH)"

definition SHA256_Update :: "byte_order \<Rightarrow> SHA256_CTX \<Rightarrow> u8 list \<Rightarrow> SHA256_CTX" where
  "SHA256_Update bo context data =
     (if data = [] then context
      else let used = usedspace context in
        if used > 0
        then let freespace = SHA256_BLOCK_LENGTH - used in
          if length data \<ge> freespace
          then let context = context\<lparr>buffer := overwrite used (take freespace data) (buffer context),
                       bitcount := bitcount context + push_bit 3 (of_nat freespace)\<rparr>;
                   context = SHA256_Transform bo None context
               in update_rest bo context (drop freespace data)
          else context\<lparr>buffer := overwrite used data (buffer context),
                 bitcount := bitcount context + push_bit 3 (of_nat (length data))\<rparr>
        else update_rest bo context data)"

text \<open>
  The padding part of \<open>SHA256_Final\<close>, up to the last transform. The count of bits is reversed in
  place on a little endian host.
\<close>

definition final_pad :: "byte_order \<Rightarrow> SHA256_CTX \<Rightarrow> SHA256_CTX" where
  "final_pad bo context =
     (let used = usedspace context;
          context = context\<lparr>bitcount := (case bo of Little_endian \<Rightarrow> REVERSE64 (bitcount context)
                                         | Big_endian \<Rightarrow> bitcount context)\<rparr>;
          context =
            (if used > 0
             then let context = context\<lparr>buffer := overwrite used [0x80] (buffer context)\<rparr>; used = used + 1 in
               if used \<le> SHA256_SHORT_BLOCK_LENGTH
               then context\<lparr>buffer := overwrite used (replicate (SHA256_SHORT_BLOCK_LENGTH - used) 0) (buffer context)\<rparr>
               else let context = (if used < SHA256_BLOCK_LENGTH
                      then context\<lparr>buffer := overwrite used (replicate (SHA256_BLOCK_LENGTH - used) 0) (buffer context)\<rparr>
                      else context);
                    context = SHA256_Transform bo None context
                 in context\<lparr>buffer := overwrite 0 (replicate SHA256_SHORT_BLOCK_LENGTH 0) (buffer context)\<rparr>
             else let context = context\<lparr>buffer := overwrite 0 (replicate SHA256_SHORT_BLOCK_LENGTH 0) (buffer context)\<rparr>
               in context\<lparr>buffer := overwrite 0 [0x80] (buffer context)\<rparr>)
      in context\<lparr>buffer := overwrite SHA256_SHORT_BLOCK_LENGTH (store_word bo (bitcount context)) (buffer context)\<rparr>)"

text \<open>
  \<open>SHA256_Final\<close> with a digest array. The clean up zeroes as many bytes of the context as a pointer has
  (\<open>sizeof(context)\<close>): the first two words of the state on a 64 bit host.
\<close>

definition SHA256_Final :: "byte_order \<Rightarrow> SHA256_CTX \<Rightarrow> u8 list \<times> SHA256_CTX" where
  "SHA256_Final bo context =
     (let context = SHA256_Transform bo None (final_pad bo context);
          context = context\<lparr>state := map (\<lambda>w. case bo of Little_endian \<Rightarrow> REVERSE32 w | Big_endian \<Rightarrow> w) (state context)\<rparr>;
          digest = concat (map (store_word bo) (state context))
      in (digest, context\<lparr>state := (state context)[0 := 0, 1 := 0]\<rparr>))"

text \<open>
  \<open>SHA256_End\<close> with an array for the text; the result is the content of the array before its terminator
  (the pointer the function returns is the one past it).
\<close>

definition sha2_hex_digits :: string where
  "sha2_hex_digits = ''0123456789abcdef''"

definition SHA256_End :: "byte_order \<Rightarrow> SHA256_CTX \<Rightarrow> string \<times> SHA256_CTX" where
  "SHA256_End bo context =
     (case SHA256_Final bo context of (digest, context) \<Rightarrow>
        (concat (map (\<lambda>d. [sha2_hex_digits ! unat (drop_bit 4 (d AND 0xf0)), sha2_hex_digits ! unat (d AND 0x0f)]) digest),
         context))"

definition SHA256_Data :: "byte_order \<Rightarrow> SHA256_CTX \<Rightarrow> u8 list \<Rightarrow> string" where
  "SHA256_Data bo context data = fst (SHA256_End bo (SHA256_Update bo (SHA256_Init context) data))"

section \<open>What the standard prescribes\<close>

text \<open>The functions of the standard, with rotations, and the hash of a message.\<close>

definition sha256_parameters :: "u32 sha2_parameters" where
  "sha256_parameters =
     \<lparr>Sigma0 = \<lambda>x. word_rotr 2 x XOR word_rotr 13 x XOR word_rotr 22 x,
      Sigma1 = \<lambda>x. word_rotr 6 x XOR word_rotr 11 x XOR word_rotr 25 x,
      sigma0 = \<lambda>x. word_rotr 7 x XOR word_rotr 18 x XOR drop_bit 3 x,
      sigma1 = \<lambda>x. word_rotr 17 x XOR word_rotr 19 x XOR drop_bit 10 x,
      Kt = K256\<rparr>"

definition sha256_compress :: "u32 list \<Rightarrow> u8 list \<Rightarrow> u32 list" where
  "sha256_compress H block = fips_compress sha256_parameters H (load_words Big_endian block)"

definition sha256_count :: "nat \<Rightarrow> u8 list" where
  "sha256_count n = store_word Big_endian (of_nat n :: u64)"

definition fips_sha256 :: "u8 list \<Rightarrow> u8 list" where
  "fips_sha256 m = concat (map (store_word Big_endian)
     (absorbed 64 sha256_compress sha256_initial_hash_value (fips_pad 64 sha256_count m)))"

section \<open>Byte orders\<close>

lemma high_bits: "32 \<le> m \<Longrightarrow> \<not> bit (x :: u32) m" "64 \<le> m \<Longrightarrow> \<not> bit (y :: u64) m"
  by (simp_all add: impossible_bit)

lemma REVERSE32_bytes: "REVERSE32 w = word_le (rev (bytes_le 4 w))"
proof (rule bit_word_eqI)
  fix n assume "n < LENGTH(32)"
  then have "n \<in> {..< 32}" by simp
  then show "bit (REVERSE32 w) n = bit (word_le (rev (bytes_le 4 w)) :: u32) n"
    unfolding bit_word_le
    by (simp add: lessThan_nat_numeral)
      (elim disjE; simp add: REVERSE32_def Let_def bytes_le_def upt_conv_Cons bit_simps high_bits)
qed

lemma REVERSE64_bytes: "REVERSE64 w = word_le (rev (bytes_le 8 w))"
proof (rule bit_word_eqI)
  fix n assume "n < LENGTH(64)"
  then have "n \<in> {..< 64}" by simp
  then show "bit (REVERSE64 w) n = bit (word_le (rev (bytes_le 8 w)) :: u64) n"
    unfolding bit_word_le
    by (simp add: lessThan_nat_numeral)
      (elim disjE; simp add: REVERSE64_def Let_def bytes_le_def upt_conv_Cons bit_simps high_bits)
qed

definition to_host :: "byte_order \<Rightarrow> u32 \<Rightarrow> u32" where
  "to_host bo w = (case bo of Little_endian \<Rightarrow> REVERSE32 w | Big_endian \<Rightarrow> w)"

lemma to_host_load: "length bs = 4 \<Longrightarrow> to_host bo (load_word bo bs) = load_word Big_endian bs"
  using bytes_le_word_le [where 'a = 32, of bs]
  by (simp add: to_host_def load_word_def REVERSE32_bytes split: byte_order.split)

lemma store_to_host: "store_word bo (to_host bo w) = store_word Big_endian w"
  using bytes_le_word_le [where 'a = 32, of "rev (bytes_le 4 w)"]
  by (simp add: to_host_def store_word_def REVERSE32_bytes split: byte_order.split)

lemma store_count: "store_word bo (case bo of Little_endian \<Rightarrow> REVERSE64 w | Big_endian \<Rightarrow> w) = store_word Big_endian w"
  using bytes_le_word_le [where 'a = 64, of "rev (bytes_le 8 w)"]
  by (simp add: store_word_def REVERSE64_bytes split: byte_order.split)

lemma S32_rotr: "0 < b \<Longrightarrow> b < 32 \<Longrightarrow> S32 b x = word_rotr b x"
  using shifts_rotr [of b x] by (simp add: S32_def)

lemma sigmas_256:
  "Sigma0 sha256_parameters = Sigma0_256" "Sigma1 sha256_parameters = Sigma1_256"
  "sigma0 sha256_parameters = sigma0_256" "sigma1 sha256_parameters = sigma1_256"
  by (simp_all add: sha256_parameters_def fun_eq_iff Sigma0_256_def Sigma1_256_def sigma0_256_def
      sigma1_256_def S32_rotr R_def)

end
