(* ===== verification/Buffered_Hash.thy ===== *)
theory Buffered_Hash
  imports Sha2_Spec
begin

text \<open>
  The code that collects the bytes of a message in a buffer of one block is written twice in
  \<open>util/internal_sha2.cpp\<close>, once per word size, over two types of contexts. What both copies share is
  proved here once, over the steps they are made of: the locale \<open>buffered_hash\<close> extends \<open>block_hash\<close> by
  a context and the ways bytes enter it. It is interpreted on the contexts of SHA-256 and of SHA-512.
\<close>

section \<open>Storing into a buffer\<close>

lemma overwrite_twice:
  "p + length a + length b \<le> length buf \<Longrightarrow>
    overwrite (p + length a) b (overwrite p a buf) = overwrite p (a @ b) buf"
  by (simp add: overwrite_def min_absorb2 add.commute add.left_commute)

lemma overwrite_longer:
  "length a \<le> length b \<Longrightarrow> p + length b \<le> length buf \<Longrightarrow> overwrite p b (overwrite p a buf) = overwrite p b buf"
  by (simp add: overwrite_def add.commute)

section \<open>The contract\<close>

text \<open>
  \<open>copy c p d\<close> stores the bytes \<open>d\<close> at position \<open>p\<close> of the buffer and counts them, \<open>flush\<close> transforms
  the buffer, \<open>take_block\<close> transforms and counts a block at the address of the data. \<open>feeds c m\<close> says
  that the context has received the message \<open>m\<close>.
\<close>

locale buffered_hash = block_hash B compress H\<^sub>0 count_bytes
  for B and compress :: "'h \<Rightarrow> u8 list \<Rightarrow> 'h" and H\<^sub>0 and count_bytes +
  fixes feeds :: "'c \<Rightarrow> u8 list \<Rightarrow> bool"
    and used :: "'c \<Rightarrow> nat"
    and copy :: "'c \<Rightarrow> nat \<Rightarrow> u8 list \<Rightarrow> 'c"
    and flush :: "'c \<Rightarrow> 'c"
    and take_block :: "'c \<Rightarrow> u8 list \<Rightarrow> 'c"
    and blocks :: "'c \<Rightarrow> u8 list \<Rightarrow> 'c \<times> u8 list"
    and rest :: "'c \<Rightarrow> u8 list \<Rightarrow> 'c"
    and update :: "'c \<Rightarrow> u8 list \<Rightarrow> 'c"
  assumes feeds_used: "feeds c m \<Longrightarrow> used c = length m mod B"
    and feeds_copy: "feeds c m \<Longrightarrow> length m mod B + length d < B \<Longrightarrow> feeds (copy c (length m mod B) d) (m @ d)"
    and feeds_flush: "feeds c m \<Longrightarrow> length m mod B + length d = B \<Longrightarrow> feeds (flush (copy c (length m mod B) d)) (m @ d)"
    and feeds_take_block: "feeds c m \<Longrightarrow> length m mod B = 0 \<Longrightarrow> length d = B \<Longrightarrow> feeds (take_block c d) (m @ d)"
    and blocks_unfold: "blocks c d = (if B \<le> length d then blocks (take_block c (take B d)) (drop B d) else (c, d))"
    and rest_unfold: "rest c d = (case blocks c d of (c, d) \<Rightarrow> if 0 < length d then copy c 0 d else c)"
    and update_unfold: "update c d =
      (if d = [] then c
       else if 0 < used c
       then if B - used c \<le> length d
         then rest (flush (copy c (used c) (take (B - used c) d))) (drop (B - used c) d)
         else copy c (used c) d
       else rest c d)"
begin

lemma feeds_blocks:
  assumes "feeds c m" "length m mod B = 0"
  shows "\<exists>bs r c'. blocks c d = (c', r) \<and> d = bs @ r \<and> feeds c' (m @ bs)
    \<and> length (m @ bs) mod B = 0 \<and> length r < B"
  using assms
proof (induction "length d" arbitrary: c m d rule: less_induct)
  case less
  show ?case
  proof (cases "B \<le> length d")
    case True
    let ?c = "take_block c (take B d)"
    have h: "feeds ?c (m @ take B d)" using less.prems True by (intro feeds_take_block) simp_all
    have z: "length (m @ take B d) mod B = 0" using less.prems(2) True by (simp add: min_absorb2)
    have l: "length (drop B d) < length d" using True block_positive by simp
    obtain bs r c' where u: "blocks ?c (drop B d) = (c', r)" "drop B d = bs @ r"
        "feeds c' ((m @ take B d) @ bs)" "length ((m @ take B d) @ bs) mod B = 0" "length r < B"
      using less.hyps [OF l h z] by (elim exE conjE) (rule that)
    have "blocks c d = (c', r)" using blocks_unfold [of c d] True u(1) by simp
    moreover have "d = (take B d @ bs) @ r" using append_take_drop_id [of B d] u(2) by (simp only: append_assoc)
    ultimately show ?thesis
      using u by (intro exI [of _ "take B d @ bs"] exI [of _ r] exI [of _ c']) (simp only: append_assoc)
  next
    case False
    then have "blocks c d = (c, d)" using blocks_unfold [of c d] by simp
    with False less.prems show ?thesis by (intro exI [of _ "[]"] exI [of _ d] exI [of _ c]) simp
  qed
qed

lemma feeds_rest:
  assumes "feeds c m" "length m mod B = 0"
  shows "feeds (rest c d) (m @ d)"
proof -
  obtain bs r c' where u: "blocks c d = (c', r)" "d = bs @ r" "feeds c' (m @ bs)"
      "length (m @ bs) mod B = 0" "length r < B"
    using feeds_blocks [OF assms, of d] by (elim exE conjE) (rule that)
  have "length (m @ bs) mod B + length r < B" using u(4,5) by simp
  from feeds_copy [OF u(3) this] show ?thesis
    unfolding rest_unfold u(1) using u(2-4) by simp
qed

lemma feeds_update:
  assumes "feeds c m"
  shows "feeds (update c d) (m @ d)"
proof -
  let ?r = "length m mod B"
  note used = feeds_used [OF assms]
  consider "d = []" | "d \<noteq> []" "?r = 0" | (fill) "0 < ?r" "B - ?r \<le> length d" | (part) "d \<noteq> []" "0 < ?r" "length d < B - ?r"
    by force
  then show ?thesis
  proof cases
    case fill
    have "?r < B" using block_positive by simp
    then have r: "?r + length (take (B - ?r) d) = B" using fill by simp
    let ?m = "m @ take (B - ?r) d"
    have "length ?m mod B = (?r + length (take (B - ?r) d)) mod B"
      by (simp only: length_append mod_add_left_eq)
    then have "length ?m mod B = 0" unfolding r by simp
    from feeds_rest [OF feeds_flush [OF assms r] this, of "drop (B - ?r) d"]
    have "feeds (rest (flush (copy c ?r (take (B - ?r) d))) (drop (B - ?r) d)) (m @ d)"
      by (simp only: append_assoc append_take_drop_id)
    moreover have "d \<noteq> []" using fill \<open>?r < B\<close> by auto
    ultimately show ?thesis using fill by (simp add: update_unfold used)
  next
    case part
    then show ?thesis using feeds_copy [OF assms, of d] by (simp add: update_unfold used)
  qed (use assms feeds_rest [OF assms] in \<open>simp_all add: update_unfold used\<close>)
qed

text \<open>The buffers the padding code builds.\<close>

lemma padded_short:
  assumes "length buf = B" "length m mod B + 1 \<le> B - B div 8"
  shows "overwrite (B - B div 8) (count_bytes n) (overwrite (length m mod B + 1)
      (replicate (B - B div 8 - (length m mod B + 1)) 0) (overwrite (length m mod B) [0x80] buf))
    = take (length m mod B) buf @ 0x80 # replicate (B - B div 8 - (length m mod B + 1)) 0 @ count_bytes n"
  (is "overwrite ?s ?n (overwrite (?r + 1) ?z (overwrite ?r ?one buf)) = _")
proof -
  have len: "?r + length (?one @ ?z) = ?s" "?s + length ?n = length buf"
    using assms by (simp_all add: count_length)
  have "overwrite (?r + 1) ?z (overwrite ?r ?one buf) = overwrite ?r (?one @ ?z) buf"
    using overwrite_twice [of ?r ?one ?z buf] len by simp
  moreover have "overwrite ?s ?n (overwrite ?r (?one @ ?z) buf) = overwrite ?r ((?one @ ?z) @ ?n) buf"
    using overwrite_twice [of ?r "?one @ ?z" ?n buf] len by (simp only: le_refl)
  moreover have "drop (?r + length ((?one @ ?z) @ ?n)) buf = []" using len by simp
  ultimately show ?thesis by (simp add: overwrite_def)
qed

lemma padded_long:
  assumes "length buf = B"
  shows "overwrite (length m mod B + 1) (replicate (B - (length m mod B + 1)) 0) (overwrite (length m mod B) [0x80] buf)
    = take (length m mod B) buf @ 0x80 # replicate (B - (length m mod B + 1)) 0"
proof -
  have "length m mod B < B" using block_positive by simp
  then show ?thesis using assms by (simp add: overwrite_def)
qed

end

end
