(* ===== verification/Sha256_Correct.thy ===== *)
theory Sha256_Correct
  imports Sha256_Code Buffered_Hash
begin

text \<open>
  The SHA-256 code computes the function of the standard, on hosts of both byte orders: the round
  macros implement the steps of the compression function (\<open>sha2_rounds\<close>), the buffering code hashes
  the padded message block by block (\<open>buffered_hash\<close>).
\<close>

section \<open>The transform\<close>

fun loads_256 :: "byte_order \<times> u32 list option \<Rightarrow> u32 list \<Rightarrow> u32 list \<Rightarrow> bool" where
  "loads_256 (bo, data) W M \<longleftrightarrow>
     (\<forall>j<16. to_host bo (case data of None \<Rightarrow> W ! j | Some ws \<Rightarrow> ws ! j) = M ! j)"

interpretation sha256: sha2_rounds sha256_parameters ROUND256_0_TO_15 ROUND256 loads_256
proof (unfold_locales, goal_cases)
  case 1
  then show ?case by (intro exI [of _ 5]) (simp add: sha256_parameters_def K256_def)
next
  case (2 x W\<^sub>0 M j W r)
  obtain bo data where x: "x = (bo, data)" by (cases x)
  obtain a b c d e f g h where r: "r = (a, b, c, d, e, f, g, h)" by (rule regs_cases)
  have "to_host bo (case data of None \<Rightarrow> W ! j | Some ws \<Rightarrow> ws ! j) = M ! j"
    using 2 by (auto simp: x split: option.splits)
  with 2 show ?case
    by (simp add: x r turn_def ROUND256_0_TO_15_def fips_step_def Let_def sigmas_256 to_host_def [symmetric]
        add.assoc) (simp add: sha256_parameters_def)
next
  case (3 j W w r)
  obtain a b c d e f g h where r: "r = (a, b, c, d, e, f, g, h)" by (rule regs_cases)
  show ?case using 3
    by (simp add: r turn_def ROUND256_def fips_step_def Let_def sigmas_256 and_15 add.assoc)
      (simp add: sha256_parameters_def)
qed

lemma SHA256_Transform_compresses:
  assumes "length (buffer c) = 64" "length (case data of None \<Rightarrow> buffer c | Some d \<Rightarrow> d) = 64"
  shows "\<exists>buf. length buf = 64 \<and> SHA256_Transform bo data c = c
    \<lparr>state := sha256_compress (state c) (case data of None \<Rightarrow> buffer c | Some d \<Rightarrow> d), buffer := buf\<rparr>"
proof -
  let ?blk = "case data of None \<Rightarrow> buffer c | Some d \<Rightarrow> d" and ?ws = "map_option (load_words bo) data"
  have "to_host bo (load_words bo ?blk ! j) = load_words Big_endian ?blk ! j" if "j < 16" for j
    using that assms(2) by (simp add: load_words_def Let_def to_host_load)
  then have "loads_256 (bo, ?ws) (load_words bo (buffer c)) (load_words Big_endian ?blk)"
    by (auto split: option.splits)
  have k: "Kt sha256_parameters = K256" "length K256 = 64"
    by (simp_all add: sha256_parameters_def K256_def)
  from sha256.transform_compresses [OF \<open>loads_256 _ _ _\<close>, of "state c"]
  obtain W where W: "do_rounds ROUND256 64 16 (do_rounds (ROUND256_0_TO_15 (bo, ?ws)) 16 0
        (regs_of (state c), load_words bo (buffer c)))
      = (fold (\<lambda>t. fips_step sha256_parameters (K256 ! t) (schedule sha256_parameters (load_words Big_endian ?blk) t))
          [0 ..< 64] (regs_of (state c)), W)" "length W = 16"
    by (auto simp: k)
  have len: "length (concat (map (store_word bo) W)) = 64"
    using length_stored_words [OF W(2)] by simp
  show ?thesis
    using W(1) len
    by (intro exI [of _ "concat (map (store_word bo) W)"])
      (simp add: SHA256_Transform_def Let_def sha256_compress_def fips_compress_def k)
qed

section \<open>Buffering\<close>

interpretation sha256_blocks: block_hash 64 sha256_compress sha256_initial_hash_value sha256_count
  by unfold_locales (simp_all add: sha256_count_def)

text \<open>The context that has received the message \<open>m\<close>.\<close>

definition sha256_holds :: "SHA256_CTX \<Rightarrow> u8 list \<Rightarrow> bool" where
  "sha256_holds c m \<longleftrightarrow> holds 64 sha256_compress sha256_initial_hash_value m (state c) (buffer c)
     \<and> bitcount c = push_bit 3 (of_nat (length m))"

lemma count_mod_block: "unat (drop_bit 3 (push_bit 3 (of_nat n :: u64)) mod 64) = n mod 64"
proof -
  have "8 * n mod 18446744073709551616 = 8 * (n mod 2305843009213693952)"
    using mult_mod_right [of 8 n 2305843009213693952] by simp
  moreover have "n mod 2305843009213693952 mod 64 = n mod 64" by (simp add: mod_mod_cancel)
  ultimately show ?thesis
    by (simp add: unat_mod unat_drop_bit_eq unat_of_nat push_bit_eq_mult drop_bit_eq_div unat_word_ariths
        mod_mult_right_eq mult.commute)
qed

lemma sha256_holds_used: "sha256_holds c m \<Longrightarrow> usedspace c = length m mod 64"
  using count_mod_block [of "length m"] by (simp add: sha256_holds_def usedspace_def SHA256_BLOCK_LENGTH_def)

lemma sha256_holds_length: "sha256_holds c m \<Longrightarrow> length (buffer c) = 64"
  by (simp add: sha256_holds_def holds_def)

lemma SHA256_Init_holds: "sha256_holds (SHA256_Init c) []"
  using sha256_blocks.holds_init by (simp add: sha256_holds_def SHA256_Init_def SHA256_BLOCK_LENGTH_def)

text \<open>The three ways bytes enter the context.\<close>

lemma holds_partial_256:
  assumes "sha256_holds c m" "length m mod 64 + length d < 64"
  shows "sha256_holds (c\<lparr>buffer := overwrite (length m mod 64) d (buffer c),
      bitcount := bitcount c + push_bit 3 (of_nat (length d))\<rparr>) (m @ d)"
  using assms sha256_blocks.holds_partial [of m "state c" "buffer c" d]
  by (simp add: sha256_holds_def push_bit_add)

lemma holds_fill_256:
  assumes "sha256_holds c m" "length m mod 64 + length d = 64"
  shows "sha256_holds (SHA256_Transform bo None (c\<lparr>buffer := overwrite (length m mod 64) d (buffer c),
      bitcount := bitcount c + push_bit 3 (of_nat (length d))\<rparr>)) (m @ d)"
proof -
  let ?buf = "overwrite (length m mod 64) d (buffer c)"
  have len: "length ?buf = 64" using assms(2) sha256_holds_length [OF assms(1)] by simp
  have buf: "?buf = take (length m mod 64) (buffer c) @ d"
    using assms(2) sha256_holds_length [OF assms(1)] by (simp add: overwrite_def)
  obtain b where b: "length b = 64" "SHA256_Transform bo None (c\<lparr>buffer := ?buf,
        bitcount := bitcount c + push_bit 3 (of_nat (length d))\<rparr>)
      = c\<lparr>buffer := b, bitcount := bitcount c + push_bit 3 (of_nat (length d)), state := sha256_compress (state c) ?buf\<rparr>"
    using SHA256_Transform_compresses [of "c\<lparr>buffer := ?buf, bitcount := bitcount c + push_bit 3 (of_nat (length d))\<rparr>" None bo]
      len by auto
  then show ?thesis
    using assms sha256_blocks.holds_fill [OF _ assms(2) b(1), of "state c" "buffer c"]
    by (simp add: sha256_holds_def push_bit_add buf)
qed

lemma holds_block_256:
  assumes "sha256_holds c m" "length m mod 64 = 0" "length d = 64"
  shows "sha256_holds ((SHA256_Transform bo (Some d) c)
      \<lparr>bitcount := bitcount (SHA256_Transform bo (Some d) c) + push_bit 3 64\<rparr>) (m @ d)"
proof -
  obtain b where b: "length b = 64"
    "SHA256_Transform bo (Some d) c = c\<lparr>state := sha256_compress (state c) d, buffer := b\<rparr>"
    using SHA256_Transform_compresses [of c "Some d" bo] sha256_holds_length [OF assms(1)] assms(3) by auto
  have "length m mod 64 + length d = 64" using assms by simp
  from sha256_blocks.holds_fill [OF _ this b(1), of "state c" "buffer c"] assms b(2) show ?thesis
    by (simp add: sha256_holds_def push_bit_add)
qed

interpretation sha256_buffer: buffered_hash 64 sha256_compress sha256_initial_hash_value sha256_count sha256_holds usedspace
  "\<lambda>c pos d. c\<lparr>buffer := overwrite pos d (buffer c), bitcount := bitcount c + push_bit 3 (of_nat (length d))\<rparr>"
  "SHA256_Transform bo None"
  "\<lambda>c d. (SHA256_Transform bo (Some d) c)\<lparr>bitcount := bitcount (SHA256_Transform bo (Some d) c) + push_bit 3 64\<rparr>"
  "update_blocks bo" "update_rest bo" "SHA256_Update bo" for bo
proof (unfold_locales, goal_cases)
  case (1 c m)
  then show ?case by (rule sha256_holds_used)
next
  case (2 c m d)
  then show ?case by (rule holds_partial_256)
next
  case (3 c m d)
  then show ?case by (rule holds_fill_256)
next
  case (4 c m d)
  then show ?case by (rule holds_block_256)
next
  case (5 c d)
  then show ?case by (subst update_blocks.simps) (simp add: SHA256_BLOCK_LENGTH_def Let_def)
next
  case (6 c d)
  then show ?case by (simp add: update_rest_def)
next
  case (7 c d)
  then show ?case by (simp add: SHA256_Update_def SHA256_BLOCK_LENGTH_def Let_def min_def)
qed

lemmas SHA256_Update_holds = sha256_buffer.feeds_update

section \<open>The digest\<close>

lemma transform_bitcount: "bitcount (SHA256_Transform bo d c) = bitcount c"
  by (simp add: SHA256_Transform_def Let_def split: prod.split)

lemma final_pad_absorbs:
  assumes "sha256_holds c m"
  shows "length (buffer (final_pad bo c)) = 64
    \<and> sha256_compress (state (final_pad bo c)) (buffer (final_pad bo c))
      = absorbed 64 sha256_compress sha256_initial_hash_value (fips_pad 64 sha256_count m)"
proof -
  let ?r = "length m mod 64" and ?count = "sha256_count (8 * length m)"
  let ?bits = "case bo of Little_endian \<Rightarrow> REVERSE64 (bitcount c) | Big_endian \<Rightarrow> bitcount c"
  let ?c = "c\<lparr>bitcount := ?bits\<rparr>"
  have h: "holds 64 sha256_compress sha256_initial_hash_value m (state c) (buffer c)"
    using assms by (simp add: sha256_holds_def)
  have len: "length (buffer c) = 64" and r: "?r < 64" using assms by (simp_all add: sha256_holds_length)
  have count: "store_word bo ?bits = ?count" "length ?count = 8"
    using assms by (simp_all add: store_count sha256_count_def sha256_holds_def push_bit_eq_mult mult.commute)
  note defs = final_pad_def SHA256_SHORT_BLOCK_LENGTH_def SHA256_BLOCK_LENGTH_def Let_def sha256_holds_used [OF assms]
  consider (zero) "?r = 0" | (short) "0 < ?r" "?r + 1 \<le> 56" | (long) "56 < ?r + 1" by force
  then show ?thesis
  proof cases
    case zero
    then have "buffer (final_pad bo c) = 0x80 # replicate 55 0 @ ?count" "state (final_pad bo c) = state c"
      using len count by (simp_all add: defs overwrite_def)
    then show ?thesis using sha256_blocks.pad_short [OF h] zero count(2) by simp
  next
    case short
    let ?z = "replicate (56 - (?r + 1)) 0 :: u8 list"
    have "buffer (final_pad bo c) = overwrite 56 ?count (overwrite (?r + 1) ?z (overwrite ?r [0x80] (buffer c)))"
        "state (final_pad bo c) = state c"
      using short count by (simp_all add: defs)
    then show ?thesis
      using sha256_blocks.pad_short [OF h] sha256_buffer.padded_short [OF len, of m] short len count(2) by simp
  next
    case long
    let ?z = "replicate (64 - (?r + 1)) 0 :: u8 list"
    let ?buf = "overwrite (?r + 1) ?z (overwrite ?r [0x80] (buffer c))"
    have buf: "?buf = take ?r (buffer c) @ 0x80 # ?z" "length ?buf = 64"
      using sha256_buffer.padded_long [OF len, of m] len r by simp_all
    have pad: "buffer (final_pad bo c) = overwrite 56 ?count (overwrite 0 (replicate 56 0)
          (buffer (SHA256_Transform bo None (?c\<lparr>buffer := ?buf\<rparr>))))"
        "state (final_pad bo c) = state (SHA256_Transform bo None (?c\<lparr>buffer := ?buf\<rparr>))"
      using long count(1) by (simp_all add: defs transform_bitcount)
    obtain b where b: "length b = 64"
        "SHA256_Transform bo None (?c\<lparr>buffer := ?buf\<rparr>) = ?c\<lparr>buffer := b, state := sha256_compress (state c) ?buf\<rparr>"
      using SHA256_Transform_compresses [of "?c\<lparr>buffer := ?buf\<rparr>" None bo] buf(2) by auto
    have "buffer (final_pad bo c) = replicate 56 0 @ ?count"
      unfolding pad(1) b(2) using b(1) count(2) by (simp add: overwrite_def)
    moreover have "state (final_pad bo c) = sha256_compress (state c) ?buf"
      unfolding pad(2) b(2) by simp
    note this [unfolded buf(1)]
    ultimately show ?thesis
      using sha256_blocks.pad_long [OF h] long count(2) by simp
  qed
qed

lemma SHA256_Final_digest:
  assumes "sha256_holds c m"
  shows "fst (SHA256_Final bo c) = fips_sha256 m"
proof -
  obtain b where "SHA256_Transform bo None (final_pad bo c) = (final_pad bo c)
      \<lparr>state := sha256_compress (state (final_pad bo c)) (buffer (final_pad bo c)), buffer := b\<rparr>"
    using SHA256_Transform_compresses [of "final_pad bo c" None bo] final_pad_absorbs [OF assms] by auto
  then show ?thesis
    using final_pad_absorbs [OF assms, of bo]
    by (simp add: SHA256_Final_def Let_def fips_sha256_def comp_def store_to_host to_host_def [symmetric])
qed

section \<open>The rolled transform\<close>

lemma do_rolled_fold: "j < limit \<Longrightarrow> do_rolled body limit j s = fold body [j ..< limit] s"
proof (induction "limit - j" arbitrary: j s rule: less_induct)
  case less
  then have "[j ..< limit] = j # [j + 1 ..< limit]" by (simp add: upt_conv_Cons)
  then show ?case
    using less by (subst do_rolled.simps) (cases "j + 1 < limit"; simp add: Let_def)
qed

lemma rolled_turns:
  "rolled_round_0_to_15 x = turn (ROUND256_0_TO_15 x)" "rolled_round = turn ROUND256"
  by (auto simp: fun_eq_iff rolled_round_0_to_15_def rolled_round_def turn_def ROUND256_0_TO_15_def ROUND256_def
      Let_def add.assoc split: prod.splits)

section \<open>Properties\<close>

text \<open>
  the unrolled transform, with its renamed registers and eight rounds per iteration, computes the
  same context as the plain loops of the other branch of the conditional compilation, for every
  context, block and byte order.
\<close>

lemma transform_unrolled_eq_rolled: "SHA256_Transform bo data c = SHA256_Transform_rolled bo data c"
proof -
  have "do_rounds (ROUND256_0_TO_15 x) 16 0 s = do_rolled (rolled_round_0_to_15 x) 16 0 s" for x s
    using do_rounds_turns [of "ROUND256_0_TO_15 x" 0 1 s] by (simp add: do_rolled_fold rolled_turns)
  moreover have "do_rounds ROUND256 64 16 s = do_rolled rolled_round 64 16 s" for s
    using do_rounds_turns [of ROUND256 16 5 s] by (simp add: do_rolled_fold rolled_turns)
  ultimately show ?thesis by (simp add: SHA256_Transform_def SHA256_Transform_rolled_def)
qed

end
