(* ===== verification/Ranges.thy ===== *)
theory Ranges
  imports Prelude
begin

text \<open>
  The byte ranges of \<^verbatim>\<open>libcore/src/transfer/Range.hpp\<close>: the class \<open>Range\<close>, its ordering and
  printing, containment in one range and in a list of ranges, and the insertion
  \<open>addToList\<close> that keeps a list of ranges ordered and free of useless entries. A class
  derived from \<open>Range\<close> is a record that extends \<open>range\<close>, so the member functions take an
  \<open>'a range_scheme\<close> as the C++ member functions take any derived object. Arithmetic is the
  64-bit arithmetic of \<open>cache_usize_type\<close>. The lemmas characterise containment by the bytes
  that are covered and show that insertion keeps the list well-formed.
\<close>

section \<open>The class\<close>

text \<open>The enumerators \<open>LENGTH\<close> and \<open>BOUNDS\<close> of the source carry a prefix here.\<close>

datatype Initializer = Init_LENGTH | Init_BOUNDS

record range =
  mStart :: u64
  mLength :: u64
  mWholeFile :: bool

definition Range_whole :: "bool \<Rightarrow> range" where
  "Range_whole wholeFile = \<lparr>mStart = 0, mLength = 0, mWholeFile = wholeFile\<rparr>"

definition Range_from :: "u64 \<Rightarrow> bool \<Rightarrow> range" where
  "Range_from start wholeFile = \<lparr>mStart = start, mLength = 0, mWholeFile = wholeFile\<rparr>"

definition Range_make :: "u64 \<Rightarrow> u64 \<Rightarrow> Initializer \<Rightarrow> bool \<Rightarrow> range" where
  "Range_make start len type wholeFile =
     \<lparr>mStart = start, mLength = (if type = Init_LENGTH then len else len - start), mWholeFile = wholeFile\<rparr>"

definition goesToEndOfFile :: "'a range_scheme \<Rightarrow> bool" where
  "goesToEndOfFile r = mWholeFile r"

definition startbyte :: "'a range_scheme \<Rightarrow> u64" where
  "startbyte r = mStart r"

definition range_length :: "'a range_scheme \<Rightarrow> u64" where
  "range_length r = mLength r"

definition endbyte :: "'a range_scheme \<Rightarrow> u64" where
  "endbyte r = mStart r + mLength r"

definition range_setLength :: "'a range_scheme \<Rightarrow> u64 \<Rightarrow> bool \<Rightarrow> 'a range_scheme" where
  "range_setLength r l wholeFile = r\<lparr>mLength := l, mWholeFile := wholeFile\<rparr>"

definition range_setBase :: "'a range_scheme \<Rightarrow> u64 \<Rightarrow> 'a range_scheme" where
  "range_setBase r s = r\<lparr>mStart := s\<rparr>"

lemmas range_accessors [accessor_defs] =
  Range_whole_def Range_from_def Range_make_def goesToEndOfFile_def startbyte_def range_length_def
  endbyte_def range_setLength_def range_setBase_def

text \<open>The conversion of a derived object to its base \<open>Range\<close>.\<close>

definition as_range :: "'a range_scheme \<Rightarrow> range" where
  "as_range r = \<lparr>mStart = mStart r, mLength = mLength r, mWholeFile = mWholeFile r\<rparr>"

section \<open>Ordering, equality and printing\<close>

definition range_less :: "'a range_scheme \<Rightarrow> 'b range_scheme \<Rightarrow> bool" where
  "range_less r other =
     (if mLength r = mLength other
      then (if mStart r = mStart other \<and> (mWholeFile r \<or> mWholeFile other)
            then mWholeFile other \<and> \<not> mWholeFile r
            else mStart r < mStart other)
      else mLength r < mLength other)"

definition range_eq :: "'a range_scheme \<Rightarrow> 'b range_scheme \<Rightarrow> bool" where
  "range_eq r other \<longleftrightarrow>
     mLength r = mLength other \<and> mStart r = mStart other \<and> mWholeFile r = mWholeFile other"

definition range_print :: "'a range_scheme \<Rightarrow> string" where
  "range_print r =
     ''['' @ show_u64 (startbyte r)
     @ (if mLength r \<noteq> 0 then '', '' @ show_u64 (endbyte r) else '''')
     @ (if mWholeFile r then '' => eof'' else '''')
     @ '')''"

section \<open>Containment\<close>

definition contains :: "'a range_scheme \<Rightarrow> 'b range_scheme \<Rightarrow> bool" where
  "contains this other =
     (if goesToEndOfFile this then startbyte other \<ge> startbyte this
      else if \<not> goesToEndOfFile this \<and> goesToEndOfFile other then False
      else startbyte other \<ge> startbyte this \<and> endbyte other \<le> endbyte this)"

definition isContainedBy :: "'a range_scheme \<Rightarrow> 'b range_scheme \<Rightarrow> bool" where
  "isContainedBy this other = contains other this"

text \<open>
  \<open>isContainedBy\<close> on a list is two loops over one iterator: \<open>contained_search\<close> looks for an
  entry that holds the first byte, \<open>contained_chain\<close> follows the entries from there, with
  \<open>lastEnd\<close> the end of the entry before.
\<close>

fun contained_chain :: "'a range_scheme \<Rightarrow> u64 \<Rightarrow> 'b range_scheme list \<Rightarrow> bool" where
  "contained_chain this lastEnd [] = False"
| "contained_chain this lastEnd (x # xs) =
     (if startbyte x > lastEnd then False
      else if goesToEndOfFile x then True
      else if \<not> goesToEndOfFile this \<and> endbyte this \<le> endbyte x then True
      else contained_chain this (endbyte x) xs)"

fun contained_search :: "'a range_scheme \<Rightarrow> 'b range_scheme list \<Rightarrow> bool" where
  "contained_search this [] = False"
| "contained_search this (x # xs) =
     (if mStart this \<ge> startbyte x \<and> goesToEndOfFile x then True
      else if mStart this \<ge> startbyte x \<and> mStart this < endbyte x
      then contained_chain this (endbyte x) (x # xs)
      else contained_search this xs)"

definition isContainedBy_list :: "'a range_scheme \<Rightarrow> 'b range_scheme list \<Rightarrow> bool" where
  "isContainedBy_list this list = contained_search this list"

fun print_entries :: "range \<Rightarrow> bool \<Rightarrow> bool \<Rightarrow> 'a range_scheme list \<Rightarrow> string" where
  "print_entries checkFor exact start [] = ''''"
| "print_entries checkFor exact start (x # xs) =
     (if start then ''{'' else '','') @ range_print x
     @ (if range_eq x checkFor then ''**''
        else if \<not> exact \<and> isContainedBy x checkFor then ''++'' else '''')
     @ print_entries checkFor exact False xs"

definition printRangeList :: "'a range_scheme list \<Rightarrow> range \<Rightarrow> bool \<Rightarrow> string" where
  "printRangeList cdata checkFor exact = print_entries checkFor exact True cdata @ ''}''"

section \<open>Insertion\<close>

text \<open>
  The first loop of \<open>addToList\<close>, from the iterator on: the maximal end and the end-of-file flag
  of the entries that start no later than \<open>startdata\<close>, and the list split at the iterator.
\<close>

fun add_scan :: "u64 \<Rightarrow> u64 \<Rightarrow> bool \<Rightarrow> 'b range_scheme list
    \<Rightarrow> u64 \<times> bool \<times> 'b range_scheme list \<times> 'b range_scheme list" where
  "add_scan startdata maxend includeseof [] = (maxend, includeseof, [], [])"
| "add_scan startdata maxend includeseof (x # xs) =
     (if startbyte x > startdata then (maxend, includeseof, [], x # xs)
      else let maxend' = (if endbyte x > maxend then endbyte x else maxend);
               includeseof' = (if goesToEndOfFile x then True else includeseof)
           in if startbyte x \<ge> startdata then (maxend', includeseof', [], x # xs)
              else case add_scan startdata maxend' includeseof' xs of
                     (m, e, before, after) \<Rightarrow> (m, e, x # before, after))"

text \<open>The second loop: the entries after the new one that it makes useless are erased.\<close>

definition add_erase :: "'a range_scheme \<Rightarrow> 'b range_scheme list \<Rightarrow> 'b range_scheme list" where
  "add_erase this xs =
     filter (\<lambda>x. \<not> (goesToEndOfFile this \<or> (\<not> goesToEndOfFile x \<and> endbyte x \<le> endbyte this))) xs"

definition addToList :: "'a range_scheme \<Rightarrow> 'b range_scheme \<Rightarrow> 'b range_scheme list
    \<Rightarrow> 'b range_scheme list" where
  "addToList this data list =
     (if range_length this \<le> 0 then list
      else if startbyte this = 0 \<and> goesToEndOfFile this then [data]
      else case add_scan (startbyte this) (startbyte this) False list of
             (maxend, includeseof, before, after) \<Rightarrow>
               if includeseof \<or> (maxend > endbyte this \<and> \<not> goesToEndOfFile this) then list
               else before @ data # add_erase this after)"

section \<open>Bytes covered\<close>

definition in_range :: "'a range_scheme \<Rightarrow> u64 \<Rightarrow> bool" where
  "in_range r b \<longleftrightarrow> startbyte r \<le> b \<and> (goesToEndOfFile r \<or> b < endbyte r)"

definition covered :: "'a range_scheme list \<Rightarrow> u64 \<Rightarrow> bool" where
  "covered l b \<longleftrightarrow> (\<exists>x\<in>set l. in_range x b)"

text \<open>
  A range holds at least one byte and its end does not wrap around; a list of ranges is
  well-formed when starts increase, ends do not decrease and only the last range may reach
  the end of the file.
\<close>

definition range_ok :: "'a range_scheme \<Rightarrow> bool" where
  "range_ok r \<longleftrightarrow> startbyte r < endbyte r"

definition range_before :: "'a range_scheme \<Rightarrow> 'b range_scheme \<Rightarrow> bool" where
  "range_before a b \<longleftrightarrow>
     startbyte a < startbyte b \<and> \<not> goesToEndOfFile a \<and> (goesToEndOfFile b \<or> endbyte a \<le> endbyte b)"

definition range_list_ok :: "'a range_scheme list \<Rightarrow> bool" where
  "range_list_ok l \<longleftrightarrow> list_all range_ok l \<and> sorted_wrt range_before l"

lemma range_ok_iff:
  "range_ok r \<longleftrightarrow> mLength r \<noteq> 0 \<and> unat (mStart r) + unat (mLength r) < 2 ^ 64"
  by (simp add: range_ok_def startbyte_def endbyte_def word_less_add_iff)

lemma covered_simps [simp]:
  "\<not> covered [] b"
  "covered (x # xs) b \<longleftrightarrow> in_range x b \<or> covered xs b"
  "covered (xs @ ys) b \<longleftrightarrow> covered xs b \<or> covered ys b"
  by (auto simp: covered_def)

subsection \<open>Soundness and completeness of containment in a list\<close>

lemma contained_chain_sound:
  "contained_chain this lastEnd xs \<Longrightarrow> lastEnd \<le> b \<Longrightarrow> in_range this b \<Longrightarrow> covered xs b"
proof (induction this lastEnd xs rule: contained_chain.induct)
  case (2 this lastEnd x xs)
  show ?case
  proof (cases "in_range x b")
    case True
    then show ?thesis by simp
  next
    case False
    with "2.prems" have "\<not> goesToEndOfFile x" "endbyte x \<le> b"
      by (auto simp: in_range_def split: if_splits)
    moreover from this "2.prems" have "\<not> (\<not> goesToEndOfFile this \<and> endbyte this \<le> endbyte x)"
      by (auto simp: in_range_def)
    ultimately show ?thesis
      using "2.prems" "2.IH" by (simp split: if_splits)
  qed
qed simp

lemma contained_search_sound:
  "contained_search this xs \<Longrightarrow> in_range this b \<Longrightarrow> covered xs b"
proof (induction this xs rule: contained_search.induct)
  case (2 this x xs)
  show ?case
  proof (cases "in_range x b")
    case False
    from "2.prems" have b: "mStart this \<le> b" by (simp add: in_range_def startbyte_def)
    consider "mStart this \<ge> startbyte x" "goesToEndOfFile x"
      | "mStart this \<ge> startbyte x" "mStart this < endbyte x" "contained_chain this (endbyte x) (x # xs)"
      | "contained_search this xs" "\<not> (mStart this \<ge> startbyte x \<and> goesToEndOfFile x)"
          "\<not> (mStart this \<ge> startbyte x \<and> mStart this < endbyte x)"
      using "2.prems"(1) by (auto split: if_splits)
    then show ?thesis
    proof cases
      case 1
      with b False show ?thesis by (auto simp: in_range_def)
    next
      case 2
      with b False have "endbyte x \<le> b" by (auto simp: in_range_def)
      with 2 "2.prems"(2) show ?thesis by (blast intro: contained_chain_sound)
    next
      case 3
      with "2.IH" "2.prems"(2) show ?thesis by simp
    qed
  qed simp
qed simp

lemma range_list_ok_Cons:
  "range_list_ok (x # xs) \<longleftrightarrow> range_ok x \<and> (\<forall>y\<in>set xs. range_before x y) \<and> range_list_ok xs"
  by (auto simp: range_list_ok_def)

lemma contained_chain_complete:
  assumes "range_list_ok xs" and "in_range this lastEnd"
    and "\<forall>x\<in>set xs. goesToEndOfFile x \<or> lastEnd \<le> endbyte x"
    and "\<forall>b\<ge>lastEnd. in_range this b \<longrightarrow> covered xs b"
  shows "contained_chain this lastEnd xs"
  using assms
proof (induction this lastEnd xs rule: contained_chain.induct)
  case (1 this lastEnd)
  then show ?case by auto
next
  case (2 this lastEnd x xs)
  from "2.prems"(2,4) obtain y where y: "y \<in> set (x # xs)" "startbyte y \<le> lastEnd"
    by (force simp: covered_def in_range_def)
  with "2.prems"(1) have no_gap: "startbyte x \<le> lastEnd"
    by (auto simp: range_list_ok_Cons range_before_def)
  show ?case
  proof (cases "goesToEndOfFile x \<or> (\<not> goesToEndOfFile this \<and> endbyte this \<le> endbyte x)")
    case True
    with no_gap show ?thesis by (auto simp: not_less)
  next
    case False
    have *: "in_range this (endbyte x)"
    proof -
      have "startbyte this \<le> lastEnd" "lastEnd \<le> endbyte x"
        using False "2.prems"(2,3) by (auto simp: in_range_def)
      then have "startbyte this \<le> endbyte x" by (rule order_trans)
      with False show ?thesis by (auto simp: in_range_def)
    qed
    have "contained_chain this (endbyte x) xs"
    proof (rule "2.IH")
      show "\<not> lastEnd < startbyte x" using no_gap by (simp add: not_less)
      show "\<forall>z\<in>set xs. goesToEndOfFile z \<or> endbyte x \<le> endbyte z"
        using "2.prems"(1) by (auto simp: range_list_ok_Cons range_before_def)
      show "\<forall>b\<ge>endbyte x. in_range this b \<longrightarrow> covered xs b"
      proof (intro allI impI)
        fix b assume b: "endbyte x \<le> b" "in_range this b"
        have "lastEnd \<le> endbyte x" using "2.prems"(3) False by auto
        then have "lastEnd \<le> b" using b(1) by (rule order_trans)
        with "2.prems"(4) b(2) have "covered (x # xs) b" by blast
        with b(1) False show "covered xs b" by (auto simp: in_range_def)
      qed
    qed (use False * "2.prems"(1) in \<open>auto simp: range_list_ok_Cons\<close>)
    with False no_gap show ?thesis by (auto simp: not_less)
  qed
qed

lemma contained_search_complete:
  assumes "range_list_ok xs" and "in_range this (startbyte this)"
    and "\<forall>b. in_range this b \<longrightarrow> covered xs b"
  shows "contained_search this xs"
  using assms
proof (induction this xs rule: contained_search.induct)
  case (1 this)
  then show ?case by auto
next
  case (2 this x xs)
  note accs = startbyte_def [of this]
  consider "startbyte this \<ge> startbyte x \<and> goesToEndOfFile x"
    | "\<not> goesToEndOfFile x" "startbyte x \<le> startbyte this" "startbyte this < endbyte x"
    | "\<not> (startbyte this \<ge> startbyte x \<and> goesToEndOfFile x)"
        "\<not> (startbyte this \<ge> startbyte x \<and> startbyte this < endbyte x)"
    by blast
  then show ?case
  proof cases
    case 1
    then show ?thesis by (simp add: accs)
  next
    case 2
    have "contained_chain this (endbyte x) (x # xs)"
    proof (cases "\<not> goesToEndOfFile this \<and> endbyte this \<le> endbyte x")
      case False
      have "contained_chain this (endbyte x) xs"
      proof (rule contained_chain_complete)
        show "in_range this (endbyte x)" using 2 False by (auto simp: in_range_def)
        show "\<forall>z\<in>set xs. goesToEndOfFile z \<or> endbyte x \<le> endbyte z" and "range_list_ok xs"
          using "2.prems"(1) by (auto simp: range_list_ok_Cons range_before_def)
        show "\<forall>b\<ge>endbyte x. in_range this b \<longrightarrow> covered xs b"
          using "2.prems"(3) 2 by (force simp: in_range_def)
      qed
      with 2 False show ?thesis by auto
    qed (use 2 in auto)
    with 2 show ?thesis by (simp add: accs)
  next
    case 3
    from "2.prems"(2,3) obtain y where "y \<in> set (x # xs)" "startbyte y \<le> startbyte this"
      by (force simp: covered_def in_range_def)
    with "2.prems"(1) have "startbyte x \<le> startbyte this"
      by (auto simp: range_list_ok_Cons range_before_def)
    with 3 have "\<forall>b. in_range this b \<longrightarrow> \<not> in_range x b"
      by (auto simp: in_range_def)
    with "2.prems"(3) have "\<forall>b. in_range this b \<longrightarrow> covered xs b" by simp
    with 3 "2.prems"(1,2) "2.IH" have "contained_search this xs"
      by (simp add: accs range_list_ok_Cons)
    with 3 show ?thesis by (auto simp: accs)
  qed
qed

subsection \<open>Insertion keeps the list well-formed\<close>

lemma add_scan_split: "add_scan s m e xs = (m', e', bef, aft) \<Longrightarrow> xs = bef @ aft"
  by (induction s m e xs arbitrary: m' e' bef aft rule: add_scan.induct)
     (auto simp: Let_def split: if_splits prod.splits)

lemma add_scan_before: "add_scan s m e xs = (m', e', bef, aft) \<Longrightarrow> \<forall>x\<in>set bef. startbyte x < s"
  by (induction s m e xs arbitrary: m' e' bef aft rule: add_scan.induct)
     (auto simp: Let_def not_le split: if_splits prod.splits)

lemma add_scan_after:
  assumes "add_scan s m e xs = (m', e', bef, aft)" "sorted_wrt range_before xs" "x \<in> set aft"
  shows "s \<le> startbyte x"
  using assms
  by (induction s m e xs arbitrary: m' e' bef aft rule: add_scan.induct)
     (fastforce simp: Let_def range_before_def split: if_splits prod.splits)+

text \<open>The flags tell exactly what the entries that start no later than \<open>s\<close> reach.\<close>

lemma add_scan_eof:
  assumes "add_scan s m e xs = (m', e', bef, aft)" "sorted_wrt range_before xs"
  shows "e' \<longleftrightarrow> e \<or> (\<exists>x\<in>set xs. startbyte x \<le> s \<and> goesToEndOfFile x)"
  using assms
proof (induction s m e xs arbitrary: m' e' bef aft rule: add_scan.induct)
  case (2 s m e x xs)
  show ?case
  proof (cases "startbyte x < s")
    case True
    with "2.prems" "2.IH" show ?thesis
      by (auto simp: Let_def not_less not_le split: if_splits prod.splits)
  next
    case False
    with "2.prems" show ?thesis
      by (auto simp: Let_def range_before_def split: if_splits)
  qed
qed simp

lemma less_if_max: "k < (if a > m then a else m) \<longleftrightarrow> k < m \<or> k < (a :: 'a::linorder)"
  by auto

lemma add_scan_maxend:
  assumes "add_scan s m e xs = (m', e', bef, aft)" "sorted_wrt range_before xs"
  shows "k < m' \<longleftrightarrow> k < m \<or> (\<exists>x\<in>set xs. startbyte x \<le> s \<and> k < endbyte x)"
  using assms
proof (induction s m e xs arbitrary: m' e' bef aft rule: add_scan.induct)
  case (2 s m e x xs)
  let ?m = "if endbyte x > m then endbyte x else m"
  let ?e = "if goesToEndOfFile x then True else e"
  consider "startbyte x > s" | "startbyte x = s" | "startbyte x < s" by force
  then show ?case
  proof cases
    case 1
    with "2.prems" show ?thesis by (force simp: range_before_def)
  next
    case 2
    with "2.prems" have "m' = ?m" by (simp add: Let_def)
    moreover have "\<not> (\<exists>y\<in>set xs. startbyte y \<le> s \<and> k < endbyte y)"
      using 2 "2.prems"(2) by (force simp: range_before_def)
    ultimately show ?thesis using 2 by (auto simp: less_if_max)
  next
    case 3
    obtain m2 e2 b2 a2 where scan: "add_scan s ?m ?e xs = (m2, e2, b2, a2)"
      by (metis prod_cases4)
    moreover have "\<not> s < startbyte x" "\<not> s \<le> startbyte x" using 3 by auto
    ultimately have "m' = m2"
      using "2.prems"(1) by (simp add: Let_def del: if_split)
    moreover have "k < m2 \<longleftrightarrow> k < ?m \<or> (\<exists>y\<in>set xs. startbyte y \<le> s \<and> k < endbyte y)"
      using "2.IH" [OF _ refl refl _ scan] 3 "2.prems"(2) by (simp add: not_less)
    ultimately show ?thesis using 3 by (auto simp: less_if_max)
  qed
qed simp

subsection \<open>Insertion: what the list holds afterwards\<close>

text \<open>The two outcomes of \<open>addToList\<close> on a well-formed list, with what the scan established.\<close>

lemma addToList_cases [consumes 2, case_names unchanged whole inserted]:
  assumes "range_list_ok l" "range_ok r"
  obtains (unchanged) x where "addToList r d l = l" "x \<in> set l" "startbyte x \<le> startbyte r"
      "goesToEndOfFile x \<or> (endbyte r < endbyte x \<and> \<not> goesToEndOfFile r)"
    | (whole) "addToList r d l = [d]" "startbyte r = 0" "goesToEndOfFile r"
    | (inserted) bef aft where "addToList r d l = bef @ d # add_erase r aft" "l = bef @ aft"
      "\<forall>x\<in>set bef. startbyte x < startbyte r" "\<forall>x\<in>set aft. startbyte r \<le> startbyte x"
      "\<forall>x\<in>set l. startbyte x \<le> startbyte r \<longrightarrow>
         \<not> goesToEndOfFile x \<and> (goesToEndOfFile r \<or> endbyte x \<le> endbyte r)"
proof -
  have len: "\<not> range_length r \<le> 0"
    using assms(2) by (auto simp: range_ok_iff range_length_def)
  have sorted: "sorted_wrt range_before l" using assms(1) by (simp add: range_list_ok_def)
  obtain m e bef aft where scan: "add_scan (startbyte r) (startbyte r) False l = (m, e, bef, aft)"
    by (metis prod_cases4)
  note eof = add_scan_eof [OF scan sorted]
  note maxend = add_scan_maxend [OF scan sorted]
  have ok: "\<not> endbyte r < startbyte r" using assms(2) by (simp add: range_ok_def)
  consider "startbyte r = 0 \<and> goesToEndOfFile r"
    | "\<not> (startbyte r = 0 \<and> goesToEndOfFile r)" "e \<or> (endbyte r < m \<and> \<not> goesToEndOfFile r)"
    | "\<not> (startbyte r = 0 \<and> goesToEndOfFile r)" "\<not> (e \<or> (endbyte r < m \<and> \<not> goesToEndOfFile r))"
    by blast
  then show thesis
  proof cases
    case 1
    with len show thesis by (intro whole) (auto simp: addToList_def)
  next
    case 2
    then have "addToList r d l = l"
      using len scan by (auto simp: addToList_def)
    moreover obtain x where "x \<in> set l" "startbyte x \<le> startbyte r"
      "goesToEndOfFile x \<or> (endbyte r < endbyte x \<and> \<not> goesToEndOfFile r)"
      using 2(2) eof maxend [of "endbyte r"] ok by auto
    ultimately show thesis by (rule unchanged)
  next
    case 3
    show thesis
    proof (rule inserted)
      show "addToList r d l = bef @ d # add_erase r aft"
        using 3 len scan by (auto simp: addToList_def)
      show "\<forall>x\<in>set l. startbyte x \<le> startbyte r \<longrightarrow>
         \<not> goesToEndOfFile x \<and> (goesToEndOfFile r \<or> endbyte x \<le> endbyte r)"
        using 3(2) eof maxend [of "endbyte r"] by (auto simp: not_less)
    qed (use add_scan_split [OF scan] add_scan_before [OF scan] add_scan_after [OF scan sorted] in auto)
  qed
qed

lemma range_list_ok_append_Cons:
  "range_list_ok (xs @ y # ys) \<longleftrightarrow> range_list_ok xs \<and> range_ok y \<and> range_list_ok ys
     \<and> (\<forall>x\<in>set xs. range_before x y) \<and> (\<forall>z\<in>set ys. range_before y z)
     \<and> (\<forall>x\<in>set xs. \<forall>z\<in>set ys. range_before x z)"
  by (auto simp: range_list_ok_def sorted_wrt_append)

lemma addToList_ok:
  assumes "range_list_ok l" "range_ok r" "as_range d = as_range r"
  shows "range_list_ok (addToList r d l)"
proof -
  from assms(3) have d: "startbyte d = startbyte r" "endbyte d = endbyte r"
      "goesToEndOfFile d = goesToEndOfFile r" "range_ok d"
    using assms(2) by (auto simp: as_range_def accessor_defs range_ok_def)
  from assms(1,2) show ?thesis
  proof (cases rule: addToList_cases [where d = d])
    case (inserted bef aft)
    let ?E = "add_erase r aft"
    have E: "startbyte r < startbyte x \<and> \<not> goesToEndOfFile r
        \<and> (goesToEndOfFile x \<or> endbyte r \<le> endbyte x)" if "x \<in> set ?E" for x
    proof -
      from that have x: "x \<in> set aft" "\<not> goesToEndOfFile r" "goesToEndOfFile x \<or> endbyte r < endbyte x"
        by (auto simp: add_erase_def)
      with inserted(2,5) have "\<not> startbyte x \<le> startbyte r" by auto
      with x show ?thesis by auto
    qed
    have "range_list_ok bef" "range_list_ok ?E" "\<forall>x\<in>set bef. \<forall>z\<in>set ?E. range_before x z"
      using assms(1) inserted(2)
      by (auto simp: range_list_ok_def sorted_wrt_append add_erase_def list_all_iff sorted_wrt_filterI)
    moreover have "\<forall>x\<in>set bef. range_before x d"
      using inserted(2,3,5) d by (auto simp: range_before_def)
    moreover have "\<forall>z\<in>set ?E. range_before d z"
      using E d by (auto simp: range_before_def)
    ultimately show ?thesis
      using inserted(1) d(4) by (simp add: range_list_ok_append_Cons)
  qed (use assms(1) d in \<open>auto simp: range_list_ok_def\<close>)
qed

lemma addToList_covered:
  assumes "range_list_ok l" "range_ok r" "as_range d = as_range r"
  shows "covered (addToList r d l) b \<longleftrightarrow> covered l b \<or> in_range r b"
proof -
  from assms(3) have d: "in_range d b = in_range r b"
    by (auto simp: as_range_def accessor_defs in_range_def)
  from assms(1,2) show ?thesis
  proof (cases rule: addToList_cases [where d = d])
    case (unchanged x)
    then have "in_range r b \<Longrightarrow> in_range x b"
      by (auto simp: in_range_def)
    with unchanged show ?thesis by (auto simp: covered_def)
  next
    case whole
    with d show ?thesis by (auto simp: in_range_def)
  next
    case (inserted bef aft)
    have "covered aft b \<Longrightarrow> covered (add_erase r aft) b \<or> in_range r b"
      using inserted(4) by (fastforce simp: covered_def add_erase_def in_range_def)
    moreover have "covered (add_erase r aft) b \<Longrightarrow> covered aft b"
      by (auto simp: covered_def add_erase_def)
    ultimately show ?thesis
      using inserted(1,2) d by auto
  qed
qed

section \<open>The ordering is a strict linear order\<close>

text \<open>The order \<open>operator<\<close> decides, with the equality of \<open>operator==\<close> added.\<close>

definition range_leq :: "range \<Rightarrow> range \<Rightarrow> bool" where
  "range_leq a b \<longleftrightarrow> range_less a b \<or> range_eq a b"

lemma range_eq_iff [simp]: "range_eq a b \<longleftrightarrow> a = (b :: range)"
  by (cases a, cases b) (auto simp: range_eq_def)

interpretation range_order: linorder range_leq "range_less :: range \<Rightarrow> range \<Rightarrow> bool"
proof
  fix a b c :: range
  show "range_less a b \<longleftrightarrow> range_leq a b \<and> \<not> range_leq b a"
    by (cases a, cases b) (auto simp: range_leq_def range_less_def)
  show "range_leq a a"
    by (simp add: range_leq_def)
  show "range_leq a b \<Longrightarrow> range_leq b c \<Longrightarrow> range_leq a c"
    by (cases a, cases b, cases c) (auto simp: range_leq_def range_less_def split: if_splits)
  show "range_leq a b \<Longrightarrow> range_leq b a \<Longrightarrow> a = b"
    by (cases a, cases b) (auto simp: range_leq_def range_less_def split: if_splits)
  show "range_leq a b \<or> range_leq b a"
    by (cases a, cases b) (auto simp: range_leq_def range_less_def)
qed

section \<open>Properties\<close>

text \<open>
  C14: containment of a non-empty range in a well-formed list of ranges holds exactly when
  every byte of the range is covered by some range of the list. The two loops of
  \<open>isContainedBy\<close> therefore find a covering chain whenever there is one and never accept a
  range with a hole.
\<close>

theorem isContainedBy_list_iff_covered:
  assumes "range_list_ok l" and "in_range r (startbyte r)"
  shows "isContainedBy_list r l \<longleftrightarrow> (\<forall>b. in_range r b \<longrightarrow> covered l b)"
  using assms contained_search_sound contained_search_complete
  unfolding isContainedBy_list_def by blast

theorem isContainedBy_list_iff_covered_witness:
  "isContainedBy_list (Range_make 2 6 Init_LENGTH False)
     [Range_make 0 5 Init_LENGTH False, Range_make 5 7 Init_LENGTH False] \<longleftrightarrow>
   (\<forall>b. in_range (Range_make 2 6 Init_LENGTH False) b \<longrightarrow>
      covered [Range_make 0 5 Init_LENGTH False, Range_make 5 7 Init_LENGTH False] b)"
  by (rule isContainedBy_list_iff_covered)
     (simp_all add: range_list_ok_def range_ok_def range_before_def in_range_def accessor_defs)

text \<open>
  C13: inserting a range that holds at least one byte and does not wrap keeps a list of ranges
  well-formed (strictly increasing starts, ends that do not decrease, only the last entry
  reaching the end of the file), and the bytes covered afterwards are exactly those covered
  before and those of the new range: no entry that still mattered is erased.
\<close>

theorem addToList_correct:
  assumes "range_list_ok l" and "range_ok r" and "as_range d = as_range r"
  shows "range_list_ok (addToList r d l)
    \<and> (\<forall>b. covered (addToList r d l) b \<longleftrightarrow> covered l b \<or> in_range r b)"
  using addToList_ok [OF assms] addToList_covered [OF assms] by blast

theorem addToList_correct_witness:
  "let l = [Range_make 0 5 Init_LENGTH False, Range_make 7 2 Init_LENGTH False];
       r = Range_make 4 6 Init_LENGTH False
   in range_list_ok (addToList r r l)
      \<and> (\<forall>b. covered (addToList r r l) b \<longleftrightarrow> covered l b \<or> in_range r b)"
  unfolding Let_def
  by (rule addToList_correct)
     (simp_all add: range_list_ok_def range_ok_def range_before_def accessor_defs)

text \<open>
  The \<open>operator<\<close> on ranges is a strict linear order whose equivalence is \<open>operator==\<close>: it is
  irreflexive and transitive, and two ranges that neither order before the other are equal.
\<close>

lemma range_less_strict_linear:
  "\<not> range_less (a :: range) a
   \<and> (range_less a b \<and> range_less b c \<longrightarrow> range_less a c)
   \<and> (\<not> range_less a b \<and> \<not> range_less b a \<longleftrightarrow> range_eq a b)"
  for a b c :: range
  using range_order.less_trans range_order.neqE by auto

end
