(* ===== verification/Transfer_Data.thy ===== *)
theory Transfer_Data
  imports Ranges
begin

text \<open>
  The data blocks of \<^verbatim>\<open>libcore/src/transfer/TransferData.hpp\<close>. \<open>DenseData\<close> derives from
  \<open>Range\<close> and adds the bytes, so it is a record that extends \<open>range\<close>; \<open>SparseData\<close> holds one
  member, the list of blocks. A pointer into a block is the suffix of its bytes from that
  place, \<open>None\<close> for \<open>NULL\<close>. Loops whose exit depends on the data are
  \<open>partial_function (option)\<close>, and the lemmas prove that they return. The hash context of
  \<open>computeFingerprint\<close> is represented by the calls it receives. A write outside a buffer is the
  value \<open>Buffer_overflow\<close>.
\<close>

section \<open>DenseData\<close>

record dense_data = range +
  mData :: "u8 list"

text \<open>\<^verbatim>\<open>std::vector<unsigned char>::resize\<close>: cut, or fill up with zero bytes.\<close>

definition vec_resize :: "u8 list \<Rightarrow> nat \<Rightarrow> u8 list" where
  "vec_resize v n = take n v @ replicate (n - length v) 0"

definition DenseData_range :: "'a range_scheme \<Rightarrow> dense_data" where
  "DenseData_range r =
     \<lparr>mStart = mStart r, mLength = mLength r, mWholeFile = mWholeFile r,
      mData = (if range_length r \<noteq> 0 then vec_resize [] (unat (range_length r)) else [])\<rparr>"

definition dense_setLength :: "dense_data \<Rightarrow> u64 \<Rightarrow> bool \<Rightarrow> dense_data" where
  "dense_setLength d len is_npos =
     (range_setLength d len is_npos)\<lparr>mData := vec_resize (mData d) (unat len)\<rparr>"

text \<open>\<^verbatim>\<open>std::copy\<close> into the writable data of a block that has been given the string's length.\<close>

definition DenseData_string :: "u8 list \<Rightarrow> bool \<Rightarrow> dense_data" where
  "DenseData_string str wholeFile =
     (let d = dense_setLength \<lparr>mStart = 0, mLength = 0, mWholeFile = wholeFile, mData = []\<rparr>
                (of_nat (length str)) wholeFile
      in d\<lparr>mData := str @ drop (length str) (mData d)\<rparr>)"

definition dense_dataAt :: "dense_data \<Rightarrow> u64 \<Rightarrow> u8 list option" where
  "dense_dataAt d offset =
     (if offset \<ge> endbyte d \<or> offset < startbyte d then None
      else Some (drop (unat (offset - startbyte d)) (mData d)))"

definition asString :: "dense_data \<Rightarrow> u8 list" where
  "asString d = take (unat (range_length d)) (mData d)"

section \<open>SparseData\<close>

type_synonym sparse_data = "dense_data list"

definition addValidData :: "dense_data \<Rightarrow> sparse_data \<Rightarrow> sparse_data" where
  "addValidData d s = addToList d d s"

definition SparseData_of :: "dense_data \<Rightarrow> sparse_data" where
  "SparseData_of contents = addValidData contents []"

definition getSpaceUsed :: "sparse_data \<Rightarrow> u64" where
  "getSpaceUsed s = foldl (\<lambda>len d. len + range_length d) 0 s"

definition sparse_startbyte :: "sparse_data \<Rightarrow> u64" where
  "sparse_startbyte s = (case s of [] \<Rightarrow> 0 | d # _ \<Rightarrow> startbyte d)"

definition sparse_endbyte :: "sparse_data \<Rightarrow> u64" where
  "sparse_endbyte s = (if s = [] then 0 else endbyte (last s))"

definition sparse_length :: "sparse_data \<Rightarrow> u64" where
  "sparse_length s = sparse_endbyte s - sparse_startbyte s"

definition contiguous :: "sparse_data \<Rightarrow> bool" where
  "contiguous s =
     (if s = [] then True
      else isContainedBy_list (Range_make (sparse_startbyte s) (sparse_endbyte s) Init_BOUNDS False) s)"

text \<open>The result is the pointer and the value stored in the reference argument \<open>length\<close>.\<close>

fun sparse_dataAt :: "sparse_data \<Rightarrow> u64 \<Rightarrow> u8 list option \<times> u64" where
  "sparse_dataAt [] offset = (None, 0)"
| "sparse_dataAt (d # ds) offset =
     (if offset \<ge> startbyte d \<and> (goesToEndOfFile d \<or> offset < endbyte d)
      then (dense_dataAt d offset, range_length d + (startbyte d - offset))
      else if offset < startbyte d then (None, startbyte d - offset)
      else sparse_dataAt ds offset)"

text \<open>The calls \<open>computeFingerprint\<close> makes on its \<open>SHA256Context\<close>, in order.\<close>

datatype hash_call = Update "u8 list" | UpdateZeros u64

partial_function (option) fingerprint_loop ::
    "sparse_data \<Rightarrow> u64 \<Rightarrow> hash_call list \<Rightarrow> hash_call list option" where
  "fingerprint_loop s start context =
     (case sparse_dataAt s start of
        (None, len) \<Rightarrow>
          if len = 0 then Some context
          else fingerprint_loop s (start + len) (context @ [UpdateZeros len])
      | (Some p, len) \<Rightarrow>
          fingerprint_loop s (start + len) (context @ [Update (take (unat len) p)]))"

definition computeFingerprint_calls :: "sparse_data \<Rightarrow> hash_call list option" where
  "computeFingerprint_calls s = fingerprint_loop s 0 []"

datatype mem_error = Buffer_overflow

definition buf_write :: "u8 list \<Rightarrow> nat \<Rightarrow> u8 list \<Rightarrow> mem_error + u8 list" where
  "buf_write buf pos bs =
     (if pos + length bs \<le> length buf then Inr (take pos buf @ bs @ drop (pos + length bs) buf)
      else Inl Buffer_overflow)"

text \<open>
  The loop of \<open>flatten\<close>: \<open>start\<close> is advanced before the bytes are written, and the write goes to
  \<open>outdata + start\<close>.
\<close>

partial_function (option) flatten_loop ::
    "sparse_data \<Rightarrow> u64 \<Rightarrow> u64 \<Rightarrow> u8 list \<Rightarrow> (mem_error + u8 list) option" where
  "flatten_loop s outlen start buf =
     (if start < outlen
      then (case sparse_dataAt s (start + sparse_startbyte s) of
              (None, len) \<Rightarrow>
                if len = 0 then Some (Inr buf)
                else (case buf_write buf (unat (start + len)) (replicate (unat len) 0) of
                        Inl e \<Rightarrow> Some (Inl e)
                      | Inr buf' \<Rightarrow> flatten_loop s outlen (start + len) buf')
            | (Some p, len) \<Rightarrow>
                (case buf_write buf (unat (start + len)) (take (unat len) p) of
                   Inl e \<Rightarrow> Some (Inl e)
                 | Inr buf' \<Rightarrow> flatten_loop s outlen (start + len) buf'))
      else Some (Inr buf))"

definition flatten :: "sparse_data \<Rightarrow> (mem_error + dense_data) option" where
  "flatten s =
     (if length s = 0 then Some (Inr (DenseData_range (Range_whole False)))
      else if length s = 1 then Some (Inr (hd s))
      else (let dense = DenseData_range
                  (Range_make (sparse_startbyte s) (sparse_endbyte s) Init_BOUNDS False)
            in case flatten_loop s (range_length dense) 0 (mData dense) of
                 None \<Rightarrow> None
               | Some (Inl e) \<Rightarrow> Some (Inl e)
               | Some (Inr buf) \<Rightarrow> Some (Inr (dense\<lparr>mData := buf\<rparr>))))"

section \<open>Well-formedness\<close>

definition dense_ok :: "dense_data \<Rightarrow> bool" where
  "dense_ok d \<longleftrightarrow> length (mData d) = unat (mLength d)"

text \<open>
  A sparse file is well-formed when its blocks are, and when no block ends after a later one;
  the last condition also excludes a block that claims to end the file before an earlier block ends.
\<close>

definition ends_sorted :: "sparse_data \<Rightarrow> bool" where
  "ends_sorted s \<longleftrightarrow> sorted_wrt (\<lambda>a b. endbyte a \<le> endbyte b) s"

definition sparse_ok :: "sparse_data \<Rightarrow> bool" where
  "sparse_ok s \<longleftrightarrow> range_list_ok s \<and> list_all dense_ok s \<and> ends_sorted s"

text \<open>The content of a sparse file: the byte of the first block that holds the position, else zero.\<close>

fun sparse_byte :: "sparse_data \<Rightarrow> nat \<Rightarrow> u8" where
  "sparse_byte [] i = 0"
| "sparse_byte (d # ds) i =
     (if unat (startbyte d) \<le> i \<and> i < unat (endbyte d)
      then mData d ! (i - unat (startbyte d)) else sparse_byte ds i)"

fun call_bytes :: "hash_call \<Rightarrow> u8 list" where
  "call_bytes (Update bs) = bs"
| "call_bytes (UpdateZeros n) = replicate (unat n) 0"

subsection \<open>Blocks\<close>

lemma length_vec_resize [simp]: "length (vec_resize v n) = n"
  by (simp add: vec_resize_def min_def)

lemma DenseData_range_ok: "dense_ok (DenseData_range r)"
  by (simp add: dense_ok_def DenseData_range_def range_length_def)

lemma dense_setLength_ok: "dense_ok (dense_setLength d len npos)"
  by (simp add: dense_ok_def dense_setLength_def range_setLength_def)

lemma DenseData_string_bytes:
  "length str < 2 ^ 64 \<Longrightarrow> dense_ok (DenseData_string str w) \<and> asString (DenseData_string str w) = str"
  by (simp add: dense_ok_def DenseData_string_def dense_setLength_def range_setLength_def Let_def
      asString_def range_length_def vec_resize_def take_bit_nat_eq_self unat_of_nat)

lemma endbyte_unat:
  assumes "range_ok d"
  shows "unat (endbyte d) = unat (startbyte d) + unat (range_length d)"
  using assms unat_add_lem [of "mStart d" "mLength d"]
  by (simp add: range_ok_iff endbyte_def startbyte_def range_length_def)

lemma unat_diff: "(b :: 'a::len word) \<le> a \<Longrightarrow> unat (a - b) = unat a - unat b"
  by (simp add: unat_sub)

subsection \<open>Reading a well-formed sparse file\<close>

lemma sparse_ok_Cons:
  "sparse_ok (d # ds) \<longleftrightarrow> range_ok d \<and> dense_ok d \<and> sparse_ok ds
     \<and> (\<forall>x\<in>set ds. range_before d x \<and> endbyte d \<le> endbyte x)"
  by (auto simp: sparse_ok_def range_list_ok_def ends_sorted_def)

lemma dataAt_hit:
  assumes "range_ok d" "dense_ok d" "startbyte d \<le> p" "p < endbyte d"
  defines "len \<equiv> range_length d + (startbyte d - p)"
  shows "unat p + unat len = unat (endbyte d)" and "0 < len"
    and "\<exists>bs. dense_dataAt d p = Some bs \<and> length bs = unat len
       \<and> (\<forall>i<unat len. bs ! i = mData d ! (unat p + i - unat (startbyte d)))"
proof -
  have "len = endbyte d - p"
    by (simp add: len_def endbyte_def startbyte_def range_length_def)
  with assms(4) have ulen: "unat len = unat (endbyte d) - unat p" and "len \<noteq> 0"
    by (auto simp: unat_diff)
  moreover have "unat p < unat (endbyte d)" using assms(4) by (simp add: word_less_nat_alt)
  ultimately show "unat p + unat len = unat (endbyte d)" and "0 < len"
    by (auto simp: word_gt_0)
  have p: "unat (p - startbyte d) = unat p - unat (startbyte d)" "unat (startbyte d) \<le> unat p"
    using assms(3) by (simp_all add: unat_diff word_le_nat_alt)
  have "length (mData d) = unat (endbyte d) - unat (startbyte d)"
    using assms(1,2) by (simp add: dense_ok_def endbyte_unat range_length_def)
  then show "\<exists>bs. dense_dataAt d p = Some bs \<and> length bs = unat len
       \<and> (\<forall>i<unat len. bs ! i = mData d ! (unat p + i - unat (startbyte d)))"
    using assms(3,4) p ulen by (simp add: dense_dataAt_def not_le not_less)
qed

text \<open>
  One call of \<open>dataAt\<close> inside the file returns a non-empty piece that ends no later than the
  file, and the piece is the content of the file there (zero bytes for a hole); at the end of
  the file it returns \<open>NULL\<close> and length zero.
\<close>

fun piece_bytes :: "u8 list option \<times> u64 \<Rightarrow> u8 list" where
  "piece_bytes (None, len) = replicate (unat len) 0"
| "piece_bytes (Some p, len) = take (unat len) p"

lemma sparse_byte_before: "\<forall>x\<in>set s. i < unat (startbyte x) \<Longrightarrow> sparse_byte s i = 0"
  by (induction s) auto

lemma sparse_dataAt_inside:
  assumes "sparse_ok s" "p < sparse_endbyte s"
  shows "0 < snd (sparse_dataAt s p)
    \<and> unat p + unat (snd (sparse_dataAt s p)) \<le> unat (sparse_endbyte s)
    \<and> piece_bytes (sparse_dataAt s p)
        = map (sparse_byte s) [unat p ..< unat p + unat (snd (sparse_dataAt s p))]"
  using assms
proof (induction s p rule: sparse_dataAt.induct)
  case (1 p)
  then show ?case by (simp add: sparse_endbyte_def)
next
  case (2 d ds p)
  let ?stop = "sparse_endbyte (d # ds)"
  have ok: "range_ok d" "dense_ok d" "sparse_ok ds" and
    later: "\<forall>x\<in>set ds. range_before d x \<and> endbyte d \<le> endbyte x"
    using "2.prems"(1) by (auto simp: sparse_ok_Cons)
  have end_ge: "endbyte d \<le> ?stop"
    using later by (auto simp: sparse_endbyte_def)
  consider (hit) "startbyte d \<le> p" "p < endbyte d" | (gap) "p < startbyte d"
    | (eof) "startbyte d \<le> p" "endbyte d \<le> p" "ds = []"
    | (past) "startbyte d \<le> p" "endbyte d \<le> p" "ds \<noteq> []"
    by force
  then show ?case
  proof cases
    case hit
    let ?len = "range_length d + (startbyte d - p)"
    note facts = dataAt_hit [OF ok(1,2) hit]
    obtain bs where bs: "dense_dataAt d p = Some bs" "length bs = unat ?len"
      "\<forall>i<unat ?len. bs ! i = mData d ! (unat p + i - unat (startbyte d))"
      using facts(3) by blast
    have "bs = map (sparse_byte (d # ds)) [unat p ..< unat p + unat ?len]"
    proof (rule nth_equalityI)
      fix i assume "i < length bs"
      with bs facts(1) hit show "bs ! i = map (sparse_byte (d # ds)) [unat p ..< unat p + unat ?len] ! i"
        by (simp add: word_le_nat_alt)
    qed (simp add: bs)
    with hit bs facts end_ge show ?thesis
      by (simp add: word_le_nat_alt)
  next
    case gap
    then have len: "unat (startbyte d - p) = unat (startbyte d) - unat p" "unat p < unat (startbyte d)"
      using unat_diff [of p "startbyte d"] by (auto simp: word_less_nat_alt word_le_nat_alt)
    have "\<forall>i\<in>{unat p ..< unat (startbyte d)}. sparse_byte (d # ds) i = 0"
      using later by (auto simp: range_before_def word_less_nat_alt intro!: sparse_byte_before)
    then have "map (sparse_byte (d # ds)) [unat p ..< unat (startbyte d)] = replicate (unat (startbyte d) - unat p) 0"
      by (intro nth_equalityI) auto
    moreover have "startbyte d \<le> ?stop" "p \<noteq> startbyte d"
      using ok(1) end_ge gap by (auto simp: range_ok_def)
    ultimately show ?thesis
      using gap len by (simp add: word_le_nat_alt word_gt_0 not_le del: sparse_byte.simps)
  next
    case eof
    with "2.prems"(2) show ?thesis by (auto simp: sparse_endbyte_def)
  next
    case past
    have no_eof: "\<not> goesToEndOfFile d"
      using later past(3) by (cases ds) (auto simp: range_before_def)
    have bytes: "\<forall>i\<ge>unat p. sparse_byte (d # ds) i = sparse_byte ds i"
      using past(2) by (auto simp: word_le_nat_alt)
    have "p < sparse_endbyte ds" using "2.prems"(2) past(3) by (simp add: sparse_endbyte_def)
    from "2.IH" [OF _ _ ok(3) this] past no_eof
    have IH: "0 < snd (sparse_dataAt ds p)
      \<and> unat p + unat (snd (sparse_dataAt ds p)) \<le> unat (sparse_endbyte ds)
      \<and> piece_bytes (sparse_dataAt ds p)
          = map (sparse_byte ds) [unat p ..< unat p + unat (snd (sparse_dataAt ds p))]"
      by auto
    have "sparse_dataAt (d # ds) p = sparse_dataAt ds p"
      using past no_eof by auto
    moreover have "map (sparse_byte (d # ds)) [unat p ..< unat p + k]
        = map (sparse_byte ds) [unat p ..< unat p + k]" for k
      using bytes by (intro map_cong) auto
    ultimately show ?thesis
      using IH past(3) by (simp only:) (simp add: sparse_endbyte_def)
  qed
qed

lemma sparse_dataAt_end:
  "sparse_ok s \<Longrightarrow> sparse_dataAt s (sparse_endbyte s) = (None, 0)"
proof (induction s)
  case (Cons d ds)
  then have ok: "range_ok d" and later: "\<forall>x\<in>set ds. range_before d x \<and> endbyte d \<le> endbyte x"
    by (auto simp: sparse_ok_Cons)
  show ?case
  proof (cases "ds = []")
    case True
    with ok show ?thesis
      by (auto simp: sparse_endbyte_def range_ok_def dense_dataAt_def not_less)
         (simp add: accessor_defs)
  next
    case False
    with later have "\<not> goesToEndOfFile d" "endbyte d \<le> sparse_endbyte ds"
      by (auto simp: range_before_def sparse_endbyte_def)
    moreover have "sparse_endbyte (d # ds) = sparse_endbyte ds" using False by (simp add: sparse_endbyte_def)
    moreover from calculation ok have "\<not> sparse_endbyte ds < startbyte d"
      by (auto simp: range_ok_def)
    ultimately show ?thesis
      using Cons by (auto simp: sparse_ok_Cons)
  qed
qed (simp add: sparse_endbyte_def)

lemma length_piece_bytes:
  assumes "sparse_ok s" "p < sparse_endbyte s"
  shows "length (piece_bytes (sparse_dataAt s p)) = unat (snd (sparse_dataAt s p))"
  using sparse_dataAt_inside [OF assms] by simp

lemma fingerprint_loop_step:
  assumes "sparse_ok s" "p < sparse_endbyte s"
  shows "\<exists>c. fingerprint_loop s p ctx
      = fingerprint_loop s (p + snd (sparse_dataAt s p)) (ctx @ [c])
    \<and> call_bytes c = piece_bytes (sparse_dataAt s p)"
proof -
  obtain o1 len where dat: "sparse_dataAt s p = (o1, len)" by fastforce
  with sparse_dataAt_inside [OF assms] have "len \<noteq> 0" by auto
  with dat show ?thesis
    by (cases o1) (auto simp: fingerprint_loop.simps [of s p ctx])
qed

lemma unat_add_bounded:
  assumes "unat (p :: u64) + unat len \<le> unat (e :: u64)"
  shows "unat (p + len) = unat p + unat len"
proof -
  have "unat e < 2 ^ LENGTH(64)" by (rule unsigned_less)
  with assms have "unat p + unat len < 2 ^ LENGTH(64)" by (rule le_less_trans)
  then show ?thesis by (rule unat_add_lem [THEN iffD1])
qed

lemma fingerprint_loop_bytes:
  assumes "sparse_ok s" "p \<le> sparse_endbyte s"
  shows "\<exists>calls. fingerprint_loop s p ctx = Some (ctx @ calls)
    \<and> concat (map call_bytes calls) = map (sparse_byte s) [unat p ..< unat (sparse_endbyte s)]"
  using assms(2)
proof (induction "unat (sparse_endbyte s) - unat p" arbitrary: p ctx rule: less_induct)
  case less
  show ?case
  proof (cases "p = sparse_endbyte s")
    case True
    with sparse_dataAt_end [OF assms(1)] show ?thesis
      by (intro exI [of _ "[]"]) (simp add: fingerprint_loop.simps [of s "sparse_endbyte s" ctx])
  next
    case False
    with less.prems have p: "p < sparse_endbyte s" by simp
    let ?len = "snd (sparse_dataAt s p)"
    let ?q = "p + ?len"
    note inside = sparse_dataAt_inside [OF assms(1) p]
    from inside have q: "unat ?q = unat p + unat ?len" by (blast intro: unat_add_bounded)
    obtain c where c: "fingerprint_loop s p ctx = fingerprint_loop s ?q (ctx @ [c])"
        "call_bytes c = piece_bytes (sparse_dataAt s p)"
      using fingerprint_loop_step [OF assms(1) p] by blast
    have "0 < unat ?len" using inside by (simp add: word_gt_0 unat_gt_0)
    then have "unat (sparse_endbyte s) - unat ?q < unat (sparse_endbyte s) - unat p"
      using inside q by linarith
    moreover have "?q \<le> sparse_endbyte s" using inside q by (simp add: word_le_nat_alt)
    ultimately obtain calls where calls: "fingerprint_loop s ?q (ctx @ [c]) = Some ((ctx @ [c]) @ calls)"
        "concat (map call_bytes calls) = map (sparse_byte s) [unat ?q ..< unat (sparse_endbyte s)]"
      using less.hyps by blast
    have "[unat p ..< unat (sparse_endbyte s)] = [unat p ..< unat ?q] @ [unat ?q ..< unat (sparse_endbyte s)]"
      using inside q upt_add_eq_append [of "unat p" "unat ?q" "unat (sparse_endbyte s) - unat ?q"] by simp
    with c calls inside q show ?thesis
      by (intro exI [of _ "c # calls"]) simp
  qed
qed

subsection \<open>Flattening\<close>

lemma flatten_loop_step:
  assumes "sparse_ok s" "start < outlen" "start + sparse_startbyte s < sparse_endbyte s"
  defines "piece \<equiv> sparse_dataAt s (start + sparse_startbyte s)"
  shows "flatten_loop s outlen start buf =
     (case buf_write buf (unat (start + snd piece)) (piece_bytes piece) of
        Inl e \<Rightarrow> Some (Inl e) | Inr buf' \<Rightarrow> flatten_loop s outlen (start + snd piece) buf')"
proof -
  obtain o1 len where dat: "piece = (o1, len)" by fastforce
  with sparse_dataAt_inside [OF assms(1,3)] have "len \<noteq> 0" by (auto simp: piece_def)
  with dat dat [unfolded piece_def] assms(2) show ?thesis
    by (cases o1) (auto simp: flatten_loop.simps [of s outlen start buf] split: sum.splits)
qed

lemma buf_write_length: "buf_write buf pos bs = Inr buf' \<Longrightarrow> length buf' = length buf"
  by (auto simp: buf_write_def split: if_splits)

lemma flatten_loop_overflows:
  assumes "sparse_ok s" "sparse_startbyte s \<le> sparse_endbyte s"
    and "start < sparse_length s" "length buf = unat (sparse_length s)"
  shows "flatten_loop s (sparse_length s) start buf = Some (Inl Buffer_overflow)"
  using assms(3,4)
proof (induction "unat (sparse_length s) - unat start" arbitrary: start buf rule: less_induct)
  case less
  have total: "unat (sparse_length s) = unat (sparse_endbyte s) - unat (sparse_startbyte s)"
    "unat (sparse_startbyte s) \<le> unat (sparse_endbyte s)"
    using assms(2) by (simp_all add: sparse_length_def unat_diff word_le_nat_alt)
  have start: "unat start < unat (sparse_length s)" using less.prems by (simp add: word_less_nat_alt)
  let ?p = "start + sparse_startbyte s"
  have p: "unat ?p = unat start + unat (sparse_startbyte s)"
    using start total by (intro unat_add_bounded [where e = "sparse_endbyte s"]) linarith
  then have p_less: "?p < sparse_endbyte s" using start total by (simp add: word_less_nat_alt)
  let ?len = "snd (sparse_dataAt s ?p)"
  note inside = sparse_dataAt_inside [OF assms(1) p_less]
  have fits: "unat start + unat ?len \<le> unat (sparse_length s)"
    using inside p total by linarith
  then have nxt: "unat (start + ?len) = unat start + unat ?len" by (rule unat_add_bounded)
  have pos: "0 < unat ?len" using inside by (simp add: word_gt_0 unat_gt_0)
  show ?case
  proof (cases "unat start + unat ?len + unat ?len \<le> unat (sparse_length s)")
    case True
    obtain buf' where buf': "buf_write buf (unat (start + ?len)) (piece_bytes (sparse_dataAt s ?p)) = Inr buf'"
      using True nxt less.prems(2) length_piece_bytes [OF assms(1) p_less] by (simp add: buf_write_def)
    have "flatten_loop s (sparse_length s) (start + ?len) buf' = Some (Inl Buffer_overflow)"
    proof (rule less.hyps)
      show "unat (sparse_length s) - unat (start + ?len) < unat (sparse_length s) - unat start"
        using start nxt pos by linarith
      show "start + ?len < sparse_length s"
        using True nxt pos by (simp add: word_less_nat_alt)
      show "length buf' = unat (sparse_length s)"
        using buf_write_length [OF buf'] less.prems(2) by simp
    qed
    with buf' show ?thesis
      using flatten_loop_step [OF assms(1) less.prems(1) p_less] by simp
  next
    case False
    then have "buf_write buf (unat (start + ?len)) (piece_bytes (sparse_dataAt s ?p)) = Inl Buffer_overflow"
      using nxt less.prems(2) length_piece_bytes [OF assms(1) p_less] by (simp add: buf_write_def)
    then show ?thesis
      using flatten_loop_step [OF assms(1) less.prems(1) p_less] by simp
  qed
qed

section \<open>Properties\<close>

text \<open>
  on a well-formed sparse file \<open>computeFingerprint\<close> returns, and the bytes it feeds to the
  hash context are exactly the content of the file from byte 0 to its last byte, holes as zero
  bytes, each byte once and in order.
\<close>

lemma computeFingerprint_feeds_content:
  assumes "sparse_ok s"
  shows "\<exists>calls. computeFingerprint_calls s = Some calls
    \<and> concat (map call_bytes calls) = map (sparse_byte s) [0 ..< unat (sparse_endbyte s)]"
  using fingerprint_loop_bytes [OF assms, of 0 "[]"]
  by (simp add: computeFingerprint_calls_def)

text \<open>
  \<open>flatten\<close> advances its position before it writes, so on every well-formed sparse file of
  two blocks or more some write falls outside the buffer it allocated. (A file of no block or of
  one block is returned without a copy.)
\<close>

lemma flatten_overflows:
  assumes "sparse_ok s" and "2 \<le> length s"
  shows "flatten s = Some (Inl Buffer_overflow)"
proof -
  obtain d e ds where s: "s = d # e # ds"
    using assms(2) by (auto simp: numeral_2_eq_2 Suc_le_length_iff)
  have "startbyte d < endbyte d" "endbyte d \<le> sparse_endbyte s"
    using assms(1) s by (auto simp: sparse_ok_Cons range_ok_def sparse_endbyte_def)
  then have "sparse_startbyte s < sparse_endbyte s"
    using s by (simp add: sparse_startbyte_def)
  then have "0 < sparse_length s" "sparse_startbyte s \<le> sparse_endbyte s"
    by (auto simp: sparse_length_def word_gt_0)
  then have "flatten_loop s (sparse_length s) 0 (vec_resize [] (unat (sparse_length s)))
      = Some (Inl Buffer_overflow)"
    using assms(1) by (intro flatten_loop_overflows) auto
  with s \<open>0 < sparse_length s\<close> show ?thesis
    by (simp add: flatten_def Let_def DenseData_range_def Range_make_def range_length_def
        sparse_length_def word_gt_0)
qed

end
