(* ===== verification/Digests.thy ===== *)
theory Digests
  imports Sha256_Correct Transfer_Data
begin

unbundle bit_operations_syntax

text \<open>
  The digest class and the incremental hash of \<open>util/Sha256.hpp\<close> and \<open>util/Sha256.cpp\<close>, the
  comparisons of \<open>util/Array.hpp\<close> it uses, and \<open>computeFingerprint\<close> of \<open>transfer/TransferData.hpp\<close> run on
  it. A digest is the list of its 32 bytes; memory that was not initialised is an argument.

  The locale \<open>hash_context\<close> is the contract \<open>computeFingerprint\<close> relies on: a context hashes what it was
  fed. It is interpreted on the model of \<open>SHA256Context\<close>.
\<close>

section \<open>Digests\<close>

type_synonym digest = "u8 list"

datatype sha_error = Invalid_argument | Logic_error

definition static_size :: nat where "static_size = 32"

definition hex_size :: nat where "hex_size = 64"

definition numToHex :: "nat \<Rightarrow> char" where
  "numToHex num =
     (if num < 10 then char_of (num + of_char (CHR ''0''))
      else if num < 16 then char_of (num - 10 + of_char (CHR ''a''))
      else CHR ''x'')"

definition numFromHex :: "char \<Rightarrow> sha_error + nat" where
  "numFromHex c = (let v = of_char c :: nat in
     if of_char (CHR ''0'') \<le> v \<and> v \<le> of_char (CHR ''9'') then Inr (v - of_char (CHR ''0''))
     else if of_char (CHR ''a'') \<le> v \<and> v \<le> of_char (CHR ''f'') then Inr (10 + (v - of_char (CHR ''a'')))
     else if of_char (CHR ''A'') \<le> v \<and> v \<le> of_char (CHR ''F'') then Inr (10 + (v - of_char (CHR ''A'')))
     else Inl Invalid_argument)"

text \<open>The loop writes characters \<open>2 i\<close> and \<open>2 i + 1\<close> of a string of size \<open>hex_size\<close>.\<close>

fun hex_loop :: "nat \<Rightarrow> nat \<Rightarrow> digest \<Rightarrow> string \<Rightarrow> string" where
  "hex_loop 0 i bytes retval = retval"
| "hex_loop (Suc n) i bytes retval =
     hex_loop n (i + 1) bytes
       (retval[i * 2 := numToHex (unat (bytes ! i) div 16), i * 2 + 1 := numToHex (unat (bytes ! i) mod 16)])"

definition convertToHexString :: "digest \<Rightarrow> string" where
  "convertToHexString bytes = hex_loop static_size 0 bytes (replicate hex_size (CHR 0x00))"

definition convertToHex :: "string \<Rightarrow> digest \<Rightarrow> string" where
  "convertToHex junk bytes = hex_loop static_size 0 bytes (take hex_size junk)"

text \<open>
  A pointer to characters is the string up to its terminator; the terminator is not a digit, so the
  loop does not pass it.
\<close>

definition char_at :: "string \<Rightarrow> nat \<Rightarrow> char" where
  "char_at data i = (if i < length data then data ! i else CHR 0x00)"

fun from_hex_loop :: "nat \<Rightarrow> nat \<Rightarrow> string \<Rightarrow> digest \<Rightarrow> sha_error + digest" where
  "from_hex_loop 0 i data retval = Inr retval"
| "from_hex_loop (Suc n) i data retval =
     sum_bind (numFromHex (char_at data (i * 2))) (\<lambda>high.
     sum_bind (numFromHex (char_at data (i * 2 + 1))) (\<lambda>low.
     from_hex_loop n (i + 1) data (retval[i := of_nat (high * 16 + low)])))"

definition convertFromHex_chars :: "digest \<Rightarrow> string \<Rightarrow> sha_error + digest" where
  "convertFromHex_chars junk data = from_hex_loop static_size 0 data (take static_size junk)"

definition convertFromHex :: "digest \<Rightarrow> string \<Rightarrow> sha_error + digest" where
  "convertFromHex junk data =
     (if length data \<noteq> 64 then Inl Invalid_argument else convertFromHex_chars junk data)"

definition convertFromBinary :: "u8 list \<Rightarrow> digest" where
  "convertFromBinary digest = take static_size digest"

definition nil_digest :: digest where
  "nil_digest = replicate static_size 0"

definition computeDigest :: "byte_order \<Rightarrow> SHA256_CTX \<Rightarrow> u8 list \<Rightarrow> digest" where
  "computeDigest bo junk data = fst (SHA256_Final bo (SHA256_Update bo (SHA256_Init junk) data))"

definition emptyDigest :: "byte_order \<Rightarrow> SHA256_CTX \<Rightarrow> digest" where
  "emptyDigest bo junk = computeDigest bo junk []"

text \<open>
  The comparisons of \<open>Array\<close>: \<open>memcmp\<close> for integral elements, a loop for the others.
\<close>

fun memcmp :: "u8 list \<Rightarrow> u8 list \<Rightarrow> int" where
  "memcmp (x # xs) (y # ys) = (if x < y then - 1 else if y < x then 1 else memcmp xs ys)"
| "memcmp _ _ = 0"

fun array_less_loop :: "u8 list \<Rightarrow> u8 list \<Rightarrow> bool" where
  "array_less_loop (x # xs) (y # ys) = (if x < y then True else if x \<noteq> y then False else array_less_loop xs ys)"
| "array_less_loop _ _ = False"

definition array_less :: "bool \<Rightarrow> u8 list \<Rightarrow> u8 list \<Rightarrow> bool" where
  "array_less integral_type xs ys = (if integral_type then memcmp xs ys < 0 else array_less_loop xs ys)"

definition array_eq :: "bool \<Rightarrow> u8 list \<Rightarrow> u8 list \<Rightarrow> bool" where
  "array_eq integral_type xs ys =
     (if integral_type then memcmp xs ys = 0 else list_all (\<lambda>(x, y). x = y) (zip xs ys))"

section \<open>The incremental hash\<close>

record SHA256Context =
  mCtx :: "SHA256_CTX option"
  mRetval :: digest

definition SHA256Context_init :: "SHA256_CTX \<Rightarrow> digest \<Rightarrow> SHA256Context" where
  "SHA256Context_init junk retval = \<lparr>mCtx = Some (SHA256_Init junk), mRetval = retval\<rparr>"

definition context_update :: "byte_order \<Rightarrow> u8 list \<Rightarrow> SHA256Context \<Rightarrow> sha_error + SHA256Context" where
  "context_update bo data this =
     (case mCtx this of
        Some context \<Rightarrow> Inr (this\<lparr>mCtx := Some (SHA256_Update bo context data)\<rparr>)
      | None \<Rightarrow> Inl Logic_error)"

function updateZeros :: "byte_order \<Rightarrow> nat \<Rightarrow> SHA256Context \<Rightarrow> sha_error + SHA256Context" where
  "updateZeros bo len this =
     (if len \<ge> 512
      then sum_bind (context_update bo (replicate 512 0) this) (\<lambda>this. updateZeros bo (len - 512) this)
      else if len \<noteq> 0 then context_update bo (replicate len 0) this
      else Inr this)"
  by auto
termination by (relation "measure (\<lambda>(_, len, _). len)") auto

declare updateZeros.simps [simp del]

definition get :: "byte_order \<Rightarrow> SHA256Context \<Rightarrow> digest \<times> SHA256Context" where
  "get bo this =
     (let this = (case mCtx this of
            Some context \<Rightarrow> this\<lparr>mRetval := fst (SHA256_Final bo context), mCtx := None\<rparr>
          | None \<Rightarrow> this)
      in (mRetval this, this))"

text \<open>\<open>computeFingerprint\<close>: the calls of the loop on a new context, and the digest of that context.\<close>

definition run_hash_call :: "byte_order \<Rightarrow> hash_call \<Rightarrow> SHA256Context \<Rightarrow> sha_error + SHA256Context" where
  "run_hash_call bo call this =
     (case call of Update data \<Rightarrow> context_update bo data this | UpdateZeros n \<Rightarrow> updateZeros bo (unat n) this)"

fun run_hash_calls :: "byte_order \<Rightarrow> hash_call list \<Rightarrow> SHA256Context \<Rightarrow> sha_error + SHA256Context" where
  "run_hash_calls bo [] this = Inr this"
| "run_hash_calls bo (call # calls) this = sum_bind (run_hash_call bo call this) (run_hash_calls bo calls)"

definition computeFingerprint :: "byte_order \<Rightarrow> SHA256_CTX \<Rightarrow> digest \<Rightarrow> sparse_data \<Rightarrow> (sha_error + digest) option" where
  "computeFingerprint bo junk retval s =
     (case computeFingerprint_calls s of
        None \<Rightarrow> None
      | Some calls \<Rightarrow>
          Some (sum_bind (run_hash_calls bo calls (SHA256Context_init junk retval)) (\<lambda>context. Inr (fst (get bo context)))))"

section \<open>Hexadecimal digits\<close>

lemma numFromHex_numToHex: "n < 16 \<Longrightarrow> numFromHex (numToHex n) = Inr n"
  by (auto simp: numFromHex_def numToHex_def Let_def)

text \<open>The characters a byte prints as.\<close>

definition hex_pair :: "u8 \<Rightarrow> string" where
  "hex_pair b = [numToHex (unat b div 16), numToHex (unat b mod 16)]"

lemma length_hex_pairs [simp]: "length (concat (map hex_pair d)) = 2 * length d"
  by (induction d) (simp_all add: hex_pair_def)

lemma nth_hex_pairs:
  "i < length d \<Longrightarrow> concat (map hex_pair d) ! (2 * i) = numToHex (unat (d ! i) div 16)
    \<and> concat (map hex_pair d) ! (2 * i + 1) = numToHex (unat (d ! i) mod 16)"
proof (induction d arbitrary: i)
  case (Cons b d)
  then show ?case by (cases i) (simp_all add: hex_pair_def)
qed simp

lemma hex_loop_pairs:
  assumes "length retval = 2 * (length prev + n)" "take (2 * length prev) retval = concat (map hex_pair prev)"
    "length rest = n"
  shows "hex_loop n (length prev) (prev @ rest) retval = concat (map hex_pair (prev @ rest))"
  using assms
proof (induction n arbitrary: retval prev rest)
  case 0
  then show ?case by simp
next
  case (Suc n)
  then obtain b bs where rest: "rest = b # bs" by (cases rest) auto
  let ?k = "2 * length prev"
  let ?r = "retval[?k := numToHex (unat b div 16), ?k + 1 := numToHex (unat b mod 16)]"
  have "?k < length retval" "Suc ?k < length retval" using Suc.prems(1) by simp_all
  then have "take (?k + 2) ?r = take ?k retval @ hex_pair b"
    by (intro nth_equalityI) (auto simp: nth_append hex_pair_def nth_list_update nth_Cons' less_Suc_eq)
  then have "take (2 * length (prev @ [b])) ?r = concat (map hex_pair (prev @ [b]))"
    using Suc.prems(2) by simp
  moreover have "length ?r = 2 * (length (prev @ [b]) + n)" using Suc.prems(1) by simp
  ultimately show ?case
    using Suc.IH [of ?r "prev @ [b]" bs] Suc.prems(3) by (simp add: rest mult.commute)
qed

lemma convertToHexString_pairs: "length d = 32 \<Longrightarrow> convertToHexString d = concat (map hex_pair d)"
  using hex_loop_pairs [of "replicate 64 (CHR 0x00)" "[]" 32 d]
  by (simp add: convertToHexString_def static_size_def hex_size_def)

lemma hex_value: "of_nat (unat b div 16 * 16 + unat b mod 16) = (b :: u8)"
  by simp

lemma from_hex_loop_pairs:
  assumes "length retval = length prev + n" "take (length prev) retval = prev" "length rest = n"
  shows "from_hex_loop n (length prev) (concat (map hex_pair (prev @ rest))) retval = Inr (prev @ rest)"
  using assms
proof (induction n arbitrary: retval prev rest)
  case (Suc n)
  then obtain b bs where rest: "rest = b # bs" by (cases rest) auto
  let ?r = "retval[length prev := b]"
  have "take (length (prev @ [b])) ?r = prev @ [b]"
    using Suc.prems(1,2) by (simp add: take_Suc_conv_app_nth)
  then have "from_hex_loop n (length (prev @ [b])) (concat (map hex_pair ((prev @ [b]) @ bs))) ?r = Inr ((prev @ [b]) @ bs)"
    using Suc.prems(1,3) rest by (intro Suc.IH) simp_all
  moreover have "unat b div 16 < 16" using unsigned_less [of b, where 'a = nat] by simp
  then have "numFromHex (char_at (concat (map hex_pair (prev @ rest))) (length prev * 2)) = Inr (unat b div 16)"
      "numFromHex (char_at (concat (map hex_pair (prev @ rest))) (length prev * 2 + 1)) = Inr (unat b mod 16)"
    using nth_hex_pairs [of "length prev" "prev @ rest"] length_hex_pairs [of "prev @ rest"] rest
    by (simp_all add: char_at_def numFromHex_numToHex mult.commute del: map_append concat_append length_hex_pairs)
  ultimately show ?case
    using hex_value [of b] by (simp only: from_hex_loop.simps bind_simps) (simp add: rest)
qed simp

section \<open>Comparison of arrays\<close>

lemma memcmp_less: "length xs = length ys \<Longrightarrow> memcmp xs ys < 0 \<longleftrightarrow> array_less_loop xs ys"
  by (induction xs ys rule: memcmp.induct) auto

lemma memcmp_eq: "length xs = length ys \<Longrightarrow> memcmp xs ys = 0 \<longleftrightarrow> xs = ys"
  by (induction xs ys rule: memcmp.induct) auto

lemma zip_all_eq: "length xs = length ys \<Longrightarrow> list_all (\<lambda>(x, y). x = y) (zip xs ys) \<longleftrightarrow> xs = ys"
  by (induction xs ys rule: list_induct2) auto

lemma array_less_loop_lexord:
  "length xs = length ys \<Longrightarrow> array_less_loop xs ys \<longleftrightarrow> (xs, ys) \<in> lexord {(x, y). x < y}"
  by (induction xs ys rule: list_induct2) auto

section \<open>Hash contexts\<close>

text \<open>
  What a client of an incremental hash relies on. \<open>fed c m\<close>: the context \<open>c\<close> is open and has received
  the bytes \<open>m\<close>.
\<close>

locale hash_context =
  fixes upd :: "u8 list \<Rightarrow> 'c \<Rightarrow> 'e + 'c" and zeros :: "nat \<Rightarrow> 'c \<Rightarrow> 'e + 'c" and finish :: "'c \<Rightarrow> digest \<times> 'c"
    and fresh :: 'c and fed :: "'c \<Rightarrow> u8 list \<Rightarrow> bool" and hash :: "u8 list \<Rightarrow> digest"
  assumes fed_fresh: "fed fresh []"
    and upd_fed: "fed c m \<Longrightarrow> \<exists>c'. upd d c = Inr c' \<and> fed c' (m @ d)"
    and zeros_fed: "fed c m \<Longrightarrow> \<exists>c'. zeros n c = Inr c' \<and> fed c' (m @ replicate n 0)"
    and finish_fed: "fed c m \<Longrightarrow> fst (finish c) = hash m"
begin

fun run_call :: "hash_call \<Rightarrow> 'c \<Rightarrow> 'e + 'c" where
  "run_call (Update d) c = upd d c"
| "run_call (UpdateZeros n) c = zeros (unat n) c"

fun run_calls :: "hash_call list \<Rightarrow> 'c \<Rightarrow> 'e + 'c" where
  "run_calls [] c = Inr c"
| "run_calls (x # xs) c = sum_bind (run_call x c) (run_calls xs)"

lemma run_call_fed: "fed c m \<Longrightarrow> \<exists>c'. run_call x c = Inr c' \<and> fed c' (m @ call_bytes x)"
  using upd_fed zeros_fed by (cases x) auto

lemma run_calls_fed: "fed c m \<Longrightarrow> \<exists>c'. run_calls xs c = Inr c' \<and> fed c' (m @ concat (map call_bytes xs))"
proof (induction xs arbitrary: c m)
  case (Cons x xs)
  then obtain c\<^sub>1 where "run_call x c = Inr c\<^sub>1" "fed c\<^sub>1 (m @ call_bytes x)" using run_call_fed by blast
  with Cons.IH [OF this(2)] show ?case by simp
qed simp

lemma calls_hash: "\<exists>c. run_calls xs fresh = Inr c \<and> fst (finish c) = hash (concat (map call_bytes xs))"
  using run_calls_fed [OF fed_fresh] finish_fed by fastforce

end

text \<open>The contract on \<open>SHA256Context\<close>.\<close>

definition context_fed :: "SHA256Context \<Rightarrow> u8 list \<Rightarrow> bool" where
  "context_fed c m \<longleftrightarrow> (case mCtx c of None \<Rightarrow> False | Some context \<Rightarrow> sha256_holds context m)"

lemma context_update_fed:
  "context_fed c m \<Longrightarrow> \<exists>c'. context_update bo d c = Inr c' \<and> context_fed c' (m @ d)"
  by (auto simp: context_fed_def context_update_def SHA256_Update_holds split: option.splits)

lemma updateZeros_fed:
  "context_fed c m \<Longrightarrow> \<exists>c'. updateZeros bo n c = Inr c' \<and> context_fed c' (m @ replicate n 0)"
proof (induction n arbitrary: c m rule: less_induct)
  case (less n)
  show ?case
  proof (cases "512 \<le> n")
    case True
    obtain c\<^sub>1 where c1: "context_update bo (replicate 512 0) c = Inr c\<^sub>1" "context_fed c\<^sub>1 (m @ replicate 512 0)"
      using context_update_fed [OF less.prems] by blast
    have "replicate n 0 = replicate 512 (0 :: u8) @ replicate (n - 512) 0"
      using True by (simp add: replicate_add [symmetric])
    with less.IH [OF _ c1(2)] c1(1) True show ?thesis by (subst updateZeros.simps) simp
  next
    case False
    then show ?thesis
      using context_update_fed [OF less.prems, of bo "replicate n 0"] less.prems by (subst updateZeros.simps) simp
  qed
qed

interpretation sha256_context: hash_context "context_update bo" "updateZeros bo" "get bo"
  "SHA256Context_init junk retval" context_fed fips_sha256 for bo junk retval
proof (unfold_locales, goal_cases)
  case 1
  then show ?case by (simp add: context_fed_def SHA256Context_init_def SHA256_Init_holds)
next
  case (4 c m)
  then show ?case by (auto simp: context_fed_def get_def Let_def SHA256_Final_digest split: option.splits)
qed (simp_all add: context_update_fed updateZeros_fed)

lemma run_hash_calls_eq: "run_hash_calls bo calls c = sha256_context.run_calls bo calls c"
proof (induction calls arbitrary: c)
  case (Cons x xs)
  then have "run_hash_calls bo xs = sha256_context.run_calls bo xs" by (simp add: fun_eq_iff)
  then show ?case by (cases x) (simp_all add: run_hash_call_def)
qed simp

section \<open>Which strings are digests\<close>

definition hex_char :: "char \<Rightarrow> bool" where
  "hex_char c \<longleftrightarrow> c \<in> set ''0123456789abcdefABCDEF''"

lemma hex_char_code:
  "hex_char c \<longleftrightarrow> (let v = of_char c :: nat in 48 \<le> v \<and> v \<le> 57 \<or> 97 \<le> v \<and> v \<le> 102 \<or> 65 \<le> v \<and> v \<le> 70)"
proof -
  have "hex_char c \<longleftrightarrow> of_char c \<in> (of_char ` set ''0123456789abcdefABCDEF'' :: nat set)"
    unfolding hex_char_def by (simp only: inj_image_mem_iff [OF inj_of_char])
  also have "\<dots> \<longleftrightarrow> (let v = of_char c :: nat in 48 \<le> v \<and> v \<le> 57 \<or> 97 \<le> v \<and> v \<le> 102 \<or> 65 \<le> v \<and> v \<le> 70)"
    by (simp add: Let_def) arith
  finally show ?thesis .
qed

lemma numFromHex_cases:
  "if hex_char c then \<exists>v. numFromHex c = Inr v else numFromHex c = Inl Invalid_argument"
  by (auto simp: hex_char_code numFromHex_def Let_def)

lemma from_hex_loop_cases:
  "if \<forall>k. 2 * i \<le> k \<longrightarrow> k < 2 * (i + n) \<longrightarrow> hex_char (char_at data k)
   then \<exists>d. from_hex_loop n i data r = Inr d \<and> length d = length r
   else from_hex_loop n i data r = Inl Invalid_argument"
proof (induction n arbitrary: i r)
  case (Suc n)
  have split: "(\<forall>k. 2 * i \<le> k \<longrightarrow> k < 2 * (i + Suc n) \<longrightarrow> hex_char (char_at data k))
      \<longleftrightarrow> hex_char (char_at data (i * 2)) \<and> hex_char (char_at data (i * 2 + 1))
        \<and> (\<forall>k. 2 * (i + 1) \<le> k \<longrightarrow> k < 2 * (i + 1 + n) \<longrightarrow> hex_char (char_at data k))"
  proof (intro iffI conjI allI impI, goal_cases)
    case (4 k)
    have "k = i * 2 \<or> k = i * 2 + 1 \<or> 2 * (i + 1) \<le> k" using 4(2) by arith
    then consider "k = i * 2" | "k = i * 2 + 1" | "2 * (i + 1) \<le> k" by blast
    then show ?case using 4 by cases auto
  qed auto
  note first = numFromHex_cases [of "char_at data (i * 2)"] and second = numFromHex_cases [of "char_at data (i * 2 + 1)"]
  show ?case
  proof (cases "hex_char (char_at data (i * 2)) \<and> hex_char (char_at data (i * 2 + 1))")
    case True
    then obtain v w where "numFromHex (char_at data (i * 2)) = Inr v" "numFromHex (char_at data (i * 2 + 1)) = Inr w"
      using first second by auto
    then have "from_hex_loop (Suc n) i data r = from_hex_loop n (i + 1) data (r[i := of_nat (v * 16 + w)])"
      by (simp only: from_hex_loop.simps bind_simps)
    then show ?thesis
      using Suc.IH [of "i + 1" "r[i := of_nat (v * 16 + w)]"] True unfolding split by (simp only: length_list_update simp_thms)
  next
    case False
    then show ?thesis using first second unfolding split by (auto split: if_splits)
  qed
qed simp

lemma hex_reads_back:
  assumes "length d = 32" "32 \<le> length junk"
  shows "convertFromHex junk (convertToHexString d) = Inr d"
    and "k < 64 \<Longrightarrow> hex_char (convertToHexString d ! k)"
    and "length (convertToHexString d) = 64"
proof -
  show same: "convertFromHex junk (convertToHexString d) = Inr d"
    using assms from_hex_loop_pairs [of "take 32 junk" "[]" 32 d]
    by (simp add: convertToHexString_pairs convertFromHex_def convertFromHex_chars_def static_size_def)
  show "hex_char (convertToHexString d ! k)" if "k < 64"
    using same from_hex_loop_cases [of 0 32 "convertToHexString d" "take 32 junk"] that
    by (auto simp: convertFromHex_def convertFromHex_chars_def static_size_def char_at_def split: if_splits)
  show "length (convertToHexString d) = 64" using assms(1) by (simp add: convertToHexString_pairs)
qed

section \<open>Properties\<close>

text \<open>
  C33: \<open>computeDigest\<close> is SHA-256: for every sequence of bytes, on hosts of either byte order and whatever
  the memory of the context held before, it returns the hash of the Secure Hash Standard.
\<close>

theorem computeDigest_is_fips_sha256: "computeDigest bo junk data = fips_sha256 data"
  using SHA256_Final_digest [OF SHA256_Update_holds [OF SHA256_Init_holds]] by (simp add: computeDigest_def)

text \<open>
  C34: a \<open>SHA256Context\<close> is incremental. However the bytes are divided into calls of \<open>update\<close> and
  \<open>updateZeros\<close>, no call throws and \<open>get\<close> returns the SHA-256 hash of all of them; a second \<open>get\<close> returns
  the same digest, and every later \<open>update\<close> throws the logic error.
\<close>

theorem SHA256Context_incremental:
  "\<exists>c d c'. run_hash_calls bo calls (SHA256Context_init junk retval) = Inr c \<and> get bo c = (d, c')
     \<and> d = fips_sha256 (concat (map call_bytes calls)) \<and> get bo c' = (d, c')
     \<and> (\<forall>data. context_update bo data c' = Inl Logic_error)"
proof -
  obtain c where c: "run_hash_calls bo calls (SHA256Context_init junk retval) = Inr c"
    "fst (get bo c) = fips_sha256 (concat (map call_bytes calls))"
    using sha256_context.calls_hash [of bo calls junk retval] by (auto simp: run_hash_calls_eq)
  obtain d c' where "get bo c = (d, c')" by force
  moreover from this have "mCtx c' = None" "mRetval c' = d"
    by (auto simp: get_def Let_def split: option.splits)
  ultimately show ?thesis using c by (auto simp: get_def context_update_def)
qed

text \<open>
  a digest prints as 64 hexadecimal digits, which \<open>convertFromHex\<close> reads back as the same digest.
\<close>

lemma hex_roundtrip:
  assumes "length d = 32" "32 \<le> length junk"
  shows "convertFromHex junk (convertToHexString d) = Inr d \<and> list_all hex_char (convertToHexString d)"
  using hex_reads_back [OF assms] by (simp add: list_all_length)

text \<open>
  \<open>convertFromHex\<close> accepts exactly the strings of 64 hexadecimal digits, of either case; on every
  other string it throws \<open>std::invalid_argument\<close>.
\<close>

lemma convertFromHex_accepts:
  "convertFromHex junk s = Inl Invalid_argument \<longleftrightarrow> \<not> (length s = 64 \<and> list_all hex_char s)"
  using from_hex_loop_cases [of 0 32 s "take 32 junk"]
  by (auto simp: convertFromHex_def convertFromHex_chars_def static_size_def list_all_length char_at_def
      split: if_splits)

text \<open>
  C36: the fingerprint of a well-formed sparse file is the SHA-256 hash of its content, with holes read as
  zero bytes: \<open>computeFingerprint\<close> returns, throws nothing and does not depend on how the content is cut
  into blocks.
\<close>

theorem fingerprint_is_content_hash:
  assumes "sparse_ok s"
  shows "computeFingerprint bo junk retval s
    = Some (Inr (fips_sha256 (map (sparse_byte s) [0 ..< unat (sparse_endbyte s)])))"
proof -
  obtain calls where calls: "computeFingerprint_calls s = Some calls"
    "concat (map call_bytes calls) = map (sparse_byte s) [0 ..< unat (sparse_endbyte s)]"
    using fingerprint_loop_bytes [OF assms, of 0 "[]"] by (auto simp: computeFingerprint_calls_def)
  obtain c where "run_hash_calls bo calls (SHA256Context_init junk retval) = Inr c"
    "fst (get bo c) = fips_sha256 (concat (map call_bytes calls))"
    using sha256_context.calls_hash [of bo calls junk retval] by (auto simp: run_hash_calls_eq)
  then show ?thesis using calls by (simp add: computeFingerprint_def)
qed

theorem fingerprint_is_content_hash_witness:
  "computeFingerprint Little_endian \<lparr>state = [], bitcount = 1, buffer = []\<rparr> []
     [\<lparr>mStart = 1, mLength = 2, mWholeFile = False, mData = [7, 8]\<rparr>,
      \<lparr>mStart = 4, mLength = 1, mWholeFile = True, mData = [9]\<rparr>] = Some (Inr (fips_sha256 [0, 7, 8, 0, 9]))"
  using fingerprint_is_content_hash
    [of "[\<lparr>mStart = 1, mLength = 2, mWholeFile = False, mData = [7, 8]\<rparr>,
          \<lparr>mStart = 4, mLength = 1, mWholeFile = True, mData = [9]\<rparr>]"]
  by (simp add: sparse_ok_def range_list_ok_def range_ok_def range_before_def dense_ok_def
      ends_sorted_def sparse_endbyte_def accessor_defs upt_conv_Cons)

text \<open>
  the two comparisons of \<open>Array\<close> agree on arrays of bytes of one length: \<open>memcmp\<close> and the loop both
  decide equality and the lexicographic order.
\<close>

lemma array_comparison_lexicographic:
  assumes "length xs = length ys"
  shows "(array_less integral_type xs ys \<longleftrightarrow> (xs, ys) \<in> lexord {(x, y). x < y})
    \<and> (array_eq integral_type xs ys \<longleftrightarrow> xs = ys)"
  using assms by (auto simp: array_less_def array_eq_def memcmp_less memcmp_eq zip_all_eq array_less_loop_lexord)

end
