(* ===== verification/Name_Lookup.thy ===== *)
theory Name_Lookup
  imports Uris
begin

text \<open>
  From the name of a file to the identifier of its content (\<open>transfer/ServiceLookup.hpp\<close>, \<open>CachedServiceLookup.hpp\<close>,
  \<open>ProtocolRegistry.hpp\<close>, \<open>NameLookupManager.hpp\<close>, \<open>CachedNameLookupManager.hpp\<close>): a chain of service lookups gives
  the contexts to try for the context of a name; the handlers registered for their protocols are asked in turn.

  Handlers speak to the network and options are read from the configuration: what they answer are arguments. A
  handler answers each question once, so a lookup is one step. A null pointer to a list of services is \<open>None\<close>.
  A callback becomes the result. The questions asked are recorded.
\<close>

section \<open>Services\<close>

type_synonym ServiceParams = "string \<rightharpoonup> string"
type_synonym ListOfServices = "(URIContext \<times> ServiceParams) list"

definition params_set :: "string \<Rightarrow> string \<Rightarrow> ServiceParams \<Rightarrow> ServiceParams" where
  "params_set name value m = m(name \<mapsto> value)"

definition params_unset :: "string \<Rightarrow> ServiceParams \<Rightarrow> ServiceParams" where
  "params_unset name m = (case m name of None \<Rightarrow> m | Some _ \<Rightarrow> m(name := None))"

definition params_get :: "string \<Rightarrow> ServiceParams \<Rightarrow> string" where
  "params_get name m = (case m name of None \<Rightarrow> [] | Some value \<Rightarrow> value)"

text \<open>The kinds of lookup in a chain: the base class, the cache, and the configuration.\<close>

datatype service_lookup =
    ServiceLookup
  | CachedServiceLookup "URIContext \<rightharpoonup> ListOfServices option"
  | OptionManagerServiceLookup "string \<rightharpoonup> ListOfServices"

text \<open>What the cache does before it hands on to the base class: \<open>insert\<close> keeps an entry that is there.\<close>

definition cached_addToCache :: "URIContext \<Rightarrow> ListOfServices option
    \<Rightarrow> (URIContext \<rightharpoonup> ListOfServices option) \<Rightarrow> (URIContext \<rightharpoonup> ListOfServices option)" where
  "cached_addToCache origService toCache m = (case m origService of None \<Rightarrow> m(origService \<mapsto> toCache) | Some _ \<Rightarrow> m)"

definition cached_lookupService :: "URIContext \<Rightarrow> (URIContext \<rightharpoonup> ListOfServices option) \<Rightarrow> ListOfServices option" where
  "cached_lookupService c m = (case m c of None \<Rightarrow> None | Some found \<Rightarrow> found)"

text \<open>\<open>addToCache\<close> along \<open>mRespondTo\<close>: the lookups before this one, the nearest first.\<close>

fun services_addToCache :: "URIContext \<Rightarrow> ListOfServices option \<Rightarrow> service_lookup list \<Rightarrow> service_lookup list" where
  "services_addToCache origService toCache [] = []"
| "services_addToCache origService toCache (CachedServiceLookup m # ls) =
     CachedServiceLookup (cached_addToCache origService toCache m)
       # services_addToCache origService toCache ls"
| "services_addToCache origService toCache (l # ls) = l # services_addToCache origService toCache ls"

text \<open>\<open>lookupService\<close> along \<open>mNext\<close>, with the lookups passed so far.\<close>

fun lookupService :: "URIContext \<Rightarrow> service_lookup list \<Rightarrow> service_lookup list \<Rightarrow> ListOfServices option \<times> service_lookup list" where
  "lookupService c passed [] = (None, rev passed)"
| "lookupService c passed (ServiceLookup # ls) = lookupService c (ServiceLookup # passed) ls"
| "lookupService c passed (CachedServiceLookup m # ls) =
     (case cached_lookupService c m of
        Some found \<Rightarrow> (Some found, rev passed @ CachedServiceLookup m # ls)
      | None \<Rightarrow> lookupService c (CachedServiceLookup m # passed) ls)"
| "lookupService c passed (OptionManagerServiceLookup options # ls) =
     (case options (context_toString True c) of
        None \<Rightarrow> lookupService c (OptionManagerServiceLookup options # passed) ls
      | Some vec \<Rightarrow> (Some vec, rev (services_addToCache c (Some vec) passed) @ OptionManagerServiceLookup options # ls))"

section \<open>Registered handlers\<close>

record 'h registry =
  mHandlers :: "string \<rightharpoonup> string \<times> 'h"
  mServices :: "service_lookup list option"
  mAllowNonService :: bool

definition setHandler :: "string \<Rightarrow> string \<Rightarrow> 'h \<Rightarrow> 'h registry \<Rightarrow> 'h registry" where
  "setHandler proto mappedproto handler r = r\<lparr>mHandlers := (mHandlers r)(proto \<mapsto> (mappedproto, handler))\<rparr>"

definition registry_lookup :: "string \<Rightarrow> 'h registry \<Rightarrow> string \<times> 'h option" where
  "registry_lookup proto r =
     (case mHandlers r proto of None \<Rightarrow> (proto, None) | Some (mapped, handler) \<Rightarrow> (mapped, Some handler))"

definition registry_lookupService :: "URIContext \<Rightarrow> bool \<Rightarrow> 'h registry \<Rightarrow> ListOfServices option \<times> 'h registry" where
  "registry_lookupService c allowProto r =
     (if allowProto \<and> mAllowNonService r \<and> mHandlers r (mProto c) \<noteq> None then (Some [(c, Map.empty)], r)
      else case mServices r of
             Some ls \<Rightarrow> (let (services, ls) = lookupService c [] ls in (services, r\<lparr>mServices := Some ls\<rparr>))
           | None \<Rightarrow> (None, r))"

section \<open>Names\<close>

record ('h, 'd) name_lookup_manager =
  mNameHandlers :: "'h registry"
  mDownloadProto :: "'d registry option"
  mLookupCache :: "URI \<rightharpoonup> RemoteFileId"
  caching :: bool                        \<comment> \<open>the object is a \<open>CachedNameLookupManager\<close>\<close>
  questions :: "('h \<times> URI) list"

type_synonym 'h answers = "'h \<Rightarrow> URI \<Rightarrow> (digest \<times> string) option"

definition names_addToCache :: "URI \<Rightarrow> RemoteFileId \<Rightarrow> ('h, 'd) name_lookup_manager \<Rightarrow> ('h, 'd) name_lookup_manager" where
  "names_addToCache origNamedUri toFetch m =
     (if caching m \<and> mLookupCache m origNamedUri = None
      then m\<lparr>mLookupCache := (mLookupCache m)(origNamedUri \<mapsto> toFetch)\<rparr> else m)"

definition gotNameLookup :: "URI \<Rightarrow> digest \<Rightarrow> string \<Rightarrow> ('h, 'd) name_lookup_manager
    \<Rightarrow> (sha_error + RemoteFileId option) \<times> ('h, 'd) name_lookup_manager" where
  "gotNameLookup origNamedUri hash str m =
     (let rfid = \<lparr>mHash = hash, mURI = URI_relative (mContext origNamedUri) str\<rparr>
      in (Inr (Some rfid), names_addToCache origNamedUri rfid m))"

definition hashedDownload :: "digest \<Rightarrow> URI \<Rightarrow> ListOfServices option \<Rightarrow> sha_error + RemoteFileId option" where
  "hashedDownload junk origNamedUri services =
     (case services of
        Some (s # ss) \<Rightarrow> sum_bind (RemoteFileId_of junk origNamedUri) (\<lambda>rfid. Inr (Some rfid))
      | _ \<Rightarrow> Inr None)"

definition lookup_failed :: "digest \<Rightarrow> URI \<Rightarrow> ('h, 'd) name_lookup_manager
    \<Rightarrow> (sha_error + RemoteFileId option) \<times> ('h, 'd) name_lookup_manager" where
  "lookup_failed junk origNamedUri m =
     (case mDownloadProto m of
        None \<Rightarrow> (Inr None, m)
      | Some r \<Rightarrow>
          let (services, r) = registry_lookupService (mContext origNamedUri) True r
          in (hashedDownload junk origNamedUri services, m\<lparr>mDownloadProto := Some r\<rparr>))"

definition lookup_uri :: "URIContext \<Rightarrow> URI \<Rightarrow> 'h registry \<Rightarrow> URI \<times> 'h option" where
  "lookup_uri c origNamedUri r =
     (let lookupUri = URI_relative c (mPath origNamedUri);
          (proto, handler) = registry_lookup (mProto (mContext lookupUri)) r
      in (lookupUri\<lparr>mContext := (mContext lookupUri)\<lparr>mProto := proto\<rparr>\<rparr>, handler))"

text \<open>\<open>doNameLookup\<close>, on the services from \<open>which\<close> on.\<close>

fun doNameLookup :: "'h answers \<Rightarrow> digest \<Rightarrow> URI \<Rightarrow> ListOfServices \<Rightarrow> ('h, 'd) name_lookup_manager
    \<Rightarrow> (sha_error + RemoteFileId option) \<times> ('h, 'd) name_lookup_manager" where
  "doNameLookup ask junk origNamedUri [] m = lookup_failed junk origNamedUri m"
| "doNameLookup ask junk origNamedUri ((c, params) # services) m =
     (case lookup_uri c origNamedUri (mNameHandlers m) of
        (lookupUri, None) \<Rightarrow> doNameLookup ask junk origNamedUri services m
      | (lookupUri, Some handler) \<Rightarrow>
          let m = m\<lparr>questions := questions m @ [(handler, lookupUri)]\<rparr> in
          case ask handler lookupUri of
            None \<Rightarrow> doNameLookup ask junk origNamedUri services m
          | Some (hash, str) \<Rightarrow> gotNameLookup origNamedUri hash str m)"

text \<open>\<open>lookupHash\<close> of the base class is not virtual: it is what a call through a pointer to the base class runs.\<close>

definition lookupHash :: "'h answers \<Rightarrow> digest \<Rightarrow> URI \<Rightarrow> ('h, 'd) name_lookup_manager
    \<Rightarrow> (sha_error + RemoteFileId option) \<times> ('h, 'd) name_lookup_manager" where
  "lookupHash ask junk namedUri m =
     (let (services, r) = registry_lookupService (mContext namedUri) True (mNameHandlers m)
      in doNameLookup ask junk namedUri (case services of None \<Rightarrow> [] | Some ss \<Rightarrow> ss) (m\<lparr>mNameHandlers := r\<rparr>))"

definition cached_lookupHash :: "'h answers \<Rightarrow> digest \<Rightarrow> URI \<Rightarrow> ('h, 'd) name_lookup_manager
    \<Rightarrow> (sha_error + RemoteFileId option) \<times> ('h, 'd) name_lookup_manager" where
  "cached_lookupHash ask junk namedUri m =
     (case mLookupCache m namedUri of
        Some rfid \<Rightarrow> (Inr (Some rfid), m)
      | None \<Rightarrow> lookupHash ask junk namedUri m)"

section \<open>Caches of services\<close>

text \<open>What the configuration says about a context, and caches that agree with what is behind them.\<close>

fun configured :: "URIContext \<Rightarrow> service_lookup list \<Rightarrow> ListOfServices option" where
  "configured c [] = None"
| "configured c (OptionManagerServiceLookup options # ls) =
     (case options (context_toString True c) of None \<Rightarrow> configured c ls | Some vec \<Rightarrow> Some vec)"
| "configured c (l # ls) = configured c ls"

fun services_sound :: "service_lookup list \<Rightarrow> bool" where
  "services_sound [] \<longleftrightarrow> True"
| "services_sound (CachedServiceLookup m # ls) \<longleftrightarrow>
     (\<forall>c v. m c = Some (Some v) \<longrightarrow> configured c ls = Some v) \<and> services_sound ls"
| "services_sound (l # ls) \<longleftrightarrow> services_sound ls"

lemma cached_lookupService_Some: "cached_lookupService c m = Some v \<longleftrightarrow> m c = Some (Some v)"
  by (simp add: cached_lookupService_def split: option.split)

lemma configured_append: "configured c (xs @ ys) = (case configured c xs of None \<Rightarrow> configured c ys | Some v \<Rightarrow> Some v)"
  by (induction c xs rule: configured.induct) (auto split: option.splits)

lemma configured_cached: "configured d (rev (services_addToCache c v ls)) = configured d (rev ls)"
  by (induction c v ls rule: services_addToCache.induct) (auto simp: configured_append split: option.splits)

lemma services_sound_append:
  "services_sound (xs @ ys) \<longleftrightarrow> services_sound ys
    \<and> (\<forall>zs m ws. xs = zs @ CachedServiceLookup m # ws \<longrightarrow> (\<forall>c v. m c = Some (Some v) \<longrightarrow> configured c (ws @ ys) = Some v))"
proof (induction xs rule: services_sound.induct)
  case (2 m ls)
  then show ?case by (auto simp: Cons_eq_append_conv)
qed (auto simp: Cons_eq_append_conv)

lemma services_sound_passed:
  assumes "services_sound (rev passed @ ls)" "configured c (rev passed) = None" "configured c ls = Some vec"
  shows "services_sound (rev (services_addToCache c (Some vec) passed) @ ls)"
  using assms
proof (induction passed arbitrary: ls)
  case (Cons l passed)
  have rest: "configured c (rev passed) = None" "configured c [l] = None"
    using Cons.prems(2) by (auto simp: configured_append split: option.splits)
  have tail: "configured c (l # ls) = Some vec"
    using rest(2) Cons.prems(3) configured_append [of c "[l]" ls] by simp
  have IH: "services_sound (rev (services_addToCache c (Some vec) passed) @ l # ls)"
    using Cons.IH [of "l # ls"] Cons.prems(1) rest(1) tail by simp
  show ?case
  proof (cases l)
    case (CachedServiceLookup m)
    let ?l = "CachedServiceLookup (cached_addToCache c (Some vec) m)"
    have "services_sound (?l # ls)"
      using IH Cons.prems(3) by (auto simp: services_sound_append CachedServiceLookup cached_addToCache_def split: option.splits if_splits)
    moreover have "configured d (ws @ ?l # ls) = configured d (ws @ l # ls)" for d ws
      by (simp add: configured_append CachedServiceLookup split: option.split)
    ultimately have "services_sound (rev (services_addToCache c (Some vec) passed) @ ?l # ls)"
      using IH unfolding services_sound_append by (simp add: CachedServiceLookup)
    then show ?thesis by (simp add: CachedServiceLookup)
  qed (use IH in simp_all)
qed simp

lemma lookupService_configured:
  "services_sound (rev passed @ ls) \<Longrightarrow> configured c (rev passed) = None \<Longrightarrow>
    fst (lookupService c passed ls) = configured c ls \<and> services_sound (snd (lookupService c passed ls))"
proof (induction c passed ls rule: lookupService.induct)
  case (3 c passed m ls)
  have "configured c ls = Some v" if "cached_lookupService c m = Some v" for v
    using 3 that by (auto simp: services_sound_append cached_lookupService_Some)
  then show ?case using 3 by (auto simp: configured_append split: option.splits)
next
  case (4 c passed options ls)
  then show ?case
    using services_sound_passed [of passed "OptionManagerServiceLookup options # ls" c]
    by (auto simp: configured_append split: option.splits)
qed (auto simp: configured_append split: option.splits)

section \<open>Asking in turn\<close>

text \<open>The handlers for the services of a name with the URIs they are asked for, the questions asked until one answers, and its answer.\<close>

definition candidates :: "'h registry \<Rightarrow> URI \<Rightarrow> ListOfServices \<Rightarrow> ('h \<times> URI) list" where
  "candidates r origNamedUri services = List.map_filter
     (\<lambda>(c, params). case lookup_uri c origNamedUri r of (u, h) \<Rightarrow> map_option (\<lambda>h. (h, u)) h) services"

fun asked :: "('h \<Rightarrow> URI \<Rightarrow> 'a option) \<Rightarrow> ('h \<times> URI) list \<Rightarrow> ('h \<times> URI) list" where
  "asked ask [] = []"
| "asked ask ((h, u) # cs) = (h, u) # (if ask h u = None then asked ask cs else [])"

fun first_answer :: "('h \<Rightarrow> URI \<Rightarrow> 'a option) \<Rightarrow> ('h \<times> URI) list \<Rightarrow> 'a option" where
  "first_answer ask [] = None"
| "first_answer ask ((h, u) # cs) = (case ask h u of None \<Rightarrow> first_answer ask cs | Some a \<Rightarrow> Some a)"

lemma candidates_services [simp]: "candidates (r\<lparr>mServices := x\<rparr>) u services = candidates r u services"
  by (simp add: candidates_def lookup_uri_def registry_lookup_def)

lemma doNameLookup_result:
  "doNameLookup ask junk u services m =
     (let cs = candidates (mNameHandlers m) u services; m = m\<lparr>questions := questions m @ asked ask cs\<rparr> in
      case first_answer ask cs of Some (hash, str) \<Rightarrow> gotNameLookup u hash str m | None \<Rightarrow> lookup_failed junk u m)"
proof (induction services arbitrary: m)
  case Nil
  then show ?case by (simp add: candidates_def)
next
  case (Cons s services)
  obtain c params where s: "s = (c, params)" by (cases s)
  obtain v h where v: "lookup_uri c u (mNameHandlers m) = (v, h)" by fastforce
  show ?case
  proof (cases h)
    case None
    with v Cons show ?thesis by (simp add: s candidates_def)
  next
    case (Some h')
    then have "candidates (mNameHandlers m) u (s # services) = (h', v) # candidates (mNameHandlers m) u services"
      using v by (simp add: s candidates_def)
    with v Some Cons show ?thesis by (simp add: s Let_def split: option.split)
  qed
qed

lemma lookup_failed_keeps:
  "lookup_failed junk u m = (res, m') \<Longrightarrow> questions m' = questions m \<and> mLookupCache m' = mLookupCache m"
  by (auto simp: lookup_failed_def Let_def split: option.splits prod.splits)

lemma gotNameLookup_keeps: "questions (snd (gotNameLookup u hash str m)) = questions m"
  by (simp add: gotNameLookup_def names_addToCache_def Let_def)

section \<open>Properties\<close>

definition sample_context :: "string \<Rightarrow> string \<Rightarrow> URIContext" where
  "sample_context proto host = \<lparr>mProto = proto, mHost = host, mUser = [], mDirectory = []\<rparr>"

text \<open>Two services are configured for \<open>meerkat:\<close>; the handler for \<open>http\<close> answers for the second host only.\<close>

definition sample_names :: "(nat, unit) name_lookup_manager" where
  "sample_names = \<lparr>mNameHandlers = \<lparr>mHandlers = [''http'' \<mapsto> (''http'', 8)],
       mServices = Some [CachedServiceLookup Map.empty, OptionManagerServiceLookup [''meerkat:///'' \<mapsto>
         [(sample_context ''http'' ''a.com'', Map.empty), (sample_context ''ftp'' ''b.com'', Map.empty),
          (sample_context ''http'' ''c.com'', Map.empty)]]], mAllowNonService = False\<rparr>,
     mDownloadProto = None, mLookupCache = Map.empty, caching = True, questions = []\<rparr>"

definition sample_answers :: "nat answers" where
  "sample_answers h u = (if mHost (mContext u) = ''c.com'' then Some (replicate 32 7, ''mhash:///x'') else None)"

definition sample_name :: URI where
  "sample_name = \<lparr>mContext = sample_context ''meerkat'' [], mPath = ''ASCII.material''\<rparr>"



text \<open>
  A call of \<open>lookupHash\<close> through a pointer to the base class, as \<open>EventTransferManager::download\<close> makes it,
  does not look into the cache: the questions do not depend on what it holds.
\<close>

lemma base_lookup_ignores_cache:
  "questions (snd (lookupHash ask junk u (m\<lparr>mLookupCache := cache\<rparr>))) = questions (snd (lookupHash ask junk u m))"
  by (auto simp: lookupHash_def doNameLookup_result gotNameLookup_def names_addToCache_def lookup_failed_def Let_def
      split: prod.splits option.splits)

end
