(* ===== verification/Cache_Policy.thy ===== *)
theory Cache_Policy
  imports Prelude
begin

text \<open>
  The replacement policies of \<^verbatim>\<open>libcore/src/transfer/CachePolicy.hpp\<close> and
  \<^verbatim>\<open>LRUPolicy.hpp\<close>. The abstract class is its table of virtual functions (\<open>policy_ops\<close>) and the
  contract its clients rely on (the locale \<open>cache_policy\<close>); \<open>LRUPolicy\<close> is the record that
  extends the base class with the usage list, \<open>lru_ops\<close> its table, and the interpretation shows
  that it keeps the contract. A list iterator is the number of the list node it points to:
  \<open>std::list\<close> never moves a node, so the number stays valid until the node is erased.
\<close>

section \<open>CachePolicy\<close>

record cache_policy =
  mTotalSize :: u64
  mMaxSizePct :: rat
  mFreeSpace :: "64 word"

definition CachePolicy_init :: "u64 \<Rightarrow> rat \<Rightarrow> cache_policy" where
  "CachePolicy_init allocatedSpace maxSizePct =
     \<lparr>mTotalSize = allocatedSpace, mMaxSizePct = maxSizePct, mFreeSpace = allocatedSpace\<rparr>"

text \<open>\<open>mFreeSpace\<close> is a signed 64-bit number; \<open>+=\<close> and \<open>-=\<close> with unsigned operands wrap around.\<close>

definition updateSpace :: "u64 \<Rightarrow> u64 \<Rightarrow> 'a cache_policy_scheme \<Rightarrow> 'a cache_policy_scheme" where
  "updateSpace oldsize newsize p =
     (let p = p\<lparr>mFreeSpace := mFreeSpace p + oldsize\<rparr>
      in p\<lparr>mFreeSpace := mFreeSpace p - newsize\<rparr>)"

text \<open>
  \<open>rnd\<close> is the rounding of the machine's \<open>double\<close>; the percentage is a \<open>float\<close>, which a
  \<open>double\<close> holds exactly.
\<close>

definition cachable :: "(rat \<Rightarrow> rat) \<Rightarrow> u64 \<Rightarrow> 'a cache_policy_scheme \<Rightarrow> bool" where
  "cachable rnd requiredSpace p =
     (if sint requiredSpace < 0 then False
      else if rnd (of_nat (unat requiredSpace)) \<ge> rnd (rnd (of_nat (unat (mTotalSize p))) * mMaxSizePct p)
      then False
      else True)"

text \<open>
  The virtual functions: \<open>'p\<close> is the policy object, \<open>'f\<close> the fingerprint type and \<open>'h\<close> the opaque
  per-entry data (\<open>CachePolicy::Data*\<close>). \<open>nextItem\<close> returns the fingerprint it stores in its
  reference argument, \<open>None\<close> where it returns \<open>false\<close>.
\<close>

record ('p, 'f, 'h) policy_ops =
  op_use :: "'f \<Rightarrow> 'h \<Rightarrow> u64 \<Rightarrow> 'p \<Rightarrow> 'p"
  op_useAndUpdate :: "'f \<Rightarrow> 'h \<Rightarrow> u64 \<Rightarrow> u64 \<Rightarrow> 'p \<Rightarrow> 'p"
  op_destroy :: "'f \<Rightarrow> 'h \<Rightarrow> u64 \<Rightarrow> 'p \<Rightarrow> 'p"
  op_create :: "'f \<Rightarrow> u64 \<Rightarrow> 'p \<Rightarrow> 'h \<times> 'p"
  op_cachable :: "u64 \<Rightarrow> 'p \<Rightarrow> bool"
  op_nextItem :: "u64 \<Rightarrow> 'p \<Rightarrow> 'f option"

section \<open>LRUPolicy\<close>

type_synonym lru_iter = nat

record 'f lru_policy = cache_policy +
  mLeastUsed :: "(lru_iter \<times> 'f) list"
  mNextNode :: nat  \<comment> \<open>the allocator of list nodes\<close>

definition LRUPolicy_init :: "u64 \<Rightarrow> rat \<Rightarrow> 'f lru_policy" where
  "LRUPolicy_init allocatedSpace maxSizePct =
     \<lparr>mTotalSize = allocatedSpace, mMaxSizePct = maxSizePct, mFreeSpace = allocatedSpace,
      mLeastUsed = [], mNextNode = 0\<rparr>"

definition lru_use :: "'f \<Rightarrow> lru_iter \<Rightarrow> u64 \<Rightarrow> 'f lru_policy \<Rightarrow> 'f lru_policy" where
  "lru_use fid iter sz p =
     p\<lparr>mLeastUsed := filter (\<lambda>(n, _). n \<noteq> iter) (mLeastUsed p)
                     @ filter (\<lambda>(n, _). n = iter) (mLeastUsed p)\<rparr>"

definition lru_useAndUpdate :: "'f \<Rightarrow> lru_iter \<Rightarrow> u64 \<Rightarrow> u64 \<Rightarrow> 'f lru_policy \<Rightarrow> 'f lru_policy" where
  "lru_useAndUpdate fid iter oldsize newsize p = updateSpace oldsize newsize (lru_use fid iter newsize p)"

definition lru_destroy :: "'f \<Rightarrow> lru_iter \<Rightarrow> u64 \<Rightarrow> 'f lru_policy \<Rightarrow> 'f lru_policy" where
  "lru_destroy fid iter sz p =
     (let p = updateSpace sz 0 p
      in p\<lparr>mLeastUsed := filter (\<lambda>(n, _). n \<noteq> iter) (mLeastUsed p)\<rparr>)"

definition lru_create :: "'f \<Rightarrow> u64 \<Rightarrow> 'f lru_policy \<Rightarrow> lru_iter \<times> 'f lru_policy" where
  "lru_create fid sz p =
     (let p = updateSpace 0 sz p; newIter = mNextNode p
      in (newIter, p\<lparr>mLeastUsed := mLeastUsed p @ [(newIter, fid)], mNextNode := Suc newIter\<rparr>))"

definition lru_nextItem :: "u64 \<Rightarrow> 'f lru_policy \<Rightarrow> 'f option" where
  "lru_nextItem requiredSpace p =
     (if sint (mFreeSpace p) < sint requiredSpace \<and> mLeastUsed p \<noteq> []
      then Some (snd (hd (mLeastUsed p)))
      else None)"

definition lru_ops :: "(rat \<Rightarrow> rat) \<Rightarrow> ('f lru_policy, 'f, lru_iter) policy_ops" where
  "lru_ops rnd =
     \<lparr>op_use = lru_use, op_useAndUpdate = lru_useAndUpdate, op_destroy = lru_destroy,
      op_create = lru_create, op_cachable = cachable rnd, op_nextItem = lru_nextItem\<rparr>"

lemmas lru_defs [step_defs] =
  lru_use_def lru_useAndUpdate_def lru_destroy_def lru_create_def lru_nextItem_def updateSpace_def

section \<open>The contract of a policy\<close>

text \<open>
  What the cache relies on: the policy tracks a finite set of (handle, fingerprint) pairs, knows
  the space it has left, and moves that number by exactly the sizes it is told; its size and what
  it admits never change. \<open>nextItem\<close> only
  proposes what is tracked, and gives up only when the space suffices or nothing is tracked.
\<close>

locale cache_policy =
  fixes vt :: "('p, 'f::linorder, 'h) policy_ops"
    and tracked :: "'p \<Rightarrow> ('h \<times> 'f) set"
    and free :: "'p \<Rightarrow> u64"
    and capacity :: "'p \<Rightarrow> u64"
    and policy_ok :: "'p \<Rightarrow> bool"
  assumes use: "policy_ok p \<Longrightarrow> (h, f) \<in> tracked p \<Longrightarrow>
      policy_ok (op_use vt f h sz p) \<and> tracked (op_use vt f h sz p) = tracked p
      \<and> free (op_use vt f h sz p) = free p \<and> capacity (op_use vt f h sz p) = capacity p
      \<and> (\<forall>req. op_cachable vt req (op_use vt f h sz p) = op_cachable vt req p)"
    and useAndUpdate: "policy_ok p \<Longrightarrow> (h, f) \<in> tracked p \<Longrightarrow>
      policy_ok (op_useAndUpdate vt f h old new p)
      \<and> tracked (op_useAndUpdate vt f h old new p) = tracked p
      \<and> free (op_useAndUpdate vt f h old new p) = free p + old - new
      \<and> capacity (op_useAndUpdate vt f h old new p) = capacity p
      \<and> (\<forall>req. op_cachable vt req (op_useAndUpdate vt f h old new p) = op_cachable vt req p)"
    and destroy: "policy_ok p \<Longrightarrow> (h, f) \<in> tracked p \<Longrightarrow>
      policy_ok (op_destroy vt f h sz p)
      \<and> tracked (op_destroy vt f h sz p) = {(h', f') \<in> tracked p. h' \<noteq> h}
      \<and> free (op_destroy vt f h sz p) = free p + sz
      \<and> capacity (op_destroy vt f h sz p) = capacity p
      \<and> (\<forall>req. op_cachable vt req (op_destroy vt f h sz p) = op_cachable vt req p)"
    and create: "policy_ok p \<Longrightarrow> op_create vt f sz p = (h, p') \<Longrightarrow>
      policy_ok p' \<and> h \<notin> fst ` tracked p \<and> tracked p' = insert (h, f) (tracked p)
      \<and> free p' = free p - sz \<and> capacity p' = capacity p
      \<and> (\<forall>req. op_cachable vt req p' = op_cachable vt req p)"
    and nextItem_Some: "policy_ok p \<Longrightarrow> op_nextItem vt req p = Some f \<Longrightarrow> f \<in> snd ` tracked p"
    and nextItem_None: "policy_ok p \<Longrightarrow> op_nextItem vt req p = None \<Longrightarrow>
      sint req \<le> sint (free p) \<or> tracked p = {}"

section \<open>LRUPolicy keeps the contract\<close>

text \<open>Nodes are numbered apart and below the allocator's next number.\<close>

definition lru_ok :: "'f lru_policy \<Rightarrow> bool" where
  "lru_ok p \<longleftrightarrow> distinct (map fst (mLeastUsed p)) \<and> (\<forall>n\<in>fst ` set (mLeastUsed p). n < mNextNode p)"

definition lru_tracked :: "'f lru_policy \<Rightarrow> (lru_iter \<times> 'f) set" where
  "lru_tracked p = set (mLeastUsed p)"

lemma distinct_rotate_filter:
  "distinct (map fst xs) \<Longrightarrow> distinct (map fst (filter (\<lambda>(n, _). n \<noteq> k) xs @ filter (\<lambda>(n, _). n = k) xs))"
  by (auto simp: distinct_map_filter)

lemma set_rotate_filter:
  "set (filter (\<lambda>(n, _). n \<noteq> k) xs @ filter (\<lambda>(n, _). n = k) xs) = set xs"
  by auto

lemma lru_use_ok: "lru_ok p \<Longrightarrow> lru_ok (lru_use f h sz p)"
  unfolding lru_ok_def lru_use_def
  using distinct_rotate_filter [of "mLeastUsed p" h] set_rotate_filter [of h "mLeastUsed p"]
  by simp

interpretation lru: cache_policy "lru_ops rnd" lru_tracked mFreeSpace mTotalSize lru_ok for rnd
proof
  fix p p' :: "'f::linorder lru_policy" and f :: 'f and h sz old new req
  assume ok: "lru_ok p"
  have use_tracked: "lru_tracked (lru_use f h sz p) = lru_tracked p" for sz
    unfolding lru_tracked_def lru_use_def using set_rotate_filter [of h "mLeastUsed p"] by simp
  show "lru_ok (op_use (lru_ops rnd) f h sz p)
      \<and> lru_tracked (op_use (lru_ops rnd) f h sz p) = lru_tracked p
      \<and> mFreeSpace (op_use (lru_ops rnd) f h sz p) = mFreeSpace p
      \<and> mTotalSize (op_use (lru_ops rnd) f h sz p) = mTotalSize p
      \<and> (\<forall>req. op_cachable (lru_ops rnd) req (op_use (lru_ops rnd) f h sz p) = op_cachable (lru_ops rnd) req p)"
    using lru_use_ok [OF ok] use_tracked by (simp add: lru_ops_def) (simp add: lru_use_def cachable_def)
  show "lru_ok (op_useAndUpdate (lru_ops rnd) f h old new p)
      \<and> lru_tracked (op_useAndUpdate (lru_ops rnd) f h old new p) = lru_tracked p
      \<and> mFreeSpace (op_useAndUpdate (lru_ops rnd) f h old new p) = mFreeSpace p + old - new
      \<and> mTotalSize (op_useAndUpdate (lru_ops rnd) f h old new p) = mTotalSize p
      \<and> (\<forall>req. op_cachable (lru_ops rnd) req (op_useAndUpdate (lru_ops rnd) f h old new p) = op_cachable (lru_ops rnd) req p)"
    using lru_use_ok [OF ok, of f h new] use_tracked [of new]
    by (simp add: lru_ops_def lru_useAndUpdate_def updateSpace_def lru_ok_def lru_tracked_def)
       (simp add: lru_use_def cachable_def)
  show "lru_ok (op_destroy (lru_ops rnd) f h sz p)
      \<and> lru_tracked (op_destroy (lru_ops rnd) f h sz p) = {(h', f') \<in> lru_tracked p. h' \<noteq> h}
      \<and> mFreeSpace (op_destroy (lru_ops rnd) f h sz p) = mFreeSpace p + sz
      \<and> mTotalSize (op_destroy (lru_ops rnd) f h sz p) = mTotalSize p
      \<and> (\<forall>req. op_cachable (lru_ops rnd) req (op_destroy (lru_ops rnd) f h sz p) = op_cachable (lru_ops rnd) req p)"
    using ok by (auto simp: lru_ops_def lru_destroy_def updateSpace_def lru_ok_def lru_tracked_def
        Let_def distinct_map_filter cachable_def)
  show "op_create (lru_ops rnd) f sz p = (h, p') \<Longrightarrow>
      lru_ok p' \<and> h \<notin> fst ` lru_tracked p \<and> lru_tracked p' = insert (h, f) (lru_tracked p)
      \<and> mFreeSpace p' = mFreeSpace p - sz \<and> mTotalSize p' = mTotalSize p
      \<and> (\<forall>req. op_cachable (lru_ops rnd) req p' = op_cachable (lru_ops rnd) req p)"
  proof -
    assume "op_create (lru_ops rnd) f sz p = (h, p')"
    then have h: "h = mNextNode p" and p': "p' = p\<lparr>mFreeSpace := mFreeSpace p - sz,
        mLeastUsed := mLeastUsed p @ [(h, f)], mNextNode := Suc h\<rparr>"
      by (auto simp: lru_ops_def lru_create_def updateSpace_def Let_def)
    have "h \<notin> fst ` set (mLeastUsed p)" using ok h by (auto simp: lru_ok_def)
    with ok h show ?thesis
      unfolding p' by (auto simp: lru_ok_def lru_tracked_def lru_ops_def cachable_def less_Suc_eq)
  qed
  show "op_nextItem (lru_ops rnd) req p = Some f \<Longrightarrow> f \<in> snd ` lru_tracked p"
    by (auto simp: lru_ops_def lru_nextItem_def lru_tracked_def split: if_splits)
  show "op_nextItem (lru_ops rnd) req p = None \<Longrightarrow> sint req \<le> sint (mFreeSpace p) \<or> lru_tracked p = {}"
    by (auto simp: lru_ops_def lru_nextItem_def lru_tracked_def split: if_splits)
qed

section \<open>Admission\<close>

text \<open>
  With a rounding that is monotone, leaves rounded values alone and keeps zero, and at most the whole cache
  for one entry, an entry that is admitted is smaller than the cache and is not negative as a
  signed number.
\<close>

lemma cachable_fits:
  assumes "mono rnd" "\<And>x. rnd (rnd x) = rnd x" "rnd 0 = 0" "mMaxSizePct p \<le> 1" "cachable rnd req p"
  shows "unat req < unat (mTotalSize p)" and "0 \<le> sint req"
proof -
  let ?t = "of_nat (unat (mTotalSize p)) :: rat" and ?r = "of_nat (unat req) :: rat"
  show "0 \<le> sint req" using assms(5) by (auto simp: cachable_def split: if_splits)
  have less: "rnd ?r < rnd (rnd ?t * mMaxSizePct p)"
    using assms(5) by (auto simp: cachable_def not_le split: if_splits)
  show "unat req < unat (mTotalSize p)"
  proof (rule ccontr)
    assume "\<not> ?thesis"
    then have "unat (mTotalSize p) \<le> unat req" by simp
    then have "?t \<le> ?r" by (rule of_nat_mono)
    then have "rnd ?t \<le> rnd ?r" using assms(1) by (simp add: mono_def)
    have "rnd 0 \<le> rnd ?t" using assms(1) by (rule monoD) (rule of_nat_0_le_iff)
    then have "rnd ?t * mMaxSizePct p \<le> rnd ?t"
      using assms(3,4) by (simp add: mult_left_le)
    then have "rnd (rnd ?t * mMaxSizePct p) \<le> rnd ?t"
      using assms(1,2) by (metis monoD)
    with less \<open>rnd ?t \<le> rnd ?r\<close> show False by simp
  qed
qed

end
