(* ===== verification/Std_Map.thy ===== *)
theory Std_Map
  imports Prelude
begin

text \<open>
  \<^verbatim>\<open>std::map\<close> as the code uses it: an association list sorted by key, so that iteration from
  \<open>begin()\<close> to \<open>end()\<close> is the list itself. \<open>find\<close>, \<open>insert\<close> (which does nothing when the key is
  there), assignment through an iterator and \<open>erase\<close>, with their laws over \<open>map_of\<close>.
\<close>

type_synonym ('k, 'v) std_map = "('k \<times> 'v) list"

definition map_ok :: "('k::linorder, 'v) std_map \<Rightarrow> bool" where
  "map_ok m \<longleftrightarrow> sorted_wrt (<) (map fst m)"

definition map_find :: "'k \<Rightarrow> ('k::linorder, 'v) std_map \<Rightarrow> 'v option" where
  "map_find k m = map_of m k"

fun map_insert :: "'k \<Rightarrow> 'v \<Rightarrow> ('k::linorder, 'v) std_map \<Rightarrow> ('k, 'v) std_map" where
  "map_insert k v [] = [(k, v)]"
| "map_insert k v ((k', v') # m) =
     (if k < k' then (k, v) # (k', v') # m
      else if k = k' then (k', v') # m
      else (k', v') # map_insert k v m)"

definition map_assign :: "'k \<Rightarrow> 'v \<Rightarrow> ('k::linorder, 'v) std_map \<Rightarrow> ('k, 'v) std_map" where
  "map_assign k v m = map (\<lambda>(k', v'). (k', if k' = k then v else v')) m"

definition map_erase :: "'k \<Rightarrow> ('k::linorder, 'v) std_map \<Rightarrow> ('k, 'v) std_map" where
  "map_erase k m = filter (\<lambda>(k', _). k' \<noteq> k) m"

lemma map_ok_simps [simp]:
  "map_ok []"
  "map_ok ((k, v) # m) \<longleftrightarrow> (\<forall>k'\<in>fst ` set m. k < k') \<and> map_ok m"
  by (auto simp: map_ok_def)

lemma map_ok_distinct: "map_ok m \<Longrightarrow> distinct (map fst m)"
  by (simp add: map_ok_def strict_sorted_iff)

lemma fst_set_map_insert: "fst ` set (map_insert k v m) = insert k (fst ` set m)"
  by (induction k v m rule: map_insert.induct) auto

lemma map_ok_insert: "map_ok m \<Longrightarrow> map_ok (map_insert k v m)"
proof (induction k v m rule: map_insert.induct)
  case (2 k v k' v' m)
  then show ?case
    using fst_set_map_insert [of k v m] by (auto simp: image_iff)
qed simp

lemma map_ok_assign: "map_ok m \<Longrightarrow> map_ok (map_assign k v m)"
  by (simp add: map_ok_def map_assign_def comp_def case_prod_unfold)

lemma map_ok_erase: "map_ok m \<Longrightarrow> map_ok (map_erase k m)"
  by (induction m) (auto simp: map_erase_def)

lemma map_find_insert:
  "map_ok m \<Longrightarrow> map_find k' (map_insert k v m)
     = (if k' = k then Some (case map_find k m of None \<Rightarrow> v | Some v' \<Rightarrow> v') else map_find k' m)"
proof (induction k v m rule: map_insert.induct)
  case (2 k v k1 v1 m)
  have "map_of m k = None" if "k < k1"
    using that "2.prems" by (force simp: map_of_eq_None_iff)
  with 2 show ?case by (auto simp: map_find_def)
qed (simp add: map_find_def)

lemma map_find_assign:
  "map_find k' (map_assign k v m) = (if k' = k \<and> map_find k m \<noteq> None then Some v else map_find k' m)"
  by (induction m) (auto simp: map_find_def map_assign_def)

lemma map_find_erase: "map_find k' (map_erase k m) = (if k' = k then None else map_find k' m)"
  by (induction m) (auto simp: map_find_def map_erase_def)

lemma map_insert_present: "map_ok m \<Longrightarrow> map_find k m \<noteq> None \<Longrightarrow> map_insert k v m = m"
proof (induction k v m rule: map_insert.induct)
  case (2 k v k' v' m)
  moreover have "\<not> k < k'"
    using 2 by (force simp: map_find_def dest: map_of_SomeD split: if_splits)
  ultimately show ?case by (auto simp: map_find_def split: if_splits)
qed (simp add: map_find_def)

lemma set_map_insert_absent:
  "map_find k m = None \<Longrightarrow> set (map_insert k v m) = insert (k, v) (set m)"
  by (induction k v m rule: map_insert.induct) (auto simp: map_find_def split: if_splits)

lemma map_find_in_set: "map_ok m \<Longrightarrow> map_find k m = Some v \<longleftrightarrow> (k, v) \<in> set m"
  by (simp add: map_find_def map_ok_distinct)

lemma set_map_erase: "set (map_erase k m) = {(k', v) \<in> set m. k' \<noteq> k}"
  by (auto simp: map_erase_def)

lemma length_map_erase: "map_find k m \<noteq> None \<Longrightarrow> length (map_erase k m) < length m"
  by (induction m) (auto simp: map_find_def map_erase_def less_Suc_eq_le split: if_splits)

text \<open>Sums over the entries of a map, as the space accounting needs them.\<close>

definition map_sum :: "('v \<Rightarrow> nat) \<Rightarrow> ('k::linorder, 'v) std_map \<Rightarrow> nat" where
  "map_sum f m = sum_list (map (f \<circ> snd) m)"

lemma map_sum_Nil [simp]: "map_sum f [] = 0"
  by (simp add: map_sum_def)

lemma map_sum_insert: "map_find k m = None \<Longrightarrow> map_sum f (map_insert k v m) = f v + map_sum f m"
  by (induction k v m rule: map_insert.induct) (auto simp: map_sum_def map_find_def split: if_splits)

lemma map_sum_erase:
  "map_ok m \<Longrightarrow> map_find k m = Some v \<Longrightarrow> map_sum f (map_erase k m) + f v = map_sum f m"
proof (induction m)
  case (Cons p m)
  obtain k' v' where p: "p = (k', v')" by fastforce
  show ?case
  proof (cases "k' = k")
    case True
    with p Cons.prems have "map_erase k m = m"
      by (auto simp: map_erase_def image_iff intro!: filter_True)
    with True p Cons.prems show ?thesis by (simp add: map_sum_def map_erase_def map_find_def)
  next
    case False
    with p Cons show ?thesis by (simp add: map_sum_def map_erase_def map_find_def)
  qed
qed (simp add: map_find_def)

lemma map_sum_assign:
  "map_ok m \<Longrightarrow> map_find k m = Some v \<Longrightarrow> map_sum f (map_assign k v' m) + f v = map_sum f m + f v'"
proof (induction m)
  case (Cons p m)
  obtain k1 v1 where p: "p = (k1, v1)" by fastforce
  show ?case
  proof (cases "k1 = k")
    case True
    with p Cons.prems have "map_assign k v' m = m"
      unfolding map_assign_def by (intro map_idI) force
    with True p Cons.prems show ?thesis by (simp add: map_sum_def map_assign_def map_find_def)
  next
    case False
    with p Cons show ?thesis by (simp add: map_sum_def map_assign_def map_find_def)
  qed
qed (simp add: map_find_def)

end
