(* ===== verification/Cache_Map.thy ===== *)
theory Cache_Map
  imports Cache_Policy Std_Map
begin

text \<open>
  The map of \<^verbatim>\<open>libcore/src/transfer/CacheMap.hpp\<close> that a cache layer and its policy share:
  the entries, the two iterator classes, and \<open>alloc\<close>, which evicts until the policy is content.
  The policy is used through its table of virtual functions and the owner through the one
  function the map calls back, \<open>destroyCacheEntry\<close>. An iterator is the key it stands on, \<open>None\<close> for
  \<open>end()\<close>; using an iterator that stands on no entry is undefined behaviour, the value
  \<open>Invalid_iterator\<close>. Locks are not represented: an iterator holds the map's lock for its whole
  life, so its operations run without interference. The lemmas are proved once for every policy
  that keeps the contract.
\<close>

section \<open>The map and its iterators\<close>

record ('f, 'e, 'h, 'p, 'o) cache_map =
  mMap :: "('f, 'e option \<times> 'h \<times> u64) std_map"
  mPolicy :: 'p
  mOwner :: 'o

datatype ub = Invalid_iterator

type_synonym ('o, 'f, 'e) destroy_entry = "'f \<Rightarrow> 'e option \<Rightarrow> u64 \<Rightarrow> 'o \<Rightarrow> 'o"

definition CacheMap_init :: "'p \<Rightarrow> 'o \<Rightarrow> ('f::linorder, 'e, 'h, 'p, 'o) cache_map" where
  "CacheMap_init policy owner = \<lparr>mMap = [], mPolicy = policy, mOwner = owner\<rparr>"

definition iter_find :: "'f::linorder \<Rightarrow> ('f, 'e, 'h, 'p, 'o) cache_map \<Rightarrow> 'f option" where
  "iter_find fid cm = (if map_find fid (mMap cm) \<noteq> None then Some fid else None)"

definition iter_entry :: "('f::linorder, 'e, 'h, 'p, 'o) cache_map \<Rightarrow> 'f option
    \<Rightarrow> ub + ('f \<times> 'e option \<times> 'h \<times> u64)" where
  "iter_entry cm it =
     (case it of
        None \<Rightarrow> Inl Invalid_iterator
      | Some fid \<Rightarrow> (case map_find fid (mMap cm) of
                      None \<Rightarrow> Inl Invalid_iterator
                    | Some (e, h, sz) \<Rightarrow> Inr (fid, e, h, sz)))"

text \<open>\<open>operator*\<close>, read and assigned through a \<open>write_iterator\<close>.\<close>

definition iter_deref :: "('f::linorder, 'e, 'h, 'p, 'o) cache_map \<Rightarrow> 'f option \<Rightarrow> ub + 'e option" where
  "iter_deref cm it = (case iter_entry cm it of Inl u \<Rightarrow> Inl u | Inr (_, e, _, _) \<Rightarrow> Inr e)"

definition iter_assign :: "'e option \<Rightarrow> ('f::linorder, 'e, 'h, 'p, 'o) cache_map \<Rightarrow> 'f option
    \<Rightarrow> ub + ('f, 'e, 'h, 'p, 'o) cache_map" where
  "iter_assign e' cm it =
     (case iter_entry cm it of
        Inl u \<Rightarrow> Inl u
      | Inr (fid, _, h, sz) \<Rightarrow> Inr (cm\<lparr>mMap := map_assign fid (e', h, sz) (mMap cm)\<rparr>))"

definition iter_use :: "('p, 'f, 'h) policy_ops \<Rightarrow> ('f::linorder, 'e, 'h, 'p, 'o) cache_map
    \<Rightarrow> 'f option \<Rightarrow> ub + ('f, 'e, 'h, 'p, 'o) cache_map" where
  "iter_use vt cm it =
     (case iter_entry cm it of
        Inl u \<Rightarrow> Inl u
      | Inr (fid, _, h, sz) \<Rightarrow> Inr (cm\<lparr>mPolicy := op_use vt fid h sz (mPolicy cm)\<rparr>))"

definition iter_update :: "('p, 'f, 'h) policy_ops \<Rightarrow> u64 \<Rightarrow> ('f::linorder, 'e, 'h, 'p, 'o) cache_map
    \<Rightarrow> 'f option \<Rightarrow> ub + ('f, 'e, 'h, 'p, 'o) cache_map" where
  "iter_update vt newSize cm it =
     (case iter_entry cm it of
        Inl u \<Rightarrow> Inl u
      | Inr (fid, e, h, oldSize) \<Rightarrow>
          Inr (cm\<lparr>mMap := map_assign fid (e, h, newSize) (mMap cm),
                  mPolicy := op_useAndUpdate vt fid h oldSize newSize (mPolicy cm)\<rparr>))"

definition iter_erase :: "('p, 'f, 'h) policy_ops \<Rightarrow> ('o, 'f, 'e) destroy_entry
    \<Rightarrow> ('f::linorder, 'e, 'h, 'p, 'o) cache_map \<Rightarrow> 'f option
    \<Rightarrow> ub + (('f, 'e, 'h, 'p, 'o) cache_map \<times> 'f option)" where
  "iter_erase vt destroyCacheEntry cm it =
     (case iter_entry cm it of
        Inl u \<Rightarrow> Inl u
      | Inr (fid, e, h, sz) \<Rightarrow>
          Inr (cm\<lparr>mPolicy := op_destroy vt fid h sz (mPolicy cm),
                  mOwner := destroyCacheEntry fid e sz (mOwner cm),
                  mMap := map_erase fid (mMap cm)\<rparr>, None))"

text \<open>The loop of \<open>eraseAll\<close> from the current position; the map is cleared after it.\<close>

fun eraseAll_loop :: "('p, 'f, 'h) policy_ops \<Rightarrow> ('o, 'f, 'e) destroy_entry
    \<Rightarrow> ('f \<times> 'e option \<times> 'h \<times> u64) list \<Rightarrow> 'p \<Rightarrow> 'o \<Rightarrow> 'p \<times> 'o" where
  "eraseAll_loop vt destroyCacheEntry [] p ow = (p, ow)"
| "eraseAll_loop vt destroyCacheEntry ((fid, e, h, sz) # rest) p ow =
     eraseAll_loop vt destroyCacheEntry rest (op_destroy vt fid h sz p) (destroyCacheEntry fid e sz ow)"

definition iter_eraseAll :: "('p, 'f, 'h) policy_ops \<Rightarrow> ('o, 'f, 'e) destroy_entry
    \<Rightarrow> ('f::linorder, 'e, 'h, 'p, 'o) cache_map \<Rightarrow> ('f, 'e, 'h, 'p, 'o) cache_map" where
  "iter_eraseAll vt destroyCacheEntry cm =
     (case eraseAll_loop vt destroyCacheEntry (mMap cm) (mPolicy cm) (mOwner cm) of
        (p, ow) \<Rightarrow> cm\<lparr>mMap := [], mPolicy := p, mOwner := ow\<rparr>)"

text \<open>
  \<open>insert\<close> returns the map, the iterator and whether the entry is new. The policy's handle is
  stored after the map has been extended; until then the entry holds no handle, so the model
  creates the handle first and stores the entry with it, which no other code can observe.
\<close>

definition iter_insert :: "('p, 'f, 'h) policy_ops \<Rightarrow> 'f \<Rightarrow> u64
    \<Rightarrow> ('f::linorder, 'e, 'h, 'p, 'o) cache_map
    \<Rightarrow> ('f, 'e, 'h, 'p, 'o) cache_map \<times> 'f option \<times> bool" where
  "iter_insert vt fid sz cm =
     (if map_find fid (mMap cm) \<noteq> None then (cm, Some fid, False)
      else (case op_create vt fid sz (mPolicy cm) of
              (h, p) \<Rightarrow> (cm\<lparr>mMap := map_insert fid (None, h, sz) (mMap cm), mPolicy := p\<rparr>, Some fid, True)))"

section \<open>Allocation\<close>

partial_function (option) alloc_loop :: "('p, 'f, 'h) policy_ops \<Rightarrow> ('o, 'f, 'e) destroy_entry
    \<Rightarrow> u64 \<Rightarrow> ('f::linorder, 'e, 'h, 'p, 'o) cache_map \<Rightarrow> 'f option
    \<Rightarrow> (ub + (('f, 'e, 'h, 'p, 'o) cache_map \<times> 'f option)) option" where
  "alloc_loop vt destroyCacheEntry required cm it =
     (case op_nextItem vt required (mPolicy cm) of
        None \<Rightarrow> Some (Inr (cm, it))
      | Some toDelete \<Rightarrow>
          (case iter_erase vt destroyCacheEntry cm (iter_find toDelete cm) of
             Inl u \<Rightarrow> Some (Inl u)
           | Inr (cm', it') \<Rightarrow> alloc_loop vt destroyCacheEntry required cm' it'))"

definition alloc :: "('p, 'f, 'h) policy_ops \<Rightarrow> ('o, 'f, 'e) destroy_entry
    \<Rightarrow> u64 \<Rightarrow> ('f::linorder, 'e, 'h, 'p, 'o) cache_map \<Rightarrow> 'f option
    \<Rightarrow> (ub + (('f, 'e, 'h, 'p, 'o) cache_map \<times> 'f option \<times> bool)) option" where
  "alloc vt destroyCacheEntry required cm it =
     (if \<not> op_cachable vt required (mPolicy cm) then Some (Inr (cm, it, False))
      else (case alloc_loop vt destroyCacheEntry required cm it of
              None \<Rightarrow> None
            | Some (Inl u) \<Rightarrow> Some (Inl u)
            | Some (Inr (cm', it')) \<Rightarrow> Some (Inr (cm', it', True))))"

lemmas iter_defs [step_defs] =
  iter_find_def iter_entry_def iter_deref_def iter_assign_def iter_use_def iter_update_def
  iter_erase_def iter_insert_def

section \<open>Invariant\<close>

text \<open>
  The sizes recorded in the map, the pairs the policy tracks and the space the policy believes
  free always tell the same story.
\<close>

definition map_sizes :: "('f::linorder, 'e option \<times> 'h \<times> u64) std_map \<Rightarrow> nat" where
  "map_sizes m = map_sum (\<lambda>(_, _, sz). unat sz) m"

definition handles :: "('f::linorder, 'e option \<times> 'h \<times> u64) std_map \<Rightarrow> ('h \<times> 'f) set" where
  "handles m = (\<lambda>(f, _, h, _). (h, f)) ` set m"

definition cm_ok :: "('p \<Rightarrow> ('h \<times> 'f) set) \<Rightarrow> ('p \<Rightarrow> u64) \<Rightarrow> ('p \<Rightarrow> u64) \<Rightarrow> ('p \<Rightarrow> bool)
    \<Rightarrow> ('f::linorder, 'e, 'h, 'p, 'o) cache_map \<Rightarrow> bool" where
  "cm_ok tracked free capacity policy_ok cm \<longleftrightarrow>
     map_ok (mMap cm) \<and> policy_ok (mPolicy cm)
     \<and> tracked (mPolicy cm) = handles (mMap cm)
     \<and> inj_on fst (handles (mMap cm))
     \<and> free (mPolicy cm) = capacity (mPolicy cm) - of_nat (map_sizes (mMap cm))"

lemma handles_erase:
  assumes "map_ok m" "inj_on fst (handles m)" "map_find f m = Some (e, h, sz)"
  shows "handles (map_erase f m) = {(h', f') \<in> handles m. h' \<noteq> h}"
proof -
  have mem: "(f, e, h, sz) \<in> set m" using assms(1,3) map_find_in_set by metis
  have "(h', f') \<in> handles (map_erase f m) \<longleftrightarrow> (h', f') \<in> handles m \<and> f' \<noteq> f" for h' f'
    by (force simp: handles_def set_map_erase)
  moreover have "(h', f') \<in> handles m \<Longrightarrow> f' \<noteq> f \<longleftrightarrow> h' \<noteq> h" for h' f'
  proof -
    assume hf: "(h', f') \<in> handles m"
    then obtain e' sz' where e': "(f', e', h', sz') \<in> set m" by (auto simp: handles_def)
    have "(h, f) \<in> handles m" using mem by (force simp: handles_def)
    then have "h' = h \<Longrightarrow> f' = f" using inj_onD [OF assms(2), of "(h', f')" "(h, f)"] hf by auto
    moreover have "f' = f \<Longrightarrow> h' = h"
      using e' mem assms(1) map_find_in_set [OF assms(1)] by (metis option.inject prod.inject)
    ultimately show ?thesis by blast
  qed
  ultimately show ?thesis by auto
qed

lemma handles_assign: "map_find f m = Some (e, h, sz) \<Longrightarrow> map_ok m \<Longrightarrow> handles (map_assign f (e', h, sz') m) = handles m"
proof -
  assume f: "map_find f m = Some (e, h, sz)" and ok: "map_ok m"
  have "(\<lambda>(f, _, h, _). (h, f)) ((\<lambda>(k', v'). (k', if k' = f then (e', h, sz') else v')) x)
      = (\<lambda>(f, _, h, _). (h, f)) x" if "x \<in> set m" for x
  proof -
    obtain k e1 h1 s1 where x: "x = (k, e1, h1, s1)" by (metis prod_cases4)
    with that have "map_find k m = Some (e1, h1, s1)" using map_find_in_set [OF ok] by blast
    with f x show ?thesis by auto
  qed
  then show ?thesis
    unfolding handles_def map_assign_def set_map image_image by (rule image_cong [OF refl])
qed

lemma handles_insert:
  "map_find f m = None \<Longrightarrow> handles (map_insert f (e, h, sz) m) = insert (h, f) (handles m)"
  by (simp add: handles_def set_map_insert_absent)

lemma map_find_handle: "map_ok m \<Longrightarrow> map_find f m = Some (e, h, sz) \<Longrightarrow> (h, f) \<in> handles m"
  by (force simp: handles_def map_find_in_set)

section \<open>Every policy of the contract: the operations keep the invariant\<close>

context cache_policy
begin

abbreviation ok :: "('f, 'e, 'h, 'p, 'o) cache_map \<Rightarrow> bool" where
  "ok cm \<equiv> cm_ok tracked free capacity policy_ok cm"

abbreviation same_config :: "'p \<Rightarrow> 'p \<Rightarrow> bool" where
  "same_config p p' \<equiv> capacity p' = capacity p \<and> (\<forall>req. op_cachable vt req p' = op_cachable vt req p)"

lemma ok_handle: "ok cm \<Longrightarrow> map_find f (mMap cm) = Some (e, h, sz) \<Longrightarrow> (h, f) \<in> tracked (mPolicy cm)"
  by (auto simp: cm_ok_def map_find_handle)

lemma iter_erase_ok:
  assumes "ok cm" "map_find f (mMap cm) = Some (e, h, sz)"
  shows "\<exists>cm'. iter_erase vt dcb cm (Some f) = Inr (cm', None) \<and> ok cm'
    \<and> mMap cm' = map_erase f (mMap cm) \<and> same_config (mPolicy cm) (mPolicy cm')
    \<and> mOwner cm' = dcb f e sz (mOwner cm)"
proof -
  note d = destroy [OF _ ok_handle [OF assms], of sz]
  have "map_sizes (map_erase f (mMap cm)) + unat sz = map_sizes (mMap cm)"
    using map_sum_erase [of "mMap cm" f _ "\<lambda>(_, _, sz). unat sz"] assms
    by (auto simp: cm_ok_def map_sizes_def)
  then have "(of_nat (map_sizes (map_erase f (mMap cm))) :: u64) = of_nat (map_sizes (mMap cm)) + 0 - sz"
    by (intro of_nat_exchange) simp
  moreover have "inj_on fst (handles (map_erase f (mMap cm)))"
    using assms by (auto simp: cm_ok_def handles_erase intro: inj_on_subset)
  ultimately show ?thesis
    using assms d by (simp add: iter_erase_def iter_entry_def cm_ok_def map_ok_erase handles_erase)
qed

lemma iter_update_ok:
  assumes "ok cm" "map_find f (mMap cm) = Some (e, h, sz)"
  shows "\<exists>cm'. iter_update vt new cm (Some f) = Inr cm' \<and> ok cm'
    \<and> mMap cm' = map_assign f (e, h, new) (mMap cm) \<and> same_config (mPolicy cm) (mPolicy cm')"
proof -
  note u = useAndUpdate [OF _ ok_handle [OF assms], of sz new]
  have "map_sizes (map_assign f (e, h, new) (mMap cm)) + unat sz = map_sizes (mMap cm) + unat new"
    using map_sum_assign [of "mMap cm" f _ "\<lambda>(_, _, sz). unat sz" "(e, h, new)"] assms
    by (auto simp: cm_ok_def map_sizes_def)
  then have "(of_nat (map_sizes (map_assign f (e, h, new) (mMap cm))) :: u64)
      = of_nat (map_sizes (mMap cm)) + new - sz"
    by (rule of_nat_exchange)
  with assms u show ?thesis
    by (simp add: iter_update_def iter_entry_def cm_ok_def map_ok_assign handles_assign)
qed

lemma iter_use_ok:
  assumes "ok cm" "map_find f (mMap cm) = Some (e, h, sz)"
  shows "\<exists>cm'. iter_use vt cm (Some f) = Inr cm' \<and> ok cm' \<and> mMap cm' = mMap cm
    \<and> same_config (mPolicy cm) (mPolicy cm')"
  using assms use [OF _ ok_handle [OF assms], of sz]
  by (simp add: iter_use_def iter_entry_def cm_ok_def)

lemma iter_assign_ok:
  assumes "ok cm" "map_find f (mMap cm) = Some (e, h, sz)"
  shows "\<exists>cm'. iter_assign e' cm (Some f) = Inr cm' \<and> ok cm'
    \<and> mMap cm' = map_assign f (e', h, sz) (mMap cm) \<and> mPolicy cm' = mPolicy cm"
proof -
  have "map_sizes (map_assign f (e', h, sz) (mMap cm)) = map_sizes (mMap cm)"
    using map_sum_assign [of "mMap cm" f _ "\<lambda>(_, _, sz). unat sz" "(e', h, sz)"] assms
    by (auto simp: cm_ok_def map_sizes_def)
  with assms show ?thesis
    by (simp add: iter_assign_def iter_entry_def cm_ok_def map_ok_assign handles_assign)
qed

lemma iter_insert_ok:
  assumes "ok cm" "map_find f (mMap cm) = None"
  shows "\<exists>cm' h. iter_insert vt f sz cm = (cm', Some f, True) \<and> ok cm'
    \<and> mMap cm' = map_insert f (None, h, sz) (mMap cm) \<and> same_config (mPolicy cm) (mPolicy cm')"
proof -
  obtain h p where hp: "op_create vt f sz (mPolicy cm) = (h, p)" by fastforce
  note c = create [OF _ hp]
  have "map_sizes (map_insert f (None, h, sz) (mMap cm)) = unat sz + map_sizes (mMap cm)"
    using assms by (simp add: map_sizes_def map_sum_insert)
  moreover have "inj_on fst (insert (h, f) (handles (mMap cm)))"
    using assms c by (auto simp: cm_ok_def)
  ultimately show ?thesis
    using assms c
    by (intro exI [of _ "cm\<lparr>mMap := map_insert f (None, h, sz) (mMap cm), mPolicy := p\<rparr>"] exI [of _ h])
       (simp add: iter_insert_def hp cm_ok_def map_ok_insert handles_insert)
qed

text \<open>
  Eviction ends: each round erases an entry that is in the map. No iterator is used while
  invalid, entries that survive are unchanged, and at the end the policy has room or the map
  is empty.
\<close>

lemma alloc_loop_ok:
  assumes "ok cm"
  shows "\<exists>cm' it'. alloc_loop vt dcb req cm it = Some (Inr (cm', it')) \<and> ok cm'
    \<and> (sint req \<le> sint (free (mPolicy cm')) \<or> mMap cm' = [])
    \<and> same_config (mPolicy cm) (mPolicy cm')
    \<and> (\<forall>f v. map_find f (mMap cm') = Some v \<longrightarrow> map_find f (mMap cm) = Some v)
    \<and> map_sizes (mMap cm') \<le> map_sizes (mMap cm)"
  using assms
proof (induction "length (mMap cm)" arbitrary: cm it rule: less_induct)
  case less
  show ?case
  proof (cases "op_nextItem vt req (mPolicy cm)")
    case None
    then have "sint req \<le> sint (free (mPolicy cm)) \<or> mMap cm = []"
      using nextItem_None less.prems by (fastforce simp: cm_ok_def handles_def)
    with None less.prems show ?thesis
      by (simp add: alloc_loop.simps [of vt dcb req cm it])
  next
    case (Some f)
    have "f \<in> snd ` tracked (mPolicy cm)"
      using nextItem_Some [OF _ Some] less.prems by (simp add: cm_ok_def)
    then obtain h where "(h, f) \<in> handles (mMap cm)"
      using less.prems by (auto simp: cm_ok_def)
    then obtain e sz where "(f, e, h, sz) \<in> set (mMap cm)"
      by (auto simp: handles_def)
    then have find: "map_find f (mMap cm) = Some (e, h, sz)"
      using less.prems map_find_in_set [of "mMap cm"] by (simp add: cm_ok_def)
    obtain cm1 where cm1: "iter_erase vt dcb cm (Some f) = Inr (cm1, None)" "ok cm1"
      "mMap cm1 = map_erase f (mMap cm)" "same_config (mPolicy cm) (mPolicy cm1)"
      using iter_erase_ok [OF less.prems find] by blast
    have step: "alloc_loop vt dcb req cm it = alloc_loop vt dcb req cm1 None"
      using Some find cm1(1) by (simp add: alloc_loop.simps [of vt dcb req cm it] iter_find_def)
    have "length (mMap cm1) < length (mMap cm)"
      using find cm1(3) by (simp add: length_map_erase)
    then obtain cm' it' where IH: "alloc_loop vt dcb req cm1 None = Some (Inr (cm', it'))" "ok cm'"
      "sint req \<le> sint (free (mPolicy cm')) \<or> mMap cm' = []"
      "same_config (mPolicy cm1) (mPolicy cm')"
      "\<forall>f v. map_find f (mMap cm') = Some v \<longrightarrow> map_find f (mMap cm1) = Some v"
      "map_sizes (mMap cm') \<le> map_sizes (mMap cm1)"
      using less.hyps [of cm1 None] cm1(2) by blast
    have "map_sizes (mMap cm1) \<le> map_sizes (mMap cm)"
      unfolding cm1(3) map_sizes_def map_sum_def map_erase_def by (rule sum_list_filter_le)
    then have "map_sizes (mMap cm') \<le> map_sizes (mMap cm)" using IH(6) by simp
    moreover have "\<forall>f v. map_find f (mMap cm') = Some v \<longrightarrow> map_find f (mMap cm) = Some v"
      using IH(5) cm1(3) map_find_erase by (metis option.distinct(1))
    ultimately show ?thesis
      using IH(1-4) cm1(4) unfolding step by (intro exI [of _ cm'] exI [of _ it']) simp
  qed
qed

text \<open>\<open>eraseAll\<close> empties map and policy together.\<close>

lemma eraseAll_loop_ok:
  assumes "map_ok m" "policy_ok p" "tracked p = handles m" "inj_on fst (handles m)"
    and "free p = capacity p - of_nat (map_sizes m)"
    and "eraseAll_loop vt dcb m p ow = (p', ow')"
  shows "policy_ok p' \<and> tracked p' = {} \<and> free p' = capacity p' \<and> capacity p' = capacity p"
  using assms
proof (induction m arbitrary: p ow)
  case Nil
  then show ?case by (simp add: handles_def map_sizes_def)
next
  case (Cons x m)
  obtain f e h sz where x: "x = (f, e, h, sz)" by (metis prod_cases4)
  let ?p = "op_destroy vt f h sz p"
  have find: "map_find f (x # m) = Some (e, h, sz)" by (simp add: x map_find_def)
  have erase: "map_erase f (x # m) = m"
    using Cons.prems(1) x by (auto simp: map_erase_def intro!: filter_True)
  have d: "policy_ok ?p \<and> tracked ?p = {(h', f') \<in> tracked p. h' \<noteq> h}
      \<and> free ?p = free p + sz \<and> capacity ?p = capacity p"
    using destroy [of p h f sz] Cons.prems(2,3) x by (auto simp: handles_def)
  have "handles m = {(h', f') \<in> handles (x # m). h' \<noteq> h}"
    using handles_erase [OF Cons.prems(1,4) find] by (simp add: erase)
  moreover from this have "inj_on fst (handles m)"
    using Cons.prems(4) by (elim inj_on_subset) auto
  moreover have "map_sizes (x # m) = unat sz + map_sizes m"
    by (simp add: map_sizes_def map_sum_def x)
  ultimately show ?case
    using Cons.IH [of ?p "dcb f e sz ow"] Cons.prems d x by simp
qed

lemma iter_eraseAll_ok:
  assumes "ok cm"
  shows "ok (iter_eraseAll vt dcb cm) \<and> mMap (iter_eraseAll vt dcb cm) = []
    \<and> free (mPolicy (iter_eraseAll vt dcb cm)) = capacity (mPolicy cm)"
proof -
  obtain p' ow' where "eraseAll_loop vt dcb (mMap cm) (mPolicy cm) (mOwner cm) = (p', ow')" by fastforce
  with assms eraseAll_loop_ok [OF _ _ _ _ _ this] show ?thesis
    by (auto simp: cm_ok_def iter_eraseAll_def handles_def map_sizes_def)
qed

end

end
