(* ===== verification/Cache_Layers.thy ===== *)
theory Cache_Layers
  imports Cache_Map Transfer_Data
begin

text \<open>
  The layers of \<^verbatim>\<open>libcore/src/transfer/CacheLayer.hpp\<close> and \<^verbatim>\<open>MemoryCacheLayer.hpp\<close>. The links
  between layers (\<open>mRespondTo\<close>, \<open>mNext\<close>) are a store of link records; a well-linked chain of
  memory layers is then the list of its maps, the layer asked first at the head. A request that
  a layer cannot answer goes to the rest of the list; what a layer finds goes up through the
  layers before it. The lemmas show that a memory layer never exceeds the space of its policy,
  never uses an invalid iterator, serves what was put in, and only serves bytes of the file.
\<close>

section \<open>Links between layers\<close>

record layer_link =
  mRespondTo :: "nat option"
  mNext :: "nat option"

type_synonym links = "nat \<Rightarrow> layer_link"

definition setResponder :: "nat \<Rightarrow> nat option \<Rightarrow> links \<Rightarrow> links" where
  "setResponder this other ls = ls(this := (ls this)\<lparr>mRespondTo := other\<rparr>)"

definition CacheLayer_init :: "nat \<Rightarrow> nat option \<Rightarrow> links \<Rightarrow> links" where
  "CacheLayer_init this tryNext ls =
     (let ls = ls(this := \<lparr>mRespondTo = None, mNext = tryNext\<rparr>)
      in case tryNext of None \<Rightarrow> ls | Some n \<Rightarrow> setResponder n (Some this) ls)"

definition CacheLayer_destroy :: "nat \<Rightarrow> links \<Rightarrow> links" where
  "CacheLayer_destroy this ls =
     (case mNext (ls this) of None \<Rightarrow> ls | Some n \<Rightarrow> setResponder n None ls)"

definition setRespondTo :: "nat \<Rightarrow> nat option \<Rightarrow> links \<Rightarrow> links" where
  "setRespondTo this newRespond ls = ls(this := (ls this)\<lparr>mRespondTo := newRespond\<rparr>)"

definition setNext :: "nat \<Rightarrow> nat option \<Rightarrow> links \<Rightarrow> links" where
  "setNext this newNext ls =
     (let ls = (case mNext (ls this) of None \<Rightarrow> ls | Some n \<Rightarrow> setResponder n None ls);
          ls = ls(this := (ls this)\<lparr>mNext := newNext\<rparr>)
      in case newNext of None \<Rightarrow> ls | Some n \<Rightarrow> setResponder n (Some this) ls)"

text \<open>Every layer that names a next layer is the one that layer responds to.\<close>

definition links_ok :: "links \<Rightarrow> bool" where
  "links_ok ls \<longleftrightarrow> (\<forall>a b. mNext (ls a) = Some b \<longrightarrow> mRespondTo (ls b) = Some a)"

section \<open>MemoryCacheLayer\<close>

type_synonym ('f, 'h, 'p, 'o) memory_layer = "('f, sparse_data, 'h, 'p, 'o) cache_map"

datatype layer_error = Map_error ub | Null_pointer

definition lift_ub :: "ub + 'a \<Rightarrow> layer_error + 'a" where
  "lift_ub x = (case x of Inl u \<Rightarrow> Inl (Map_error u) | Inr a \<Rightarrow> Inr a)"

text \<open>The entry's data is freed; the layer keeps no other trace of it.\<close>

definition mem_destroyCacheEntry :: "('o, 'f, sparse_data) destroy_entry" where
  "mem_destroyCacheEntry fileId cacheLayerData releaseSize owner = owner"

text \<open>
  The part of \<open>populateCache\<close> that holds the write lock. On a new entry the fresh, empty
  \<open>CacheData\<close> is stored and then filled through the pointer; on an old one the data behind the
  pointer is changed and the entry resized.
\<close>

definition mem_store :: "('p, 'f, 'h) policy_ops \<Rightarrow> 'f \<Rightarrow> dense_data
    \<Rightarrow> ('f::linorder, 'h, 'p, 'o) memory_layer \<Rightarrow> 'f option
    \<Rightarrow> layer_error + ('f, 'h, 'p, 'o) memory_layer" where
  "mem_store vt fileId respondData cm writer =
     (case iter_insert vt fileId (range_length respondData) cm of
        (cm, writer, newentry) \<Rightarrow>
          if newentry
          then sum_bind (lift_ub (iter_assign (Some []) cm writer)) (\<lambda>cm.
               sum_bind (lift_ub (iter_assign (Some (addValidData respondData [])) cm writer)) (\<lambda>cm.
               lift_ub (iter_use vt cm writer)))
          else sum_bind (lift_ub (iter_deref cm writer)) (\<lambda>cdata.
               case cdata of
                 None \<Rightarrow> Inl Null_pointer
               | Some mSparse \<Rightarrow>
                   (let mSparse' = addValidData respondData mSparse
                    in sum_bind (lift_ub (iter_assign (Some mSparse') cm writer)) (\<lambda>cm.
                       lift_ub (iter_update vt (getSpaceUsed mSparse') cm writer)))))"

definition mem_populate :: "('p, 'f, 'h) policy_ops \<Rightarrow> 'f \<Rightarrow> dense_data
    \<Rightarrow> ('f::linorder, 'h, 'p, 'o) memory_layer
    \<Rightarrow> (layer_error, ('f, 'h, 'p, 'o) memory_layer) run" where
  "mem_populate vt fileId respondData cm =
     (case alloc vt mem_destroyCacheEntry (range_length respondData) cm None of
        None \<Rightarrow> None
      | Some (Inl u) \<Rightarrow> Some (Inl (Map_error u))
      | Some (Inr (cm, writer, allocated)) \<Rightarrow>
          if allocated then Some (mem_store vt fileId respondData cm writer) else Some (Inr cm))"

text \<open>\<open>populateCache\<close> on a layer and, through \<open>populateParentCaches\<close>, on the layers above it.\<close>

fun populateCache :: "('p, 'f, 'h) policy_ops \<Rightarrow> 'f \<Rightarrow> dense_data
    \<Rightarrow> ('f::linorder, 'h, 'p, 'o) memory_layer list
    \<Rightarrow> (layer_error, ('f, 'h, 'p, 'o) memory_layer list) run" where
  "populateCache vt fileId data [] = Some (Inr [])"
| "populateCache vt fileId data (l # parents) =
     run_bind (mem_populate vt fileId data l) (\<lambda>l.
     run_bind (populateCache vt fileId data parents) (\<lambda>parents. Some (Inr (l # parents))))"

fun populate_blocks :: "('p, 'f, 'h) policy_ops \<Rightarrow> 'f \<Rightarrow> sparse_data
    \<Rightarrow> ('f::linorder, 'h, 'p, 'o) memory_layer list
    \<Rightarrow> (layer_error, ('f, 'h, 'p, 'o) memory_layer list) run" where
  "populate_blocks vt fileId [] parents = Some (Inr parents)"
| "populate_blocks vt fileId (d # ds) parents =
     run_bind (populateCache vt fileId d parents) (populate_blocks vt fileId ds)"

text \<open>The part of \<open>getData\<close> that holds the read lock: the data found, if it covers the request.\<close>

definition mem_lookup :: "'f \<Rightarrow> 'a range_scheme \<Rightarrow> ('f::linorder, 'h, 'p, 'o) memory_layer
    \<Rightarrow> layer_error + sparse_data option" where
  "mem_lookup fileId requestedRange cm =
     (case iter_find fileId cm of
        None \<Rightarrow> Inr None
      | it \<Rightarrow> sum_bind (lift_ub (iter_deref cm it)) (\<lambda>cdata.
               case cdata of
                 None \<Rightarrow> Inl Null_pointer
               | Some mSparse \<Rightarrow>
                   Inr (if isContainedBy_list requestedRange mSparse then Some mSparse else None)))"

text \<open>
  \<open>getData\<close> on the first layer of \<open>this # next\<close>, with the layers above it, the nearest first. The
  result is the whole chain from the top and the argument of the callback, \<open>None\<close> for \<open>NULL\<close>.
\<close>

fun mem_getData :: "('p, 'f, 'h) policy_ops \<Rightarrow> 'f \<Rightarrow> 'a range_scheme
    \<Rightarrow> ('f::linorder, 'h, 'p, 'o) memory_layer list \<Rightarrow> ('f, 'h, 'p, 'o) memory_layer list
    \<Rightarrow> (layer_error, ('f, 'h, 'p, 'o) memory_layer list \<times> sparse_data option) run" where
  "mem_getData vt fileId requestedRange parents [] = Some (Inr (rev parents, None))"
| "mem_getData vt fileId requestedRange parents (this # next) =
     (case mem_lookup fileId requestedRange this of
        Inl e \<Rightarrow> Some (Inl e)
      | Inr (Some foundData) \<Rightarrow>
          run_bind (populate_blocks vt fileId foundData parents) (\<lambda>parents.
            Some (Inr (rev parents @ this # next, Some foundData)))
      | Inr None \<Rightarrow> mem_getData vt fileId requestedRange (this # parents) next)"

fun mem_purgeFromCache :: "('p, 'f, 'h) policy_ops \<Rightarrow> 'f
    \<Rightarrow> ('f::linorder, 'h, 'p, 'o) memory_layer list
    \<Rightarrow> layer_error + ('f, 'h, 'p, 'o) memory_layer list" where
  "mem_purgeFromCache vt fileId [] = Inr []"
| "mem_purgeFromCache vt fileId (l # next) =
     sum_bind (case iter_find fileId l of
                 None \<Rightarrow> Inr l
               | it \<Rightarrow> sum_bind (lift_ub (iter_erase vt mem_destroyCacheEntry l it)) (\<lambda>(l, _). Inr l))
       (\<lambda>l. sum_bind (mem_purgeFromCache vt fileId next) (\<lambda>next. Inr (l # next)))"

section \<open>Invariant of a memory layer\<close>

definition space :: "sparse_data \<Rightarrow> nat" where
  "space s = sum_list (map (\<lambda>d. unat (mLength d)) s)"

text \<open>The blocks hold the bytes of the file \<open>content\<close>.\<close>

definition agrees :: "(u64 \<Rightarrow> u8) \<Rightarrow> dense_data \<Rightarrow> bool" where
  "agrees content d \<longleftrightarrow> (\<forall>i<length (mData d). mData d ! i = content (mStart d + of_nat i))"

definition blocks_ok :: "(u64 \<Rightarrow> u8) \<Rightarrow> sparse_data \<Rightarrow> bool" where
  "blocks_ok content s \<longleftrightarrow> range_list_ok s \<and> (\<forall>d\<in>set s. dense_ok d \<and> agrees content d)"

definition entry_ok :: "(u64 \<Rightarrow> u8) \<Rightarrow> sparse_data option \<times> 'h \<times> u64 \<Rightarrow> bool" where
  "entry_ok content v =
     (case v of (None, _, _) \<Rightarrow> False | (Some s, _, sz) \<Rightarrow> blocks_ok content s \<and> unat sz = space s)"

definition entries_ok :: "('f \<Rightarrow> u64 \<Rightarrow> u8) \<Rightarrow> ('f::linorder, 'h, 'p, 'o) memory_layer \<Rightarrow> bool" where
  "entries_ok files cm \<longleftrightarrow> (\<forall>(f, v)\<in>set (mMap cm). entry_ok (files f) v)"

text \<open>The sizes of all entries fit the space the policy was given.\<close>

definition within_capacity :: "('p \<Rightarrow> u64) \<Rightarrow> ('f::linorder, 'h, 'p, 'o) memory_layer \<Rightarrow> bool" where
  "within_capacity capacity cm \<longleftrightarrow>
     map_sizes (mMap cm) \<le> unat (capacity (mPolicy cm)) \<and> unat (capacity (mPolicy cm)) < 2 ^ 63"

lemma entries_okD:
  "entries_ok files cm \<Longrightarrow> map_ok (mMap cm) \<Longrightarrow> map_find f (mMap cm) = Some v \<Longrightarrow> entry_ok (files f) v"
  by (auto simp: entries_ok_def map_find_in_set)

lemma entries_okI:
  "map_ok (mMap cm) \<Longrightarrow> (\<And>f v. map_find f (mMap cm) = Some v \<Longrightarrow> entry_ok (files f) v) \<Longrightarrow> entries_ok files cm"
  by (auto simp: entries_ok_def map_find_in_set)

subsection \<open>Space of a sparse file\<close>

lemma foldl_space: "foldl (\<lambda>len d. len + range_length d) a s = a + of_nat (space s)"
  by (induction s arbitrary: a) (simp_all add: space_def range_length_def add.assoc)

lemma getSpaceUsed_space: "getSpaceUsed s = of_nat (space s)"
  by (simp add: getSpaceUsed_def foldl_space)

lemma space_add: "space (addValidData d s) \<le> space s + unat (mLength d)"
proof -
  obtain m e bef aft where scan: "add_scan (startbyte d) (startbyte d) False s = (m, e, bef, aft)"
    by (metis prod_cases4)
  then have "s = bef @ aft" by (rule add_scan_split)
  moreover have "space (add_erase d aft) \<le> space aft"
    unfolding space_def add_erase_def by (rule sum_list_filter_le)
  ultimately show ?thesis
    using scan by (auto simp: addValidData_def addToList_def space_def)
qed

lemma set_addValidData: "set (addValidData d s) \<subseteq> insert d (set s)"
proof -
  obtain m e bef aft where scan: "add_scan (startbyte d) (startbyte d) False s = (m, e, bef, aft)"
    by (metis prod_cases4)
  then have "s = bef @ aft" by (rule add_scan_split)
  with scan show ?thesis by (auto simp: addValidData_def addToList_def add_erase_def)
qed

lemma blocks_ok_add:
  assumes "blocks_ok content s" "range_ok d" "dense_ok d" "agrees content d"
  shows "blocks_ok content (addValidData d s)"
  using assms set_addValidData [of d s] addToList_ok [of s d d]
  by (auto simp: blocks_ok_def addValidData_def)

lemma blocks_ok_Nil [simp]: "blocks_ok content []"
  by (simp add: blocks_ok_def range_list_ok_def)

lemma space_single: "range_ok d \<Longrightarrow> space (addValidData d []) = unat (mLength d)"
  using range_ok_iff [of d]
  by (auto simp: addValidData_def addToList_def space_def add_erase_def range_ok_def range_length_def)

subsection \<open>Storing a block\<close>

text \<open>The largest request the policy admits fits the cache; stated of a policy's table.\<close>

definition admits_fitting :: "('p, 'f, 'h) policy_ops \<Rightarrow> ('p \<Rightarrow> u64) \<Rightarrow> 'p \<Rightarrow> bool" where
  "admits_fitting vt capacity p \<longleftrightarrow>
     (\<forall>req. op_cachable vt req p \<longrightarrow> unat req \<le> unat (capacity p) \<and> 0 \<le> sint req)"

context cache_policy
begin

abbreviation mem_ok :: "('f \<Rightarrow> u64 \<Rightarrow> u8) \<Rightarrow> ('f, 'h, 'p, 'o) memory_layer \<Rightarrow> bool" where
  "mem_ok files cm \<equiv> ok cm \<and> entries_ok files cm \<and> within_capacity capacity cm"

text \<open>After a successful allocation the sizes in the map leave room for the request.\<close>

lemma alloc_room:
  assumes "mem_ok files cm" "admits_fitting vt capacity (mPolicy cm)" "op_cachable vt req (mPolicy cm)"
  shows "\<exists>cm' it'. alloc vt dcb req cm it = Some (Inr (cm', it', True)) \<and> mem_ok files cm'
    \<and> map_sizes (mMap cm') + unat req \<le> unat (capacity (mPolicy cm'))
    \<and> same_config (mPolicy cm) (mPolicy cm')"
proof -
  let ?cap = "unat (capacity (mPolicy cm))"
  obtain cm' it' where al: "alloc_loop vt dcb req cm it = Some (Inr (cm', it'))" "ok cm'"
    "sint req \<le> sint (free (mPolicy cm')) \<or> mMap cm' = []"
    "same_config (mPolicy cm) (mPolicy cm')"
    "\<forall>f v. map_find f (mMap cm') = Some v \<longrightarrow> map_find f (mMap cm) = Some v"
    "map_sizes (mMap cm') \<le> map_sizes (mMap cm)"
    using alloc_loop_ok [of cm dcb req it] assms(1) by blast
  have req: "unat req \<le> ?cap" "0 \<le> sint req" and cap: "?cap < 2 ^ 63" "map_sizes (mMap cm') \<le> ?cap"
    using assms al(6) by (auto simp: admits_fitting_def within_capacity_def)
  have "entries_ok files cm'"
  proof (rule entries_okI)
    show "map_ok (mMap cm')" using al(2) by (simp add: cm_ok_def)
    show "map_find f (mMap cm') = Some v \<Longrightarrow> entry_ok (files f) v" for f v
      using entries_okD [of files cm f v] al(5) assms(1) by (simp add: cm_ok_def)
  qed
  moreover have "map_sizes (mMap cm') + unat req \<le> ?cap"
  proof (cases "mMap cm' = []")
    case True
    with req show ?thesis by (simp add: map_sizes_def)
  next
    case False
    have "free (mPolicy cm') = of_nat (?cap - map_sizes (mMap cm'))"
      using al(2,4) cap(2) by (simp add: cm_ok_def)
    moreover have "unat (of_nat (?cap - map_sizes (mMap cm')) :: u64) = ?cap - map_sizes (mMap cm')"
      using cap by (intro unat_of_nat_eq) simp
    ultimately have free: "unat (free (mPolicy cm')) = ?cap - map_sizes (mMap cm')"
      by (simp only:)
    moreover have "int (unat req) \<le> int (unat (free (mPolicy cm')))"
      using False al(3) req(2) free cap by (simp add: sint_small sint_nonneg_iff del: of_nat_unat)
    ultimately show ?thesis using cap(2) by linarith
  qed
  ultimately show ?thesis
    using al assms cap by (simp add: alloc_def within_capacity_def)
qed

lemma mem_store_new:
  assumes "mem_ok files cm" "map_find f (mMap cm) = None"
    and "map_sizes (mMap cm) + unat (mLength d) \<le> unat (capacity (mPolicy cm))"
    and "range_ok d" "dense_ok d" "agrees (files f) d"
  shows "\<exists>cm'. mem_store vt f d cm it = Inr cm' \<and> mem_ok files cm'
    \<and> (\<exists>h sz. map_find f (mMap cm') = Some (Some (addValidData d []), h, sz))
    \<and> same_config (mPolicy cm) (mPolicy cm')"
proof -
  let ?sz = "range_length d" and ?s = "addValidData d []"
  have mok: "map_ok (mMap cm)" using assms(1) by (simp add: cm_ok_def)
  obtain cm1 h where ins: "iter_insert vt f ?sz cm = (cm1, Some f, True)" "ok cm1"
    "mMap cm1 = map_insert f (None, h, ?sz) (mMap cm)" "same_config (mPolicy cm) (mPolicy cm1)"
    using iter_insert_ok [of cm f ?sz] assms(1,2) by blast
  have find1: "map_find f (mMap cm1) = Some (None, h, ?sz)"
    using mok assms(2) by (simp add: ins(3) map_find_insert)
  obtain cm2 where as1: "iter_assign (Some []) cm1 (Some f) = Inr cm2" "ok cm2"
    "mMap cm2 = map_assign f (Some [], h, ?sz) (mMap cm1)" "mPolicy cm2 = mPolicy cm1"
    using iter_assign_ok [OF ins(2) find1] by blast
  have find2: "map_find f (mMap cm2) = Some (Some [], h, ?sz)"
    using find1 by (simp add: as1(3) map_find_assign)
  obtain cm3 where as2: "iter_assign (Some ?s) cm2 (Some f) = Inr cm3" "ok cm3"
    "mMap cm3 = map_assign f (Some ?s, h, ?sz) (mMap cm2)" "mPolicy cm3 = mPolicy cm2"
    using iter_assign_ok [OF as1(2) find2] by blast
  have find3: "map_find g (mMap cm3) = (if g = f then Some (Some ?s, h, ?sz) else map_find g (mMap cm))" for g
    using find2 find1 mok assms(2) by (simp add: as2(3) as1(3) ins(3) map_find_assign map_find_insert)
  obtain cm4 where us: "iter_use vt cm3 (Some f) = Inr cm4" "ok cm4" "mMap cm4 = mMap cm3"
    "same_config (mPolicy cm3) (mPolicy cm4)"
    using iter_use_ok [OF as2(2), of f] find3 by fastforce
  have sizes: "map_sizes (mMap cm4) = unat ?sz + map_sizes (mMap cm)"
  proof -
    have "map_sizes (map_insert f (None, h, ?sz) (mMap cm)) = unat ?sz + map_sizes (mMap cm)"
      using assms(2) by (simp add: map_sizes_def map_sum_insert)
    moreover have "map_sizes (mMap cm2) = map_sizes (mMap cm1)" "map_sizes (mMap cm3) = map_sizes (mMap cm2)"
      using map_sum_assign [of "mMap cm1" f _ "\<lambda>(_, _, sz). unat sz" "(Some [], h, ?sz)"]
        map_sum_assign [of "mMap cm2" f _ "\<lambda>(_, _, sz). unat sz" "(Some ?s, h, ?sz)"]
        find1 find2 ins(2) as1(2) by (auto simp: cm_ok_def map_sizes_def as1(3) as2(3))
    ultimately show ?thesis by (simp add: us(3) ins(3))
  qed
  have "entries_ok files cm4"
  proof (rule entries_okI)
    show "map_ok (mMap cm4)" using us(2) by (simp add: cm_ok_def)
    fix g v assume "map_find g (mMap cm4) = Some v"
    then show "entry_ok (files g) v"
      using find3 [of g] assms mok space_single [of d] blocks_ok_add [of "files f" "[]" d]
      by (auto simp: us(3) entry_ok_def range_length_def dest: entries_okD split: if_splits)
  qed
  moreover have "within_capacity capacity cm4"
    using sizes assms(1,3) us(4) as1(4) as2(4) ins(4) by (simp add: within_capacity_def range_length_def)
  ultimately show ?thesis
    using ins(1,4) as1 as2 us find3 [of f] by (simp add: mem_store_def lift_ub_def)
qed

lemma mem_store_old:
  assumes "mem_ok files cm" "map_find f (mMap cm) = Some v"
    and "map_sizes (mMap cm) + unat (mLength d) \<le> unat (capacity (mPolicy cm))"
    and "range_ok d" "dense_ok d" "agrees (files f) d"
  shows "\<exists>cm'. mem_store vt f d cm it = Inr cm' \<and> mem_ok files cm'
    \<and> (\<exists>s h sz. blocks_ok (files f) s \<and> map_find f (mMap cm') = Some (Some (addValidData d s), h, sz))
    \<and> same_config (mPolicy cm) (mPolicy cm')"
proof -
  have mok: "map_ok (mMap cm)" using assms(1) by (simp add: cm_ok_def)
  obtain s h sz where v: "v = (Some s, h, sz)" and s: "blocks_ok (files f) s" "unat sz = space s"
    using entries_okD [OF _ mok assms(2), of files] assms(1)
    by (cases v) (auto simp: entry_ok_def split: option.splits)
  let ?s = "addValidData d s"
  have find: "map_find f (mMap cm) = Some (Some s, h, sz)" using assms(2) v by simp
  obtain cm1 where as: "iter_assign (Some ?s) cm (Some f) = Inr cm1" "ok cm1"
    "mMap cm1 = map_assign f (Some ?s, h, sz) (mMap cm)" "mPolicy cm1 = mPolicy cm"
    using iter_assign_ok [OF _ find] assms(1) by blast
  have find1: "map_find f (mMap cm1) = Some (Some ?s, h, sz)"
    using find by (simp add: as(3) map_find_assign)
  obtain cm2 where up: "iter_update vt (getSpaceUsed ?s) cm1 (Some f) = Inr cm2" "ok cm2"
    "mMap cm2 = map_assign f (Some ?s, h, getSpaceUsed ?s) (mMap cm1)"
    "same_config (mPolicy cm1) (mPolicy cm2)"
    using iter_update_ok [OF as(2) find1] by blast
  have find2: "map_find g (mMap cm2)
      = (if g = f then Some (Some ?s, h, getSpaceUsed ?s) else map_find g (mMap cm))" for g
    using find find1 by (simp add: up(3) as(3) map_find_assign)
  have "map_sizes (mMap cm1) = map_sizes (mMap cm)"
    using map_sum_assign [OF mok find, of "\<lambda>(_, _, sz). unat sz" "(Some ?s, h, sz)"]
    by (simp add: map_sizes_def as(3))
  moreover have "map_sizes (mMap cm2) + unat sz = map_sizes (mMap cm1) + unat (getSpaceUsed ?s)"
    using map_sum_assign [OF _ find1, of "\<lambda>(_, _, sz). unat sz" "(Some ?s, h, getSpaceUsed ?s)"] as(2)
    by (simp add: map_sizes_def up(3) cm_ok_def)
  moreover have used: "unat (getSpaceUsed ?s) = space ?s"
  proof -
    have "unat sz \<le> map_sizes (mMap cm)"
      using map_sum_erase [OF mok find, of "\<lambda>(_, _, sz). unat sz"] by (simp add: map_sizes_def)
    then have "space ?s < 2 ^ LENGTH(64)"
      using space_add [of d s] s(2) assms(1,3) by (simp add: within_capacity_def)
    then show ?thesis unfolding getSpaceUsed_space by (rule unat_of_nat_eq)
  qed
  ultimately have sizes: "map_sizes (mMap cm2) \<le> map_sizes (mMap cm) + unat (mLength d)"
    using space_add [of d s] s(2) by linarith
  have "entries_ok files cm2"
  proof (rule entries_okI)
    show "map_ok (mMap cm2)" using up(2) by (simp add: cm_ok_def)
    fix g w assume "map_find g (mMap cm2) = Some w"
    then show "entry_ok (files g) w"
      using find2 [of g] used blocks_ok_add [OF s(1) assms(4-6)] entries_okD [of files cm g w] assms(1) mok
      by (auto simp: entry_ok_def split: if_splits)
  qed
  moreover have "within_capacity capacity cm2"
    using sizes assms(1,3) up(4) as(4) by (simp add: within_capacity_def)
  moreover have "mem_store vt f d cm it = Inr cm2"
    using find as(1) up(1)
    by (simp add: mem_store_def lift_ub_def iter_insert_def iter_deref_def iter_entry_def Let_def)
  ultimately show ?thesis
    using up(2,4) as(4) s(1) find2 [of f] by (intro exI [of _ cm2]) auto
qed

text \<open>The whole of \<open>populateCache\<close> on one layer, with what a later lookup finds.\<close>

lemma mem_populate_ok:
  assumes "mem_ok files cm" "admits_fitting vt capacity (mPolicy cm)"
    and d: "range_ok d" "dense_ok d" "agrees (files f) d"
  shows "\<exists>cm'. mem_populate vt f d cm = Some (Inr cm') \<and> mem_ok files cm'
    \<and> same_config (mPolicy cm) (mPolicy cm')
    \<and> (op_cachable vt (mLength d) (mPolicy cm) \<longrightarrow>
         (\<exists>s h sz. blocks_ok (files f) s \<and> map_find f (mMap cm') = Some (Some (addValidData d s), h, sz)))"
proof (cases "op_cachable vt (mLength d) (mPolicy cm)")
  case False
  with assms(1) show ?thesis by (simp add: mem_populate_def alloc_def range_length_def)
next
  case True
  obtain cm1 it1 where al: "alloc vt mem_destroyCacheEntry (mLength d) cm None = Some (Inr (cm1, it1, True))"
    "mem_ok files cm1" "map_sizes (mMap cm1) + unat (mLength d) \<le> unat (capacity (mPolicy cm1))"
    "same_config (mPolicy cm) (mPolicy cm1)"
    using alloc_room [OF assms(1,2) True] by blast
  have "\<exists>cm'. mem_store vt f d cm1 it1 = Inr cm' \<and> mem_ok files cm'
    \<and> (\<exists>s h sz. blocks_ok (files f) s \<and> map_find f (mMap cm') = Some (Some (addValidData d s), h, sz))
    \<and> same_config (mPolicy cm1) (mPolicy cm')"
  proof (cases "map_find f (mMap cm1)")
    case None
    show ?thesis using mem_store_new [OF al(2) None al(3) d] blocks_ok_Nil by blast
  next
    case (Some v)
    show ?thesis by (rule mem_store_old [OF al(2) Some al(3) d])
  qed
  with al(1,4) show ?thesis by (auto simp: mem_populate_def range_length_def)
qed

text \<open>Layers that keep the invariant and admit only what fits, for a whole chain.\<close>

abbreviation chain_ok :: "('f \<Rightarrow> u64 \<Rightarrow> u8) \<Rightarrow> ('f, 'h, 'p, 'o) memory_layer list \<Rightarrow> bool" where
  "chain_ok files ls \<equiv> \<forall>l\<in>set ls. mem_ok files l \<and> admits_fitting vt capacity (mPolicy l)"

lemma populateCache_ok:
  assumes "chain_ok files ls" "range_ok d" "dense_ok d" "agrees (files f) d"
  shows "\<exists>ls'. populateCache vt f d ls = Some (Inr ls') \<and> chain_ok files ls' \<and> length ls' = length ls"
  using assms(1)
proof (induction ls)
  case (Cons l ls)
  obtain l' where l': "mem_populate vt f d l = Some (Inr l')" "mem_ok files l'"
    "same_config (mPolicy l) (mPolicy l')"
    using mem_populate_ok [where files = files and cm = l and d = d and f = f] assms(2-4) Cons.prems by auto
  moreover have "admits_fitting vt capacity (mPolicy l')"
    using Cons.prems l'(3) by (simp add: admits_fitting_def)
  ultimately show ?case using Cons by auto
qed simp

lemma populate_blocks_ok:
  assumes "chain_ok files ls" "blocks_ok (files f) s"
  shows "\<exists>ls'. populate_blocks vt f s ls = Some (Inr ls') \<and> chain_ok files ls' \<and> length ls' = length ls"
  using assms
proof (induction s arbitrary: ls)
  case (Cons d s)
  have d: "range_ok d" "dense_ok d" "agrees (files f) d" "blocks_ok (files f) s"
    using Cons.prems(2) by (auto simp: blocks_ok_def range_list_ok_def)
  obtain ls1 where "populateCache vt f d ls = Some (Inr ls1)" "chain_ok files ls1" "length ls1 = length ls"
    using populateCache_ok [OF Cons.prems(1) d(1-3)] by blast
  with Cons.IH [OF _ d(4), of ls1] show ?case by auto
qed simp

lemma mem_lookup_ok:
  assumes "mem_ok files l"
  shows "\<exists>res. mem_lookup f r l = Inr res
    \<and> (\<forall>s. res = Some s \<longrightarrow> blocks_ok (files f) s \<and> isContainedBy_list r s)"
proof (cases "map_find f (mMap l)")
  case None
  then show ?thesis by (simp add: mem_lookup_def iter_find_def)
next
  case (Some v)
  then obtain s h sz where "v = (Some s, h, sz)" "blocks_ok (files f) s"
    using entries_okD [OF _ _ Some, of files] assms
    by (cases v) (auto simp: cm_ok_def entry_ok_def split: option.splits)
  with Some show ?thesis
    by (simp add: mem_lookup_def iter_find_def iter_deref_def iter_entry_def lift_ub_def)
qed

lemma mem_getData_ok:
  assumes "chain_ok files parents" "chain_ok files ls"
  shows "\<exists>ls' res. mem_getData vt f r parents ls = Some (Inr (ls', res)) \<and> chain_ok files ls'
    \<and> length ls' = length parents + length ls
    \<and> (\<forall>s. res = Some s \<longrightarrow> blocks_ok (files f) s \<and> isContainedBy_list r s)"
  using assms
proof (induction ls arbitrary: parents)
  case (Cons l ls)
  obtain res where res: "mem_lookup f r l = Inr res"
    "\<And>s. res = Some s \<Longrightarrow> blocks_ok (files f) s \<and> isContainedBy_list r s"
    using mem_lookup_ok [where files = files and l = l and f = f and r = r] Cons.prems(2) by auto
  show ?case
  proof (cases res)
    case None
    with res Cons.IH [of "l # parents"] Cons.prems show ?thesis by auto
  next
    case (Some s)
    obtain ps where "populate_blocks vt f s parents = Some (Inr ps)" "chain_ok files ps"
      "length ps = length parents"
      using populate_blocks_ok [OF Cons.prems(1)] res(2) [OF Some] by blast
    with res Some Cons.prems(2) show ?thesis by auto
  qed
qed auto

lemma mem_purge_ok:
  assumes "chain_ok files ls"
  shows "\<exists>ls'. mem_purgeFromCache vt f ls = Inr ls' \<and> chain_ok files ls'
    \<and> (\<forall>l\<in>set ls'. map_find f (mMap l) = None)"
  using assms
proof (induction ls)
  case (Cons l ls)
  then have l: "ok l" "entries_ok files l" "within_capacity capacity l"
    "admits_fitting vt capacity (mPolicy l)" by auto
  obtain l' where l': "(case iter_find f l of None \<Rightarrow> Inr l
       | it \<Rightarrow> sum_bind (lift_ub (iter_erase vt mem_destroyCacheEntry l it)) (\<lambda>(l, _). Inr l)) = Inr l'"
    "mem_ok files l'" "admits_fitting vt capacity (mPolicy l')" "map_find f (mMap l') = None"
  proof (cases "map_find f (mMap l)")
    case None
    with l that show ?thesis by (simp add: iter_find_def)
  next
    case (Some v)
    then obtain e h sz where find: "map_find f (mMap l) = Some (e, h, sz)" by (cases v) auto
    obtain l1 where l1: "iter_erase vt mem_destroyCacheEntry l (Some f) = Inr (l1, None)" "ok l1"
      "mMap l1 = map_erase f (mMap l)" "same_config (mPolicy l) (mPolicy l1)"
      using iter_erase_ok [OF l(1) find] by blast
    have "entries_ok files l1"
      using l(2) by (auto simp: entries_ok_def l1(3) set_map_erase)
    moreover have "within_capacity capacity l1"
      using l(3) l1(4) sum_list_filter_le [of "(\<lambda>(_, _, sz). unat sz) \<circ> snd" "\<lambda>(k', _). k' \<noteq> f" "mMap l"]
      by (simp add: within_capacity_def l1(3) map_sizes_def map_sum_def map_erase_def)
    moreover have "admits_fitting vt capacity (mPolicy l1)"
      using l(4) l1(4) by (simp add: admits_fitting_def)
    moreover have "map_find f (mMap l1) = None" by (simp add: l1(3) map_find_erase)
    ultimately show ?thesis
      using that l1 find by (simp add: iter_find_def lift_ub_def)
  qed
  obtain ls' where "mem_purgeFromCache vt f ls = Inr ls'" "chain_ok files ls'"
    "\<forall>l\<in>set ls'. map_find f (mMap l) = None"
    using Cons by auto
  with l' show ?case by auto
qed simp

end

section \<open>Layers with an LRU policy\<close>

text \<open>The invariant of a memory layer whose policy is \<open>LRUPolicy\<close>, with the rounding the hardware has.\<close>

definition rounding_ok :: "(rat \<Rightarrow> rat) \<Rightarrow> bool" where
  "rounding_ok rnd \<longleftrightarrow> mono rnd \<and> (\<forall>x. rnd (rnd x) = rnd x) \<and> rnd 0 = 0"

definition lru_mem_ok :: "(rat \<Rightarrow> rat) \<Rightarrow> ('f \<Rightarrow> u64 \<Rightarrow> u8)
    \<Rightarrow> ('f::linorder, lru_iter, 'f lru_policy, 'o) memory_layer \<Rightarrow> bool" where
  "lru_mem_ok rnd files cm \<longleftrightarrow>
     cm_ok lru_tracked mFreeSpace mTotalSize lru_ok cm \<and> entries_ok files cm
     \<and> within_capacity mTotalSize cm \<and> admits_fitting (lru_ops rnd) mTotalSize (mPolicy cm)"

lemma lru_admits_fitting:
  "rounding_ok rnd \<Longrightarrow> mMaxSizePct p \<le> 1 \<Longrightarrow> admits_fitting (lru_ops rnd) mTotalSize p"
  using cachable_fits [of rnd p] by (auto simp: admits_fitting_def rounding_ok_def lru_ops_def less_imp_le)

text \<open>A layer as its constructor leaves it.\<close>

definition MemoryCacheLayer_init :: "u64 \<Rightarrow> rat \<Rightarrow> ('f::linorder, lru_iter, 'f lru_policy, unit) memory_layer" where
  "MemoryCacheLayer_init allocatedSpace maxSizePct =
     CacheMap_init (LRUPolicy_init allocatedSpace maxSizePct) ()"

lemma MemoryCacheLayer_init_ok:
  assumes "rounding_ok rnd" "pct \<le> 1" "unat sp < 2 ^ 63"
  shows "lru_mem_ok rnd files (MemoryCacheLayer_init sp pct)"
  using assms lru_admits_fitting [OF assms(1), of "LRUPolicy_init sp pct"]
  by (simp add: lru_mem_ok_def MemoryCacheLayer_init_def CacheMap_init_def LRUPolicy_init_def cm_ok_def
      lru_ok_def lru_tracked_def handles_def map_sizes_def entries_ok_def within_capacity_def)

subsection \<open>Sequences of requests\<close>

text \<open>
  What a chain of memory layers is asked to do: a download below the last layer delivers a block,
  a client asks the first layer for a range, a file is purged.
\<close>

datatype 'f mem_req = Deliver 'f dense_data | Get 'f range | Purge 'f

fun mem_request :: "('p, 'f, 'h) policy_ops \<Rightarrow> 'f mem_req
    \<Rightarrow> ('f::linorder, 'h, 'p, 'o) memory_layer list
    \<Rightarrow> (layer_error, ('f, 'h, 'p, 'o) memory_layer list \<times> sparse_data option) run" where
  "mem_request vt (Deliver f d) ls =
     run_bind (populateCache vt f d (rev ls)) (\<lambda>ls. Some (Inr (rev ls, None)))"
| "mem_request vt (Get f r) ls = mem_getData vt f r [] ls"
| "mem_request vt (Purge f) ls =
     (case mem_purgeFromCache vt f ls of Inl e \<Rightarrow> Some (Inl e) | Inr ls \<Rightarrow> Some (Inr (ls, None)))"

fun mem_requests :: "('p, 'f, 'h) policy_ops \<Rightarrow> 'f mem_req list
    \<Rightarrow> ('f::linorder, 'h, 'p, 'o) memory_layer list
    \<Rightarrow> (layer_error, ('f, 'h, 'p, 'o) memory_layer list \<times> sparse_data option list) run" where
  "mem_requests vt [] ls = Some (Inr (ls, []))"
| "mem_requests vt (q # qs) ls =
     run_bind (mem_request vt q ls) (\<lambda>(ls, a).
     run_bind (mem_requests vt qs ls) (\<lambda>(ls, as). Some (Inr (ls, a # as))))"

fun request_ok :: "('f \<Rightarrow> u64 \<Rightarrow> u8) \<Rightarrow> 'f mem_req \<Rightarrow> bool" where
  "request_ok files (Deliver f d) \<longleftrightarrow> range_ok d \<and> dense_ok d \<and> agrees (files f) d"
| "request_ok files (Get f r) \<longleftrightarrow> True"
| "request_ok files (Purge f) \<longleftrightarrow> True"

text \<open>An answer covers the requested range and holds the bytes of the file.\<close>

fun answer_ok :: "('f \<Rightarrow> u64 \<Rightarrow> u8) \<Rightarrow> 'f mem_req \<Rightarrow> sparse_data option \<Rightarrow> bool" where
  "answer_ok files (Get f r) (Some s) \<longleftrightarrow>
     blocks_ok (files f) s \<and> (\<forall>b. in_range r b \<longrightarrow> covered s b)"
| "answer_ok files q a \<longleftrightarrow> a = None"

lemma mem_request_ok:
  assumes "\<forall>l\<in>set ls. lru_mem_ok rnd files l" "request_ok files q"
  shows "\<exists>ls' a. mem_request (lru_ops rnd) q ls = Some (Inr (ls', a))
    \<and> (\<forall>l\<in>set ls'. lru_mem_ok rnd files l) \<and> answer_ok files q a"
proof (cases q)
  case (Deliver f d)
  with assms lru.populateCache_ok [where ls = "rev ls" and files = files and d = d and f = f and rnd = rnd] show ?thesis
    by (auto simp: lru_mem_ok_def)
next
  case (Get f r)
  obtain ls' a where g: "mem_getData (lru_ops rnd) f r [] ls = Some (Inr (ls', a))"
    "\<forall>l\<in>set ls'. lru_mem_ok rnd files l"
    "\<forall>s. a = Some s \<longrightarrow> blocks_ok (files f) s \<and> isContainedBy_list r s"
    using lru.mem_getData_ok [where parents = "[]" and files = files and ls = ls and rnd = rnd and f = f and r = r] assms by (auto simp: lru_mem_ok_def)
  then have "answer_ok files q a"
    using Get contained_search_sound by (cases a) (auto simp: isContainedBy_list_def)
  with Get g show ?thesis by auto
next
  case (Purge f)
  with assms lru.mem_purge_ok [where ls = ls and files = files and rnd = rnd and f = f] show ?thesis
    by (auto simp: lru_mem_ok_def)
qed

lemma mem_requests_ok:
  assumes "\<forall>l\<in>set ls. lru_mem_ok rnd files l" "list_all (request_ok files) qs"
  shows "\<exists>ls' as. mem_requests (lru_ops rnd) qs ls = Some (Inr (ls', as))
    \<and> (\<forall>l\<in>set ls'. lru_mem_ok rnd files l) \<and> list_all2 (answer_ok files) qs as"
  using assms
proof (induction qs arbitrary: ls)
  case (Cons q qs)
  obtain ls1 a where "mem_request (lru_ops rnd) q ls = Some (Inr (ls1, a))"
    "\<forall>l\<in>set ls1. lru_mem_ok rnd files l" "answer_ok files q a"
    using mem_request_ok [OF Cons.prems(1), of q] Cons.prems(2) by auto
  with Cons.IH [of ls1] Cons.prems(2) show ?case by auto
qed simp

section \<open>Properties\<close>

text \<open>
  C11: a chain of freshly constructed memory layers with LRU policies serves any sequence of
  deliveries, requests and purges: every call returns, no iterator is used while invalid and no
  null pointer followed, the recorded sizes of each layer stay the sizes of its data and their sum
  never exceeds the space the layer was given, and each answer covers the requested range with
  bytes of the requested file.
\<close>

theorem memory_chain_serves_requests:
  assumes "rounding_ok rnd" and "list_all (request_ok files) qs"
    and "list_all (\<lambda>(sp, pct). unat sp < 2 ^ 63 \<and> pct \<le> 1) sizes"
  shows "\<exists>ls as. mem_requests (lru_ops rnd) qs (map (\<lambda>(sp, pct). MemoryCacheLayer_init sp pct) sizes)
      = Some (Inr (ls, as))
    \<and> list_all (lru_mem_ok rnd files) ls \<and> list_all2 (answer_ok files) qs as"
proof -
  have "\<forall>l\<in>set (map (\<lambda>(sp, pct). MemoryCacheLayer_init sp pct) sizes). lru_mem_ok rnd files l"
    using MemoryCacheLayer_init_ok [OF assms(1)] assms(3) by (fastforce simp: list_all_iff)
  from mem_requests_ok [OF this assms(2)] show ?thesis by (simp add: list_all_iff)
qed

definition sample_block :: dense_data where
  "sample_block = \<lparr>mStart = 3, mLength = 2, mWholeFile = False, mData = [5, 5]\<rparr>"

lemma rounding_ok_id: "rounding_ok id"
  by (simp add: rounding_ok_def mono_def)

theorem memory_chain_serves_requests_witness:
  "\<exists>ls as. mem_requests (lru_ops id)
       [Deliver (1 :: nat) sample_block, Get 1 (Range_make 3 1 Init_LENGTH False), Purge 1]
       (map (\<lambda>(sp, pct). MemoryCacheLayer_init sp pct) [(100, 1 / 2), (1000, 1)])
      = Some (Inr (ls, as))
    \<and> list_all (lru_mem_ok id (\<lambda>_ _. 5)) ls
    \<and> list_all2 (answer_ok (\<lambda>_ _. 5))
        [Deliver (1 :: nat) sample_block, Get 1 (Range_make 3 1 Init_LENGTH False), Purge 1] as"
  by (rule memory_chain_serves_requests [OF rounding_ok_id, where files = "\<lambda>_ _. 5" and sizes = "[(100, 1 / 2), (1000, 1)]"
        and qs = "[Deliver (1 :: nat) sample_block, Get 1 (Range_make 3 1 Init_LENGTH False), Purge 1]"])
     (auto simp: sample_block_def range_ok_def dense_ok_def agrees_def accessor_defs nth_Cons less_Suc_eq
       split: nat.splits)

text \<open>
  what a memory layer admits it serves. After a block of the file has been stored and the
  policy admitted its length, a request for any non-empty range inside the block is answered by
  this layer with data that covers the range and holds the bytes of the file.
\<close>

lemma memory_populate_then_lookup:
  assumes "lru_mem_ok rnd files cm" and "range_ok d" and "dense_ok d" and "agrees (files f) d"
    and "cachable rnd (mLength d) (mPolicy cm)" and "contains d r" and "in_range r (startbyte r)"
  shows "\<exists>cm' s. mem_populate (lru_ops rnd) f d cm = Some (Inr cm')
    \<and> mem_lookup f r cm' = Inr (Some s) \<and> blocks_ok (files f) s \<and> (\<forall>b. in_range r b \<longrightarrow> covered s b)"
proof -
  obtain cm' s h sz where cm': "mem_populate (lru_ops rnd) f d cm = Some (Inr cm')"
    and s: "blocks_ok (files f) s" "map_find f (mMap cm') = Some (Some (addValidData d s), h, sz)"
    using lru.mem_populate_ok [where files = files and cm = cm and d = d and f = f and rnd = rnd] assms
    by (auto simp: lru_mem_ok_def) (auto simp: lru_ops_def)
  let ?s = "addValidData d s"
  have blocks: "blocks_ok (files f) ?s" using blocks_ok_add s(1) assms(2-4) by blast
  have cov: "\<forall>b. in_range r b \<longrightarrow> covered ?s b"
  proof (intro allI impI)
    fix b assume "in_range r b"
    then have "in_range d b"
      using assms(6) by (auto simp: contains_def in_range_def split: if_splits)
    then show "covered ?s b"
      using addToList_covered [of s d d b] s(1) assms(2) by (simp add: addValidData_def blocks_ok_def)
  qed
  have "isContainedBy_list r ?s"
    using contained_search_complete [of ?s r] blocks cov assms(7)
    by (simp add: isContainedBy_list_def blocks_ok_def)
  then have "mem_lookup f r cm' = Inr (Some ?s)"
    using s(2) by (simp add: mem_lookup_def iter_find_def iter_deref_def iter_entry_def lift_ub_def)
  with cm' blocks cov show ?thesis by blast
qed

lemma setNext_mNext: "mNext (setNext this newNext ls a) = (if a = this then newNext else mNext (ls a))"
  by (simp add: setNext_def setResponder_def Let_def split: option.splits)

lemma setNext_mRespondTo:
  "mRespondTo (setNext this newNext ls b) =
    (if newNext = Some b then Some this else if mNext (ls this) = Some b then None else mRespondTo (ls b))"
  by (simp add: setNext_def setResponder_def Let_def split: option.splits)

text \<open>
  \<open>setNext\<close> keeps the layers linked both ways, provided no other layer already has the new
  next layer as its next.
\<close>

lemma setNext_links_ok:
  assumes "links_ok ls" and "\<forall>a n. newNext = Some n \<and> mNext (ls a) = Some n \<longrightarrow> a = this"
  shows "links_ok (setNext this newNext ls)"
  unfolding links_ok_def setNext_mNext setNext_mRespondTo
proof (intro allI impI)
  fix a b
  assume h: "(if a = this then newNext else mNext (ls a)) = Some b"
  show "(if newNext = Some b then Some this else if mNext (ls this) = Some b then None
         else mRespondTo (ls b)) = Some a"
  proof (cases "a = this")
    case False
    with h have "mNext (ls a) = Some b" by simp
    moreover from this have "mRespondTo (ls b) = Some a" using assms(1) by (simp add: links_ok_def)
    moreover have "newNext \<noteq> Some b" using False assms(2) \<open>mNext (ls a) = Some b\<close> by blast
    moreover have "mNext (ls this) \<noteq> Some b"
      using assms(1) \<open>mRespondTo (ls b) = Some a\<close> False by (auto simp: links_ok_def)
    ultimately show ?thesis by simp
  qed (use h in simp)
qed

end
