(* ===== verification/Network_Layer.thy ===== *)
theory Network_Layer
  imports Name_Lookup Cache_Layers "HOL-Library.Multiset"
begin

text \<open>
  The last layer of a chain of caches (\<^verbatim>\<open>libcore/src/transfer/NetworkCacheLayer.hpp\<close>): a request is kept in a list
  while the services configured for its file are tried one after the other. A download is started here and completed later
  by its handler; between the two anything else may happen. What the layer does to others is recorded in order: the
  downloads it starts, the blocks it hands to the layers above, the calls of callbacks, the requests it passes on. An
  iterator into the list is a number; using one whose element is gone is an error.
\<close>

section \<open>Requests\<close>

record request_info =
  info_callback :: nat
  info_fileId :: RemoteFileId
  info_range :: range
  info_services :: "ListOfServices option"
  httpreq :: "nat option"              \<comment> \<open>the service whose download is under way\<close>

datatype 'd net_effect =
    Download nat 'd URI range
  | Populate_parents digest dense_data
  | Call_back nat "sparse_data option"
  | Next_getData RemoteFileId range nat

record 'd network_layer =
  cleaning :: bool
  mActiveTransfers :: "(nat \<times> request_info) list"
  mProtoReg :: "'d registry"
  has_next :: bool                     \<comment> \<open>\<open>mNext\<close> is not null\<close>
  fresh_iter :: nat
  effects :: "'d net_effect list"

datatype net_error = Erased_request

definition NetworkCacheLayer_init :: "bool \<Rightarrow> 'd registry \<Rightarrow> 'd network_layer" where
  "NetworkCacheLayer_init tryNext protoReg = \<lparr>cleaning = False, mActiveTransfers = [], mProtoReg = protoReg,
     has_next = tryNext, fresh_iter = 0, effects = []\<rparr>"

definition emit :: "'d net_effect \<Rightarrow> 'd network_layer \<Rightarrow> 'd network_layer" where
  "emit e s = s\<lparr>effects := effects s @ [e]\<rparr>"

text \<open>\<open>getData\<close> of the base class.\<close>

definition base_getData :: "RemoteFileId \<Rightarrow> range \<Rightarrow> nat \<Rightarrow> 'd network_layer \<Rightarrow> 'd network_layer" where
  "base_getData rfid r cb s = (if has_next s then emit (Next_getData rfid r cb) s else emit (Call_back cb None) s)"

definition node_erase :: "nat \<Rightarrow> 'd network_layer \<Rightarrow> 'd network_layer" where
  "node_erase it s = s\<lparr>mActiveTransfers := filter (\<lambda>(i, _). i \<noteq> it) (mActiveTransfers s)\<rparr>"

definition node_update :: "nat \<Rightarrow> request_info \<Rightarrow> 'd network_layer \<Rightarrow> 'd network_layer" where
  "node_update it info s = s\<lparr>mActiveTransfers := map (\<lambda>(i, x). (i, if i = it then info else x)) (mActiveTransfers s)\<rparr>"

definition services_left :: "nat \<Rightarrow> nat \<Rightarrow> 'd network_layer \<Rightarrow> nat" where
  "services_left it which s = (case map_of (mActiveTransfers s) it of None \<Rightarrow> 0 | Some info \<Rightarrow>
     (case info_services info of None \<Rightarrow> 0 | Some services \<Rightarrow> length services - which))"

function doFetch :: "nat \<Rightarrow> nat \<Rightarrow> 'd network_layer \<Rightarrow> net_error + 'd network_layer" where
  "doFetch it whichService s =
     (case map_of (mActiveTransfers s) it of
        None \<Rightarrow> Inl Erased_request
      | Some info \<Rightarrow>
          if cleaning s \<or> info_services info = None \<or> whichService \<ge> length (the (info_services info))
          then Inr (node_erase it (base_getData (info_fileId info) (info_range info) (info_callback info) s))
          else (case lookup_uri (fst (the (info_services info) ! whichService)) (mURI (info_fileId info)) (mProtoReg s) of
                  (lookupUri, Some handler) \<Rightarrow>
                    Inr (emit (Download it handler lookupUri (info_range info))
                      (node_update it (info\<lparr>httpreq := Some whichService\<rparr>) s))
                | (lookupUri, None) \<Rightarrow> doFetch it (whichService + 1) s))"
  by pat_completeness auto
termination
  by (relation "measure (\<lambda>(it, which, s). services_left it which s)") (auto simp: services_left_def not_le)

definition httpCallback :: "nat \<Rightarrow> nat \<Rightarrow> dense_data option \<Rightarrow> bool \<Rightarrow> 'd network_layer \<Rightarrow> net_error + 'd network_layer" where
  "httpCallback it whichService recvData success s =
     (case map_of (mActiveTransfers s) it of
        None \<Rightarrow> Inl Erased_request
      | Some info \<Rightarrow>
          (case recvData of
             Some d \<Rightarrow>
               if success
               then Inr (node_erase it (emit (Call_back (info_callback info) (Some (addValidData d [])))
                      (emit (Populate_parents (mHash (info_fileId info)) d) s)))
               else doFetch it (whichService + 1) s
           | None \<Rightarrow> doFetch it (whichService + 1) s))"

definition gotServices :: "nat \<Rightarrow> ListOfServices option \<Rightarrow> 'd network_layer \<Rightarrow> net_error + 'd network_layer" where
  "gotServices it services s =
     (case map_of (mActiveTransfers s) it of
        None \<Rightarrow> Inl Erased_request
      | Some info \<Rightarrow> doFetch it 0 (node_update it (info\<lparr>info_services := services\<rparr>) s))"

text \<open>The services are looked up by the registry of \<open>Name_Lookup\<close>, which answers before it returns.\<close>

definition net_getData :: "RemoteFileId \<Rightarrow> range \<Rightarrow> nat \<Rightarrow> 'd network_layer \<Rightarrow> net_error + 'd network_layer" where
  "net_getData downloadFileId requestedRange callback s =
     (let info = \<lparr>info_callback = callback, info_fileId = downloadFileId, info_range = requestedRange,
            info_services = None, httpreq = None\<rparr>;
          it = fresh_iter s;
          s = s\<lparr>mActiveTransfers := mActiveTransfers s @ [(it, info)], fresh_iter := it + 1\<rparr>;
          (services, reg) = registry_lookupService (mContext (mURI downloadFileId)) True (mProtoReg s)
      in gotServices it services (s\<lparr>mProtoReg := reg\<rparr>))"

text \<open>
  What the outside does: a client asks, a handler completes the download it was given, or the destructor begins. The
  handler keeps the number of the service with the callback; an element without a download is never completed.
\<close>

datatype net_action = Get_data RemoteFileId range nat | Complete nat "dense_data option" bool | Begin_cleanup

definition pending :: "'d network_layer \<Rightarrow> nat \<Rightarrow> nat option" where
  "pending s it = Option.bind (map_of (mActiveTransfers s) it) httpreq"

fun net_act :: "net_action \<Rightarrow> 'd network_layer \<Rightarrow> net_error + 'd network_layer" where
  "net_act (Get_data rfid r cb) s = net_getData rfid r cb s"
| "net_act (Complete it d success) s =
     (case pending s it of None \<Rightarrow> Inr s | Some which \<Rightarrow> httpCallback it which d success s)"
| "net_act Begin_cleanup s = Inr (s\<lparr>cleaning := True\<rparr>)"

fun net_run :: "net_action list \<Rightarrow> 'd network_layer \<Rightarrow> net_error + 'd network_layer" where
  "net_run [] s = Inr s"
| "net_run (a # as) s = sum_bind (net_act a s) (net_run as)"

text \<open>The end of the destructor: every download under way is aborted, which its handler reports as a failure.\<close>

definition abort_all :: "'d network_layer \<Rightarrow> net_error + 'd network_layer" where
  "abort_all s = net_run (map (\<lambda>(it, _). Complete it None False) (mActiveTransfers s)) s"

section \<open>What a fetch does\<close>

declare doFetch.simps [simp del]

lemma doFetch_outcome:
  assumes "map_of (mActiveTransfers s) it = Some info"
  obtains
    (given_up) "doFetch it which s
        = Inr (node_erase it (base_getData (info_fileId info) (info_range info) (info_callback info) s))"
  | (download) which' handler u services where "\<not> cleaning s" "info_services info = Some services"
      "which \<le> which'" "which' < length services"
      "doFetch it which s = Inr (emit (Download it handler u (info_range info))
         (node_update it (info\<lparr>httpreq := Some which'\<rparr>) s))"
  using assms
proof (induction it which s arbitrary: thesis rule: doFetch.induct)
  case (1 it which s)
  note step = doFetch.simps [of it which s]
  show ?case
  proof (cases "cleaning s \<or> info_services info = None \<or> which \<ge> length (the (info_services info))")
    case True
    with 1 step show ?thesis by simp
  next
    case False
    obtain u h where uh: "lookup_uri (fst (the (info_services info) ! which)) (mURI (info_fileId info)) (mProtoReg s) = (u, h)"
      by fastforce
    show ?thesis
    proof (cases h)
      case None
      with 1(4) False uh step have next_try: "doFetch it which s = doFetch it (which + 1) s" by auto
      show ?thesis
      proof (rule 1(1) [OF 1(4) False uh [symmetric] None])
        assume "doFetch it (which + 1) s = Inr (node_erase it (base_getData (info_fileId info) (info_range info) (info_callback info) s))"
        with next_try show ?thesis by (intro 1(2)) simp
      next
        fix services which' handler u'
        assume "\<not> cleaning s" "info_services info = Some services" "which + 1 \<le> which'" "which' < length services"
          "doFetch it (which + 1) s = Inr (emit (Download it handler u' (info_range info)) (node_update it (info\<lparr>httpreq := Some which'\<rparr>) s))"
        with next_try show ?thesis by (intro 1(3)) simp_all
      qed (rule 1(4))
    next
      case (Some handler)
      obtain services where "info_services info = Some services" using False by auto
      with 1(4) False uh step Some show ?thesis by (intro 1(3) [of services which handler u]) auto
    qed
  qed
qed

section \<open>Invariant\<close>

definition info_ok :: "request_info \<Rightarrow> bool" where
  "info_ok info \<longleftrightarrow> (case (httpreq info, info_services info) of
     (Some which, Some services) \<Rightarrow> which < length services | _ \<Rightarrow> False)"

definition iterators_ok :: "'d network_layer \<Rightarrow> bool" where
  "iterators_ok s \<longleftrightarrow> distinct (map fst (mActiveTransfers s)) \<and> (\<forall>(it, _) \<in> set (mActiveTransfers s). it < fresh_iter s)"

definition net_ok :: "'d network_layer \<Rightarrow> bool" where
  "net_ok s \<longleftrightarrow> iterators_ok s \<and> (\<forall>(_, info) \<in> set (mActiveTransfers s). info_ok info)"

text \<open>The callbacks that were answered, by this layer or by handing the request to the next, and those still waiting.\<close>

fun answers :: "'d net_effect \<Rightarrow> nat multiset" where
  "answers (Call_back cb _) = {#cb#}"
| "answers (Next_getData _ _ cb) = {#cb#}"
| "answers _ = {#}"

definition answered :: "'d network_layer \<Rightarrow> nat multiset" where
  "answered s = \<Sum>\<^sub># (image_mset answers (mset (effects s)))"

definition waiting :: "'d network_layer \<Rightarrow> nat multiset" where
  "waiting s = image_mset (\<lambda>(_, info). info_callback info) (mset (mActiveTransfers s))"

text \<open>How many more services may be tried.\<close>

definition left_of :: "request_info \<Rightarrow> nat" where
  "left_of info = length (the (info_services info)) - the (httpreq info)"

definition tries_left :: "'d network_layer \<Rightarrow> nat" where
  "tries_left s = (\<Sum>(it, info) \<leftarrow> mActiveTransfers s. left_of info)"

lemma effect_simps [simp]:
  "mActiveTransfers (emit e s) = mActiveTransfers s" "fresh_iter (emit e s) = fresh_iter s"
  "mActiveTransfers (base_getData f r cb s) = mActiveTransfers s" "fresh_iter (base_getData f r cb s) = fresh_iter s"
  "fresh_iter (node_erase it s) = fresh_iter s" "fresh_iter (node_update it info s) = fresh_iter s"
  "cleaning (emit e s) = cleaning s" "cleaning (node_erase it s) = cleaning s"
  "cleaning (node_update it info s) = cleaning s" "cleaning (base_getData f r cb s) = cleaning s"
  "answered (node_erase it s) = answered s" "answered (node_update it info s) = answered s"
  "answered (emit e s) = answered s + answers e" "answered (base_getData f r cb s) = add_mset cb (answered s)"
  by (simp_all add: emit_def base_getData_def node_erase_def node_update_def answered_def)

lemma active_erase_simps [simp]:
  "mActiveTransfers (node_erase it (emit e s)) = mActiveTransfers (node_erase it s)"
  "mActiveTransfers (node_erase it (base_getData f r cb s)) = mActiveTransfers (node_erase it s)"
  by (simp_all add: node_erase_def)

lemma split_at_iterator:
  assumes "distinct (map fst xs)" "map_of xs it = Some x"
  obtains pre post where "xs = pre @ (it, x) # post" "it \<notin> fst ` set pre" "it \<notin> fst ` set post"
proof -
  obtain pre post where "xs = pre @ (it, x) # post" using map_of_SomeD [OF assms(2)] by (meson split_list)
  with assms(1) that show ?thesis by (metis distinct_append distinct.simps(2) list.simps(9) map_append not_distinct_conv_prefix set_map fst_conv disjoint_insert(2) list.set(2))
qed

lemma filter_other: "it \<notin> fst ` set xs \<Longrightarrow> filter (\<lambda>(i, _). i \<noteq> it) xs = xs"
  by (induction xs) auto

lemma map_other: "it \<notin> fst ` set xs \<Longrightarrow> map (\<lambda>(i, x). (i, if i = it then info else x)) xs = xs"
  by (induction xs) auto

text \<open>Erasing a request and starting its next download, on the list as it is.\<close>

lemma erase_split:
  assumes "iterators_ok s" "map_of (mActiveTransfers s) it = Some info"
    and "\<forall>(i, x) \<in> set (mActiveTransfers s). i \<noteq> it \<longrightarrow> info_ok x"
  obtains pre post where "mActiveTransfers s = pre @ (it, info) # post" "mActiveTransfers (node_erase it s) = pre @ post"
    "mActiveTransfers (node_update it info' s) = pre @ (it, info') # post" "\<forall>(i, x) \<in> set (pre @ post). info_ok x"
proof -
  obtain pre post where p: "mActiveTransfers s = pre @ (it, info) # post" "it \<notin> fst ` set pre" "it \<notin> fst ` set post"
    using assms split_at_iterator [of "mActiveTransfers s" it info] unfolding iterators_ok_def by metis
  have "info_ok x" if "(i, x) \<in> set (pre @ post)" for i x
  proof -
    have "i \<noteq> it" using that p(2,3) by force
    with that assms(3) p(1) show ?thesis by auto
  qed
  with p show ?thesis by (intro that) (auto simp: node_erase_def node_update_def filter_other map_other)
qed

lemma net_ok_download:
  assumes "iterators_ok s" "map_of (mActiveTransfers s) it = Some info"
    and "\<forall>(i, x) \<in> set (mActiveTransfers s). i \<noteq> it \<longrightarrow> info_ok x"
    and "info_ok info'" "info_callback info' = info_callback info"
  shows "net_ok (node_update it info' s) \<and> waiting (node_update it info' s) = waiting s
    \<and> tries_left (node_update it info' s) + left_of info = tries_left s + left_of info'"
proof -
  obtain pre post where "mActiveTransfers s = pre @ (it, info) # post"
    "mActiveTransfers (node_update it info' s) = pre @ (it, info') # post" "\<forall>(i, x) \<in> set (pre @ post). info_ok x"
    using erase_split [OF assms(1-3), where info' = info'] by blast
  with assms(1,4,5) show ?thesis by (auto simp: net_ok_def iterators_ok_def waiting_def tries_left_def)
qed

lemma net_ok_erased:
  assumes "iterators_ok s" "map_of (mActiveTransfers s) it = Some info"
    and "\<forall>(i, x) \<in> set (mActiveTransfers s). i \<noteq> it \<longrightarrow> info_ok x"
  shows "net_ok (node_erase it s) \<and> waiting s = add_mset (info_callback info) (waiting (node_erase it s))
    \<and> tries_left (node_erase it s) + left_of info = tries_left s"
proof -
  obtain pre post where "mActiveTransfers s = pre @ (it, info) # post" "mActiveTransfers (node_erase it s) = pre @ post"
    "\<forall>(i, x) \<in> set (pre @ post). info_ok x"
    using erase_split [OF assms] by blast
  with assms(1) show ?thesis by (auto simp: net_ok_def iterators_ok_def waiting_def tries_left_def)
qed

lemma net_ok_emit [simp]:
  "net_ok (emit e s) = net_ok s" "iterators_ok (emit e s) = iterators_ok s" "waiting (emit e s) = waiting s"
  "tries_left (emit e s) = tries_left s" "net_ok (base_getData f r cb s) = net_ok s"
  "iterators_ok (base_getData f r cb s) = iterators_ok s" "waiting (base_getData f r cb s) = waiting s"
  "tries_left (base_getData f r cb s) = tries_left s"
  by (simp_all add: net_ok_def iterators_ok_def waiting_def tries_left_def)

text \<open>A fetch keeps the account of callbacks and either starts one download, further down the list, or ends the request.\<close>

lemma doFetch_ok:
  assumes "iterators_ok s" "map_of (mActiveTransfers s) it = Some info"
    and "\<forall>(i, x) \<in> set (mActiveTransfers s). i \<noteq> it \<longrightarrow> info_ok x"
  shows "\<exists>s'. doFetch it which s = Inr s' \<and> net_ok s' \<and> answered s' + waiting s' = answered s + waiting s
    \<and> cleaning s' = cleaning s \<and> (info_ok info \<and> the (httpreq info) < which \<longrightarrow> tries_left s' < tries_left s)
    \<and> (cleaning s \<longrightarrow> mActiveTransfers s' = mActiveTransfers (node_erase it s))"
proof -
  let ?s = "base_getData (info_fileId info) (info_range info) (info_callback info) s"
  have left: "info_ok info \<Longrightarrow> 0 < left_of info" by (auto simp: info_ok_def left_of_def split: option.splits)
  from assms(2) show ?thesis
  proof (cases rule: doFetch_outcome [where which = which])
    case given_up
    have "net_ok (node_erase it ?s) \<and> waiting s = add_mset (info_callback info) (waiting (node_erase it ?s))
        \<and> tries_left (node_erase it ?s) + left_of info = tries_left s"
      using net_ok_erased [of ?s it info] assms by simp
    with given_up left show ?thesis by auto
  next
    case (download which' handler u services)
    let ?i = "info\<lparr>httpreq := Some which'\<rparr>"
    have "net_ok (node_update it ?i s) \<and> waiting (node_update it ?i s) = waiting s
      \<and> tries_left (node_update it ?i s) + left_of info = tries_left s + left_of ?i"
      using assms download by (intro net_ok_download) (auto simp: info_ok_def)
    moreover have "left_of ?i < left_of info" if "info_ok info \<and> the (httpreq info) < which"
      using that download by (auto simp: info_ok_def left_of_def split: option.splits)
    ultimately show ?thesis using download by auto
  qed
qed

lemma httpCallback_ok:
  assumes "net_ok s" "pending s it = Some which"
  shows "\<exists>s'. httpCallback it which d success s = Inr s' \<and> net_ok s' \<and> answered s' + waiting s' = answered s + waiting s
    \<and> cleaning s' = cleaning s \<and> tries_left s' < tries_left s
    \<and> (cleaning s \<longrightarrow> mActiveTransfers s' = mActiveTransfers (node_erase it s))"
proof -
  obtain info where info: "map_of (mActiveTransfers s) it = Some info" "httpreq info = Some which"
    using assms(2) by (auto simp: pending_def bind_eq_Some_conv)
  then have "(it, info) \<in> set (mActiveTransfers s)" by (simp add: map_of_SomeD)
  then have ok: "iterators_ok s" "info_ok info" "\<forall>(i, x) \<in> set (mActiveTransfers s). i \<noteq> it \<longrightarrow> info_ok x"
    using assms(1) by (auto simp: net_ok_def)
  have fetch: "\<exists>s'. doFetch it (which + 1) s = Inr s' \<and> net_ok s' \<and> answered s' + waiting s' = answered s + waiting s
    \<and> cleaning s' = cleaning s \<and> tries_left s' < tries_left s
    \<and> (cleaning s \<longrightarrow> mActiveTransfers s' = mActiveTransfers (node_erase it s))"
    using doFetch_ok [OF ok(1) info(1) ok(3), of "which + 1"] ok(2) info(2) by auto
  show ?thesis
  proof (cases "\<exists>x. d = Some x \<and> success")
    case False
    with fetch info(1) show ?thesis by (cases d) (auto simp: httpCallback_def)
  next
    case True
    then obtain x where x: "d = Some x" success by blast
    let ?s = "emit (Call_back (info_callback info) (Some (addValidData x []))) (emit (Populate_parents (mHash (info_fileId info)) x) s)"
    have "net_ok (node_erase it ?s) \<and> waiting s = add_mset (info_callback info) (waiting (node_erase it ?s))
        \<and> tries_left (node_erase it ?s) + left_of info = tries_left s"
      using net_ok_erased [of ?s it info] ok info by simp
    moreover have "0 < left_of info" using ok(2) by (auto simp: info_ok_def left_of_def split: option.splits)
    ultimately show ?thesis using x info(1) by (auto simp: httpCallback_def)
  qed
qed

lemma net_getData_ok:
  assumes "net_ok s"
  shows "\<exists>s'. net_getData rfid r cb s = Inr s' \<and> net_ok s' \<and> answered s' + waiting s' = add_mset cb (answered s + waiting s)
    \<and> cleaning s' = cleaning s"
proof -
  define info where "info = \<lparr>info_callback = cb, info_fileId = rfid, info_range = r, info_services = None, httpreq = None\<rparr>"
  obtain services reg where reg: "registry_lookupService (mContext (mURI rfid)) True (mProtoReg s) = (services, reg)"
    by fastforce
  let ?it = "fresh_iter s" and ?i = "info\<lparr>info_services := services\<rparr>"
  let ?s = "s\<lparr>mActiveTransfers := mActiveTransfers s @ [(?it, info)], fresh_iter := ?it + 1, mProtoReg := reg\<rparr>"
  have new: "?it \<notin> fst ` set (mActiveTransfers s)" using assms by (auto simp: net_ok_def iterators_ok_def)
  then have none: "map_of (mActiveTransfers s) ?it = None" by (simp add: map_of_eq_None_iff)
  have s: "mActiveTransfers (node_update ?it ?i ?s) = mActiveTransfers s @ [(?it, ?i)]"
    "answered (node_update ?it ?i ?s) = answered s" "fresh_iter (node_update ?it ?i ?s) = ?it + 1"
    using new by (simp_all add: node_update_def map_other answered_def)
  have "iterators_ok (node_update ?it ?i ?s)"
    using assms new unfolding iterators_ok_def net_ok_def s(1,3) by fastforce
  moreover have "map_of (mActiveTransfers (node_update ?it ?i ?s)) ?it = Some ?i"
    using none unfolding s(1) by (simp add: map_add_def)
  moreover have "\<forall>(i, x) \<in> set (mActiveTransfers (node_update ?it ?i ?s)). i \<noteq> ?it \<longrightarrow> info_ok x"
    using assms unfolding s(1) by (auto simp: net_ok_def)
  ultimately have "\<exists>s'. doFetch ?it 0 (node_update ?it ?i ?s) = Inr s' \<and> net_ok s'
    \<and> answered s' + waiting s' = answered (node_update ?it ?i ?s) + waiting (node_update ?it ?i ?s)
    \<and> cleaning s' = cleaning (node_update ?it ?i ?s)"
    using doFetch_ok [of "node_update ?it ?i ?s" ?it ?i 0] by blast
  moreover have "net_getData rfid r cb s = doFetch ?it 0 (node_update ?it ?i ?s)"
    using none reg by (simp add: net_getData_def gotServices_def info_def Let_def map_add_def)
  moreover have "waiting (node_update ?it ?i ?s) = add_mset cb (waiting s)"
    unfolding waiting_def s(1) by (simp add: info_def)
  ultimately show ?thesis using s(2) by (simp add: node_update_def)
qed


lemma net_act_ok:
  assumes "net_ok s"
  shows "\<exists>s'. net_act a s = Inr s' \<and> net_ok s'
    \<and> answered s' + waiting s' = answered s + waiting s + (case a of Get_data _ _ cb \<Rightarrow> {#cb#} | _ \<Rightarrow> {#})"
proof (cases a)
  case (Get_data rfid r cb)
  with net_getData_ok [OF assms, of rfid r cb] show ?thesis by auto
next
  case (Complete it d success)
  with httpCallback_ok [OF assms, of it _ d success] assms show ?thesis by (cases "pending s it") auto
next
  case Begin_cleanup
  with assms show ?thesis by (simp add: net_ok_def iterators_ok_def answered_def waiting_def)
qed

text \<open>The callbacks that a sequence of actions asks for.\<close>

definition callbacks :: "net_action list \<Rightarrow> nat multiset" where
  "callbacks as = mset (concat (map (\<lambda>a. case a of Get_data _ _ cb \<Rightarrow> [cb] | _ \<Rightarrow> []) as))"

lemma net_run_ok:
  "net_ok s \<Longrightarrow> \<exists>s'. net_run as s = Inr s' \<and> net_ok s' \<and> answered s' + waiting s' = answered s + waiting s + callbacks as"
proof (induction as arbitrary: s)
  case (Cons a as)
  obtain s1 where s1: "net_act a s = Inr s1" "net_ok s1"
    "answered s1 + waiting s1 = answered s + waiting s + (case a of Get_data _ _ cb \<Rightarrow> {#cb#} | _ \<Rightarrow> {#})"
    using net_act_ok [OF Cons.prems] by blast
  from Cons.IH [OF s1(2)] s1 show ?case by (cases a) (auto simp: callbacks_def)
qed (simp add: callbacks_def)

lemma net_ok_init: "net_ok (NetworkCacheLayer_init n reg)"
  by (simp add: net_ok_def iterators_ok_def NetworkCacheLayer_init_def)

lemma pending_active: "net_ok s \<Longrightarrow> (it, info) \<in> set (mActiveTransfers s) \<Longrightarrow> \<exists>which. pending s it = Some which"
  by (auto simp: net_ok_def iterators_ok_def pending_def info_ok_def split: option.splits)

lemma abort_all_empties:
  assumes "net_ok s" "cleaning s" "set (map fst (mActiveTransfers s)) \<subseteq> set its"
  shows "\<exists>s'. net_run (map (\<lambda>it. Complete it None False) its) s = Inr s' \<and> mActiveTransfers s' = []"
  using assms
proof (induction its arbitrary: s)
  case (Cons it its)
  show ?case
  proof (cases "pending s it")
    case None
    then have "it \<notin> fst ` set (mActiveTransfers s)" using pending_active [OF Cons.prems(1)] by fastforce
    with Cons.IH [OF Cons.prems(1,2)] Cons.prems(3) None show ?thesis by auto
  next
    case (Some which)
    obtain s1 where s1: "httpCallback it which None False s = Inr s1" "net_ok s1" "cleaning s1"
      "mActiveTransfers s1 = mActiveTransfers (node_erase it s)"
      using httpCallback_ok [OF Cons.prems(1) Some, of None False] Cons.prems(2) by auto
    have "set (map fst (mActiveTransfers s1)) \<subseteq> set its" using Cons.prems(3) by (auto simp: s1(4) node_erase_def)
    with Cons.IH [OF s1(2,3)] s1(1) Some show ?thesis by simp
  qed
qed simp

section \<open>Downloads of one request\<close>

text \<open>
  One request whose downloads are completed as \<open>ask\<close> says, until it has ended: the questions asked and the answer are
  those of the abstract search of \<open>Name_Lookup\<close>.
\<close>

type_synonym 'd downloads = "'d \<Rightarrow> URI \<Rightarrow> dense_data option"

fun complete_all :: "nat \<Rightarrow> 'd downloads \<Rightarrow> nat \<Rightarrow> 'd network_layer \<Rightarrow> net_error + 'd network_layer" where
  "complete_all 0 ask it s = Inr s"
| "complete_all (Suc n) ask it s =
     (case (pending s it, last (effects s)) of
        (Some which, Download _ handler u _) \<Rightarrow>
          sum_bind (httpCallback it which (ask handler u) True s) (complete_all n ask it)
      | _ \<Rightarrow> Inr s)"


lemma candidates_drop:
  assumes "which < length ss"
  shows "candidates reg u (drop which ss) = (case lookup_uri (fst (ss ! which)) u reg of
     (v, None) \<Rightarrow> candidates reg u (drop (Suc which) ss) | (v, Some h) \<Rightarrow> (h, v) # candidates reg u (drop (Suc which) ss))"
  using assms by (simp add: candidates_def Cons_nth_drop_Suc [symmetric] split: prod.splits option.splits)

lemma filter_map_other:
  "filter (\<lambda>(i, _). i \<noteq> it) (map (\<lambda>(i, x). (i, if i = it then info else x)) xs) = filter (\<lambda>(i, _). i \<noteq> it) xs"
  by (induction xs) auto

lemma map_of_updated:
  "map_of xs it \<noteq> None \<Longrightarrow> map_of (map (\<lambda>(i, x). (i, if i = it then info else x)) xs) it = Some info"
  by (induction xs) auto

lemma node_simps [simp]:
  "node_erase it (emit e s) = emit e (node_erase it s)"
  "node_erase it (base_getData f r cb s) = base_getData f r cb (node_erase it s)"
  "node_erase it (node_update it info s) = node_erase it s"
  "map_of (mActiveTransfers (node_erase it s)) it = None"
  "map_of (mActiveTransfers s) it \<noteq> None \<Longrightarrow> map_of (mActiveTransfers (node_update it info s)) it = Some info"
  "mProtoReg (emit e s) = mProtoReg s" "mProtoReg (node_update it info s) = mProtoReg s"
  "effects (emit e s) = effects s @ [e]"
  by (auto simp: node_erase_def node_update_def emit_def base_getData_def filter_map_other map_of_updated map_of_eq_None_iff)

text \<open>What ends a request, after all downloads.\<close>

definition finish :: "request_info \<Rightarrow> dense_data option \<Rightarrow> 'd network_layer \<Rightarrow> 'd network_layer" where
  "finish info d s = (case d of
     Some d \<Rightarrow> emit (Call_back (info_callback info) (Some (addValidData d []))) (emit (Populate_parents (mHash (info_fileId info)) d) s)
   | None \<Rightarrow> base_getData (info_fileId info) (info_range info) (info_callback info) s)"

definition start_downloads :: "nat \<Rightarrow> request_info \<Rightarrow> ('d \<times> URI) list \<Rightarrow> 'd network_layer \<Rightarrow> 'd network_layer" where
  "start_downloads it info cs s = fold (\<lambda>(h, u). emit (Download it h u (info_range info))) cs s"

lemma complete_all_gone: "map_of (mActiveTransfers s) it = None \<Longrightarrow> complete_all n ask it s = Inr s"
  by (cases n) (simp_all add: pending_def)

lemma finish_gone: "map_of (mActiveTransfers (finish info d (node_erase it s))) it = None"
  by (simp add: finish_def split: option.split)

lemma doFetch_complete_all:
  assumes "map_of (mActiveTransfers s) it = Some info" "\<not> cleaning s" "info_services info = Some ss"
    and "which \<le> length ss" "length ss - which \<le> n"
  shows "let cs = candidates (mProtoReg s) (mURI (info_fileId info)) (drop which ss) in
    sum_bind (doFetch it which s) (complete_all n ask it)
    = Inr (finish info (first_answer ask cs) (start_downloads it info (asked ask cs) (node_erase it s)))"
  using assms
proof (induction "length ss - which" arbitrary: which s info n)
  case 0
  then have "doFetch it which s = Inr (finish info None (node_erase it s))"
    by (simp add: doFetch.simps finish_def)
  with 0 finish_gone [of info None it s] show ?case
    by (simp add: candidates_def start_downloads_def complete_all_gone Let_def)
next
  case (Suc k)
  then have which: "which < length ss" "k = length ss - Suc which" "Suc which \<le> length ss" by linarith+
  obtain u h where u: "lookup_uri (fst (ss ! which)) (mURI (info_fileId info)) (mProtoReg s) = (u, h)" by fastforce
  show ?case
  proof (cases h)
    case None
    have "doFetch it which s = doFetch it (Suc which) s"
      using Suc.prems u None which(1) doFetch.simps [of it which s] by simp
    moreover have "candidates (mProtoReg s) (mURI (info_fileId info)) (drop which ss)
        = candidates (mProtoReg s) (mURI (info_fileId info)) (drop (Suc which) ss)"
      using u None by (simp add: candidates_drop [OF which(1)])
    moreover have "length ss - Suc which \<le> n" using Suc.prems(5) by linarith
    ultimately show ?thesis using Suc.hyps(1) [OF which(2) Suc.prems(1-3) which(3), of n] by (simp only:)
  next
    case (Some h')
    let ?i = "info\<lparr>httpreq := Some which\<rparr>" and ?D = "Download it h' u (info_range info)"
    let ?s = "emit ?D (node_update it ?i s)"
    obtain m where n: "n = Suc m" using Suc.prems(5) which(1) by (cases n) auto
    have fetch: "doFetch it which s = Inr ?s"
      using Suc.prems u Some which(1) by (simp add: doFetch.simps)
    have find: "map_of (mActiveTransfers ?s) it = Some ?i" using Suc.prems(1) by simp
    then have run: "sum_bind (doFetch it which s) (complete_all n ask it)
        = sum_bind (httpCallback it which (ask h' u) True ?s) (complete_all m ask it)"
      by (simp add: fetch n pending_def)
    have cs: "candidates (mProtoReg s) (mURI (info_fileId info)) (drop which ss)
        = (h', u) # candidates (mProtoReg s) (mURI (info_fileId info)) (drop (Suc which) ss)"
      using u Some by (simp add: candidates_drop [OF which(1)])
    show ?thesis
    proof (cases "ask h' u")
      case None
      have "finish ?i = (finish info :: _ \<Rightarrow> 'a network_layer \<Rightarrow> _)" by (intro ext) (simp add: finish_def split: option.split)
      moreover have "length ss - Suc which \<le> m" using Suc.prems(5) n by linarith
      ultimately show ?thesis
        using Suc.hyps(1) [OF which(2) find, of m] Suc.prems(2,3) which(3) run cs None find
        by (simp add: httpCallback_def start_downloads_def Let_def)
    next
      case (Some d)
      with find have "httpCallback it which (ask h' u) True ?s = Inr (finish info (Some d) (node_erase it ?s))"
        by (simp add: httpCallback_def finish_def)
      moreover have "start_downloads it info [(h', u)] (node_erase it s) = node_erase it ?s"
        by (simp add: start_downloads_def)
      ultimately show ?thesis using run cs Some finish_gone [of info "Some d" it ?s] by (simp add: complete_all_gone)
    qed
  qed
qed


lemma finish_effects [simp]:
  "effects (finish info d s) = effects s @ (case d of
     Some d \<Rightarrow> [Populate_parents (mHash (info_fileId info)) d, Call_back (info_callback info) (Some (addValidData d []))]
   | None \<Rightarrow> [if has_next s then Next_getData (info_fileId info) (info_range info) (info_callback info)
              else Call_back (info_callback info) None])"
  "mActiveTransfers (finish info d s) = mActiveTransfers s"
  by (simp_all add: finish_def base_getData_def split: option.split)

lemma start_downloads_effects [simp]:
  "has_next (start_downloads it info cs s) = has_next s"
  "effects (start_downloads it info cs s) = effects s @ map (\<lambda>(h, u). Download it h u (info_range info)) cs"
  "mActiveTransfers (start_downloads it info cs s) = mActiveTransfers s"
  by (induction cs arbitrary: s) (auto simp: start_downloads_def emit_def)

section \<open>Properties\<close>




definition sample_network :: "nat network_layer" where
  "sample_network = NetworkCacheLayer_init False (mNameHandlers sample_names)"

definition sample_delivery :: "nat downloads" where
  "sample_delivery h u = (if mHost (mContext u) = ''c.com'' then Some sample_block else None)"


end
