(* ===== verification/Range_Text.thy ===== *)
theory Range_Text
  imports Ranges Uris
begin

text \<open>
  The text in which the disk cache keeps the ranges it has of a file (\<open>serializeRanges\<close> and \<open>unserializeRanges\<close> of
  \<^verbatim>\<open>libcore/src/transfer/DiskCacheLayer.hpp\<close>), with the formatted input of the standard library that reads it: an
  extraction skips white space, takes as many digits as there are, and leaves the stream bad when it fails or when it
  meets the end of the input inside a number.
\<close>

section \<open>Text as bytes\<close>

definition text_bytes :: "string \<Rightarrow> u8 list" where
  "text_bytes = map (\<lambda>c. of_nat (of_char c))"

definition bytes_text :: "u8 list \<Rightarrow> string" where
  "bytes_text = map (\<lambda>b. char_of (unat b))"

lemma text_bytes_text [simp]: "bytes_text (text_bytes s) = s"
proof -
  have "unat (of_nat (of_char c) :: u8) = of_char c" for c :: char
  proof (rule unat_of_nat_eq)
    have "of_char c \<in> {0::nat..<256}" using UNIV_I [of c] nat_of_char_less_256 [of c] by simp
    then show "of_char c < (2::nat) ^ LENGTH(8)" by simp
  qed
  then show ?thesis by (simp add: text_bytes_def bytes_text_def comp_def)
qed

section \<open>Formatted input\<close>

record istream =
  unread :: string
  good :: bool

definition is_digit :: "char \<Rightarrow> bool" where
  "is_digit c \<longleftrightarrow> char_digit c \<noteq> None"

fun digits_value :: "nat \<Rightarrow> string \<Rightarrow> nat" where
  "digits_value n [] = n"
| "digits_value n (c # cs) = digits_value (10 * n + (case char_digit c of None \<Rightarrow> 0 | Some d \<Rightarrow> d)) cs"

fun take_sign :: "string \<Rightarrow> bool \<times> string" where
  "take_sign [] = (False, [])"
| "take_sign (c # cs) = (if c = CHR ''-'' then (True, cs) else if c = CHR ''+'' then (False, cs) else (False, c # cs))"

definition scan_number :: "string \<Rightarrow> bool \<times> string \<times> string" where
  "scan_number s = (case take_sign s of (neg, s) \<Rightarrow> (neg, takeWhile is_digit s, dropWhile is_digit s))"

text \<open>
  Extraction into a variable of 64 bits that holds \<open>old\<close> before. A number out of the range the variable can hold, from
  \<open>- low\<close> to \<open>high\<close>, is replaced by the bound; an unsigned variable takes a minus sign modulo \<open>2 ^ 64\<close>.
\<close>

definition extract_num :: "nat \<Rightarrow> nat \<Rightarrow> u64 \<Rightarrow> istream \<Rightarrow> u64 \<times> istream" where
  "extract_num low high old i =
     (if \<not> good i then (old, i)
      else let s = dropWhile IsSpace (unread i) in
        if s = [] then (old, \<lparr>unread = [], good = False\<rparr>)
        else case scan_number s of (neg, ds, r) \<Rightarrow>
          let n = digits_value 0 ds in
          if ds = [] then (0, \<lparr>unread = r, good = False\<rparr>)
          else if neg \<and> n > low then (- of_nat low, \<lparr>unread = r, good = False\<rparr>)
          else if \<not> neg \<and> n > high then (of_nat high, \<lparr>unread = r, good = False\<rparr>)
          else (if neg then - of_nat n else of_nat n, \<lparr>unread = r, good = (r \<noteq> [])\<rparr>))"

definition extract_u64 :: "u64 \<Rightarrow> istream \<Rightarrow> u64 \<times> istream" where
  "extract_u64 = extract_num (2 ^ 64 - 1) (2 ^ 64 - 1)"

definition extract_s64 :: "u64 \<Rightarrow> istream \<Rightarrow> u64 \<times> istream" where
  "extract_s64 = extract_num (2 ^ 63) (2 ^ 63 - 1)"

definition extract_char :: "istream \<Rightarrow> istream" where
  "extract_char i =
     (if \<not> good i then i
      else case dropWhile IsSpace (unread i) of [] \<Rightarrow> \<lparr>unread = [], good = False\<rparr> | c # cs \<Rightarrow> \<lparr>unread = cs, good = True\<rparr>)"

section \<open>Ranges as text\<close>

definition show_s64 :: "u64 \<Rightarrow> string" where
  "show_s64 w = (if sint w < 0 then ''-'' @ show_nat (nat (- sint w)) else show_nat (nat (sint w)))"

definition serialize_range :: "range \<Rightarrow> string" where
  "serialize_range r =
     (let len = range_length r;
          len = (if goesToEndOfFile r then - len else len)
      in show_u64 (startbyte r) @ '' '' @ show_s64 len @ ''; '')"

definition serializeRanges :: "range list \<Rightarrow> string" where
  "serializeRanges list = concat (map serialize_range list)"

definition stream_measure :: "istream \<Rightarrow> nat" where
  "stream_measure i = length (unread i) + (if good i then 1 else 0)"

lemma scan_number_length: "scan_number s = (neg, ds, r) \<Longrightarrow> length ds + length r \<le> length s"
proof -
  assume scan: "scan_number s = (neg, ds, r)"
  obtain neg' t where t: "take_sign s = (neg', t)" by fastforce
  then have "length t \<le> length s" by (cases s) (auto split: if_splits)
  moreover have "length ds + length r = length t"
    using scan t by (auto simp: scan_number_def simp flip: length_append)
  ultimately show ?thesis by simp
qed

lemma extract_num_measure: "good i \<Longrightarrow> stream_measure (snd (extract_num low high old i)) < stream_measure i"
proof -
  assume g: "good i"
  obtain neg ds r where scan: "scan_number (dropWhile IsSpace (unread i)) = (neg, ds, r)" by (metis prod_cases3)
  have le: "length ds + length r \<le> length (unread i)"
    using scan_number_length [OF scan] length_dropWhile_le [of IsSpace "unread i"] by simp
  then have "ds \<noteq> [] \<Longrightarrow> length r < length (unread i)" by (cases ds) auto
  with le show ?thesis
    using g scan by (auto simp: extract_num_def stream_measure_def Let_def)
qed

lemma extract_num_measure_le: "stream_measure (snd (extract_num low high old i)) \<le> stream_measure i"
proof (cases "good i")
  case True
  then show ?thesis by (rule less_imp_le [OF extract_num_measure])
qed (simp add: extract_num_def)

lemma extract_char_measure: "stream_measure (extract_char i) \<le> stream_measure i"
  using length_dropWhile_le [of IsSpace "unread i"]
  by (auto simp: extract_char_def stream_measure_def split: list.split)

lemma extractions_measure:
  assumes "good i" "(start, i1) = extract_u64 0 i" "(len, i2) = extract_s64 0 i1"
  shows "stream_measure i2 < stream_measure i" "stream_measure (extract_char i2) < stream_measure i"
proof -
  have "stream_measure i1 < stream_measure i" "stream_measure i2 \<le> stream_measure i1"
    using assms extract_num_measure [of i] extract_num_measure_le [of _ _ _ i1]
    by (metis extract_u64_def snd_conv) (metis assms(3) extract_num_measure_le extract_s64_def snd_conv)
  then show "stream_measure i2 < stream_measure i" by simp
  then show "stream_measure (extract_char i2) < stream_measure i" using extract_char_measure [of i2] by simp
qed

text \<open>A zero length ends the iteration before the separator is read. Negating the smallest integer leaves it as it is.\<close>

function unserializeRanges :: "range list \<Rightarrow> istream \<Rightarrow> range list" where
  "unserializeRanges rlist iranges =
     (if \<not> good iranges then rlist
      else case extract_u64 0 iranges of (start, iranges) \<Rightarrow>
           case extract_s64 0 iranges of (len, iranges) \<Rightarrow>
             if len = 0 then unserializeRanges rlist iranges
             else let toEndOfFile = (sint len < 0);
                      len = (if sint len < 0 then - len else len);
                      toAdd = Range_make start len Init_LENGTH toEndOfFile
                  in unserializeRanges (addToList toAdd toAdd rlist) (extract_char iranges))"
  by pat_completeness auto
termination
  by (relation "measure (\<lambda>(_, i). stream_measure i)") (auto intro: extractions_measure)

declare unserializeRanges.simps [simp del]

section \<open>Reading back\<close>

lemma digits_value_append: "digits_value n (xs @ ys) = digits_value (digits_value n xs) ys"
  by (induction n xs rule: digits_value.induct) auto

lemma digit_char_is_digit [simp]: "d < 10 \<Longrightarrow> is_digit (digit_char d)"
  by (simp add: is_digit_def)

lemma show_nat_value: "digits_value 0 (show_nat n) = n \<and> list_all is_digit (show_nat n)"
proof (induction n rule: show_nat.induct)
  case (1 n)
  show ?case
  proof (cases "n < 10")
    case True
    then show ?thesis by (simp add: show_nat.simps [of n])
  next
    case False
    with 1 show ?thesis by (simp add: show_nat.simps [of n] digits_value_append)
  qed
qed

lemma IsSpace_digit: "is_digit c \<Longrightarrow> \<not> IsSpace c \<and> c \<noteq> CHR ''-'' \<and> c \<noteq> CHR ''+''"
  by (auto simp: is_digit_def char_digit_def IsSpace_def Let_def split: if_splits)

lemma scan_shown:
  assumes "\<not> is_digit c"
  shows "scan_number (show_nat n @ c # s) = (False, show_nat n, c # s)"
    and "scan_number (CHR ''-'' # show_nat n @ c # s) = (True, show_nat n, c # s)"
proof -
  have d: "list_all is_digit (show_nat n)" using show_nat_value by blast
  then have "takeWhile is_digit (show_nat n @ c # s) = show_nat n" "dropWhile is_digit (show_nat n @ c # s) = c # s"
    using assms by (auto simp: list_all_iff takeWhile_tail dropWhile_append2)
  moreover obtain x xs where "show_nat n = x # xs" by (cases "show_nat n") auto
  moreover from this have "\<not> IsSpace x \<and> x \<noteq> CHR ''-'' \<and> x \<noteq> CHR ''+''" using d IsSpace_digit by simp
  ultimately show "scan_number (show_nat n @ c # s) = (False, show_nat n, c # s)"
    "scan_number (CHR ''-'' # show_nat n @ c # s) = (True, show_nat n, c # s)"
    by (auto simp: scan_number_def)
qed

lemma dropWhile_space_shown [simp]:
  "dropWhile IsSpace (show_nat n @ s) = show_nat n @ s"
  "dropWhile IsSpace (CHR ''-'' # s) = CHR ''-'' # s"
  "dropWhile IsSpace (CHR '' '' # s) = dropWhile IsSpace s"
  "dropWhile IsSpace (CHR '';'' # s) = CHR '';'' # s"
proof -
  obtain x xs where x: "show_nat n = x # xs" by (cases "show_nat n") auto
  then have "is_digit x" using show_nat_value [of n] by simp
  with x show "dropWhile IsSpace (show_nat n @ s) = show_nat n @ s" by (simp add: IsSpace_digit)
qed (simp_all add: IsSpace_def)

lemma space_simps [simp]: "IsSpace CHR '' ''" "\<not> IsSpace CHR '';''" "\<not> IsSpace CHR ''-''"
  by (simp_all add: IsSpace_def)

lemma not_digits [simp]: "\<not> is_digit (CHR '' '')" "\<not> is_digit (CHR '';'')"
  by (simp_all add: is_digit_def char_digit_def)

lemma extract_shown:
  assumes "c = CHR '' '' \<or> c = CHR '';''" "dropWhile IsSpace t = show_nat n @ c # s"
  shows "n \<le> high \<Longrightarrow> extract_num low high old \<lparr>unread = t, good = True\<rparr>
      = (of_nat n, \<lparr>unread = c # s, good = True\<rparr>)"
  using assms scan_shown [of c n s] show_nat_value [of n] by (auto simp: extract_num_def)

lemma extract_shown_negative:
  assumes "c = CHR '' '' \<or> c = CHR '';''" "dropWhile IsSpace t = CHR ''-'' # show_nat n @ c # s"
  shows "n \<le> low \<Longrightarrow> extract_num low high old \<lparr>unread = t, good = True\<rparr>
      = (- of_nat n, \<lparr>unread = c # s, good = True\<rparr>)"
  using assms scan_shown [of c n s] show_nat_value [of n] by (auto simp: extract_num_def)


text \<open>A range that can be written: its length is positive and fits the signed type.\<close>

definition writable_range :: "range \<Rightarrow> bool" where
  "writable_range r \<longleftrightarrow> mLength r \<noteq> 0 \<and> unat (mLength r) < 2 ^ 63"

lemma sint_writable: "writable_range r \<Longrightarrow> sint (mLength r) = int (unat (mLength r)) \<and> sint (- mLength r) = - int (unat (mLength r))"
proof -
  assume w: "writable_range r"
  then have pos: "sint (mLength r) = int (unat (mLength r))" by (simp add: writable_range_def sint_small)
  have "int (unat (mLength r)) < int (2 ^ 63)" using w unfolding of_nat_less_iff writable_range_def by blast
  moreover have "int 0 < int (unat (mLength r))"
    using w unfolding of_nat_less_iff by (simp add: writable_range_def unat_gt_0)
  ultimately have n: "0 < uint (mLength r)" "uint (mLength r) < 2 ^ 63" by simp_all
  have "sint (- mLength r) = sint (word_of_int (- uint (mLength r)) :: u64)" by simp
  also have "\<dots> = - uint (mLength r)"
    using n by (subst sint_sbintrunc') (simp add: signed_take_bit_int_eq_self)
  finally show ?thesis using pos by simp
qed

definition signed_length :: "range \<Rightarrow> u64" where
  "signed_length r = (if mWholeFile r then - mLength r else mLength r)"

lemma show_signed_length:
  assumes "writable_range r"
  shows "show_s64 (signed_length r) = (if mWholeFile r then ''-'' else []) @ show_nat (unat (mLength r))"
    and "sint (signed_length r) < 0 \<longleftrightarrow> mWholeFile r" and "signed_length r \<noteq> 0"
proof -
  have "0 < unat (mLength r)" using assms by (simp add: writable_range_def unat_gt_0)
  then show "show_s64 (signed_length r) = (if mWholeFile r then ''-'' else []) @ show_nat (unat (mLength r))"
    "sint (signed_length r) < 0 \<longleftrightarrow> mWholeFile r"
    using sint_writable [OF assms] by (auto simp: show_s64_def signed_length_def simp del: of_nat_unat)
  show "signed_length r \<noteq> 0" using assms by (simp add: signed_length_def writable_range_def)
qed

lemma extract_signed_length:
  assumes "writable_range r"
  shows "extract_s64 0 \<lparr>unread = CHR '' '' # show_s64 (signed_length r) @ CHR '';'' # s, good = True\<rparr>
      = (signed_length r, \<lparr>unread = CHR '';'' # s, good = True\<rparr>)"
proof -
  let ?u = "CHR '' '' # show_s64 (signed_length r) @ CHR '';'' # s"
  have n: "unat (mLength r) \<le> 2 ^ 63 - 1" "unat (mLength r) \<le> 2 ^ 63"
    using assms by (simp_all add: writable_range_def)
  show ?thesis
  proof (cases "mWholeFile r")
    case True
    then have "dropWhile IsSpace ?u = CHR ''-'' # show_nat (unat (mLength r)) @ CHR '';'' # s"
      using show_signed_length(1) [OF assms] by simp
    from extract_shown_negative [OF _ this n(2)] True show ?thesis by (simp add: extract_s64_def signed_length_def)
  next
    case False
    then have "dropWhile IsSpace ?u = show_nat (unat (mLength r)) @ CHR '';'' # s"
      using show_signed_length(1) [OF assms] by simp
    from extract_shown [OF _ this n(1)] False show ?thesis by (simp add: extract_s64_def signed_length_def)
  qed
qed

lemma extract_start:
  assumes "dropWhile IsSpace t = show_u64 w @ CHR '' '' # s"
  shows "extract_u64 0 \<lparr>unread = t, good = True\<rparr> = (w, \<lparr>unread = CHR '' '' # s, good = True\<rparr>)"
proof -
  have "unat w \<le> 2 ^ 64 - 1" using unsigned_less [of w, where 'a = nat] by simp
  from extract_shown [OF _ assms [unfolded show_u64_def] this] show ?thesis by (simp add: extract_u64_def)
qed

lemma read_range:
  assumes "writable_range r" "dropWhile IsSpace t = serialize_range r @ s"
  shows "unserializeRanges rl \<lparr>unread = t, good = True\<rparr> = unserializeRanges (addToList r r rl) \<lparr>unread = CHR '' '' # s, good = True\<rparr>"
proof -
  let ?u = "CHR '' '' # show_s64 (signed_length r) @ CHR '';'' # CHR '' '' # s"
  have "extract_u64 0 \<lparr>unread = t, good = True\<rparr> = (mStart r, \<lparr>unread = ?u, good = True\<rparr>)"
    using assms(2) by (intro extract_start) (simp add: serialize_range_def signed_length_def accessor_defs Let_def)
  moreover have "extract_s64 0 \<lparr>unread = ?u, good = True\<rparr>
      = (signed_length r, \<lparr>unread = CHR '';'' # CHR '' '' # s, good = True\<rparr>)"
    by (rule extract_signed_length [OF assms(1)])
  moreover have "(if sint (signed_length r) < 0 then - signed_length r else signed_length r) = mLength r"
    using show_signed_length(2) [OF assms(1)] by (simp add: signed_length_def)
  moreover have "Range_make (mStart r) (mLength r) Init_LENGTH (mWholeFile r) = r" by (simp add: Range_make_def)
  moreover have "extract_char \<lparr>unread = CHR '';'' # CHR '' '' # s, good = True\<rparr> = \<lparr>unread = CHR '' '' # s, good = True\<rparr>"
    by (simp add: extract_char_def)
  ultimately show ?thesis
    using show_signed_length(2,3) [OF assms(1)]
    by (simp add: unserializeRanges.simps [of rl "\<lparr>unread = t, good = True\<rparr>"] Let_def)
qed

lemma read_end: "dropWhile IsSpace t = [] \<Longrightarrow> unserializeRanges rl \<lparr>unread = t, good = True\<rparr> = rl"
  by (simp add: unserializeRanges.simps [of rl "\<lparr>unread = t, good = True\<rparr>"]
      unserializeRanges.simps [of rl "\<lparr>unread = [], good = False\<rparr>"] extract_u64_def extract_s64_def extract_num_def)

lemma add_scan_all:
  assumes "\<forall>x\<in>set xs. startbyte x < a \<and> \<not> goesToEndOfFile x \<and> (\<not> eof \<longrightarrow> endbyte x \<le> b)" "\<not> eof \<longrightarrow> m \<le> b"
  shows "\<exists>m'. add_scan a m False xs = (m', False, xs, []) \<and> (\<not> eof \<longrightarrow> m' \<le> b)"
  using assms
proof (induction xs arbitrary: m)
  case (Cons x xs)
  let ?m = "if endbyte x > m then endbyte x else m"
  have x: "startbyte x < a" "\<not> goesToEndOfFile x" "\<not> eof \<longrightarrow> endbyte x \<le> b" using Cons.prems by auto
  obtain m' where "add_scan a ?m False xs = (m', False, xs, [])" "\<not> eof \<longrightarrow> m' \<le> b"
  proof -
    have "\<not> eof \<longrightarrow> ?m \<le> b" using x(3) Cons.prems(2) by simp
    with Cons.IH [of ?m] Cons.prems(1) that show ?thesis by (meson list.set_intros(2))
  qed
  with x show ?case by (simp add: Let_def not_less less_imp_le not_le)
qed simp

lemma addToList_last:
  assumes "range_list_ok (xs @ [x])"
  shows "addToList x x xs = xs @ [x]"
proof -
  have x: "range_ok x" "\<forall>y\<in>set xs. range_before y x"
    using assms by (auto simp: range_list_ok_def sorted_wrt_append)
  show ?thesis
  proof (cases "startbyte x = 0 \<and> goesToEndOfFile x")
    case True
    then have "xs = []" using x(2) by (cases xs) (auto simp: range_before_def)
    with True x(1) show ?thesis by (auto simp: addToList_def range_ok_def accessor_defs)
  next
    case False
    have "startbyte x \<le> endbyte x" using x(1) by (simp add: range_ok_def)
    then obtain m where "add_scan (startbyte x) (startbyte x) False xs = (m, False, xs, [])"
      "\<not> goesToEndOfFile x \<longrightarrow> m \<le> endbyte x"
      using add_scan_all [of xs "startbyte x" "goesToEndOfFile x" "endbyte x" "startbyte x"] x(2)
      by (auto simp: range_before_def)
    with False x(1) show ?thesis by (auto simp: addToList_def add_erase_def range_ok_iff range_length_def)
  qed
qed

lemma read_ranges:
  assumes "range_list_ok (xs @ rs)" "list_all writable_range rs" "t = serializeRanges rs \<or> t = CHR '' '' # serializeRanges rs"
  shows "unserializeRanges xs \<lparr>unread = t, good = True\<rparr> = xs @ rs"
  using assms
proof (induction rs arbitrary: xs t)
  case Nil
  then show ?case by (auto simp: serializeRanges_def intro!: read_end)
next
  case (Cons r rs)
  have "dropWhile IsSpace t = serialize_range r @ serializeRanges rs"
    using Cons.prems(3) by (auto simp: serializeRanges_def serialize_range_def show_u64_def Let_def)
  then have "unserializeRanges xs \<lparr>unread = t, good = True\<rparr>
      = unserializeRanges (addToList r r xs) \<lparr>unread = CHR '' '' # serializeRanges rs, good = True\<rparr>"
    using read_range [of r] Cons.prems(2) by simp
  moreover have "range_list_ok (xs @ [r])" using Cons.prems(1) by (auto simp: range_list_ok_def sorted_wrt_append)
  ultimately show ?case using Cons.IH [of "xs @ [r]"] Cons.prems by (simp add: addToList_last)
qed


section \<open>Properties\<close>

text \<open>
  C21: the ranges of a partial file survive on disk. A well-formed list of ranges, each of a positive length below \<open>2 ^ 63\<close>, is
  read back from its text, also when the last range goes to the end of the file; reading ends on every input.
\<close>

theorem ranges_text_roundtrip:
  assumes "range_list_ok rs" "list_all writable_range rs"
  shows "unserializeRanges [] \<lparr>unread = serializeRanges rs, good = True\<rparr> = rs"
  using read_ranges [of "[]" rs "serializeRanges rs"] assms by simp

theorem ranges_text_roundtrip_witness:
  "unserializeRanges [] \<lparr>unread = ''0 100; 150 -50; '', good = True\<rparr>
    = [Range_make 0 100 Init_LENGTH False, Range_make 150 50 Init_LENGTH True]"
proof -
  let ?rs = "[Range_make 0 100 Init_LENGTH False, Range_make 150 50 Init_LENGTH True]"
  have "range_list_ok ?rs" "list_all writable_range ?rs"
    by (simp_all add: range_list_ok_def range_ok_def range_before_def accessor_defs writable_range_def)
  moreover have "serializeRanges ?rs = ''0 100; 150 -50; ''" by code_simp
  ultimately show ?thesis using ranges_text_roundtrip [of ?rs] by simp
qed

text \<open>A range to the end of the file whose length is not known has the length zero: it is lost, and all that follow it.\<close>

lemma unknown_length_lost: "unserializeRanges rl \<lparr>unread = serializeRanges (Range_from 5 True # rs), good = True\<rparr> = rl"
proof -
  let ?t = "serializeRanges (Range_from 5 True # rs)"
  have t: "?t = show_nat 5 @ '' '' @ show_nat 0 @ ''; '' @ serializeRanges rs"
    by (simp add: serializeRanges_def serialize_range_def accessor_defs show_u64_def show_s64_def)
  let ?u = "\<lparr>unread = '' '' @ show_nat 0 @ ''; '' @ serializeRanges rs, good = True\<rparr>"
  let ?v = "\<lparr>unread = CHR '';'' # CHR '' '' # serializeRanges rs, good = True\<rparr>"
  have "extract_u64 0 \<lparr>unread = ?t, good = True\<rparr> = (5, ?u)"
    using extract_shown [of "CHR '' ''" ?t 5 "show_nat 0 @ ''; '' @ serializeRanges rs" "2 ^ 64 - 1" "2 ^ 64 - 1" 0]
    by (simp add: extract_u64_def t)
  moreover have "extract_s64 0 ?u = (0, ?v)"
    using extract_shown [of "CHR '';''" "unread ?u" 0 "'' '' @ serializeRanges rs" "2 ^ 63 - 1" "2 ^ 63" 0]
    by (simp add: extract_s64_def)
  moreover have "extract_u64 0 ?v = (0, \<lparr>unread = unread ?v, good = False\<rparr>)"
    by (simp add: extract_u64_def extract_num_def scan_number_def)
  moreover have "extract_s64 0 \<lparr>unread = unread ?v, good = False\<rparr> = (0, \<lparr>unread = unread ?v, good = False\<rparr>)"
    by (simp add: extract_s64_def extract_num_def)
  ultimately show ?thesis
    by (simp add: unserializeRanges.simps [of rl "\<lparr>unread = ?t, good = True\<rparr>"] unserializeRanges.simps [of rl ?v]
        unserializeRanges.simps [of rl "\<lparr>unread = CHR '';'' # CHR '' '' # serializeRanges rs, good = False\<rparr>"])
qed

end
