(* ===== verification/Disk_Layer.thy ===== *)
theory Disk_Layer
  imports Range_Text Cache_Layers "HOL-Library.List_Lexorder"
begin

text \<open>
  The disk layer (\<^verbatim>\<open>libcore/src/transfer/DiskCacheLayer.hpp\<close>, \<^verbatim>\<open>DiskCacheLayer.cpp\<close>). Clients look into the map of cached
  files and queue requests; one worker thread takes them from the queue and works on the files. A file of which all is
  known is stored under the hexadecimal form of its fingerprint; of a partial file there are a file of data and a file of
  ranges. The file system is a map from paths to bytes; what \<open>open\<close> allows and how much space a file takes are
  arguments, reads and writes transfer all they can, and directories are not represented. A request of the worker is one
  step: only the worker touches the files.
\<close>

section \<open>Files\<close>

type_synonym files = "string \<rightharpoonup> u8 list"

record disk_env =
  can_open :: "string \<Rightarrow> bool"
  getDiskUsage :: "u8 list \<Rightarrow> u64"

definition PARTIAL_SUFFIX :: string where
  "PARTIAL_SUFFIX = ''.part''"

definition RANGES_SUFFIX :: string where
  "RANGES_SUFFIX = ''.ranges''"

definition unlink :: "string \<Rightarrow> files \<Rightarrow> files" where
  "unlink path fs = fs(path := None)"

definition rename :: "string \<Rightarrow> string \<Rightarrow> files \<Rightarrow> files" where
  "rename old new fs = (case fs old of None \<Rightarrow> fs | Some bytes \<Rightarrow> fs(old := None, new \<mapsto> bytes))"

text \<open>\<open>lseek\<close> and \<open>write\<close>: a gap before the position is filled with zeros.\<close>

definition write_at :: "nat \<Rightarrow> u8 list \<Rightarrow> u8 list \<Rightarrow> u8 list" where
  "write_at pos d bytes = (let bytes = bytes @ replicate (pos - length bytes) 0
     in take pos bytes @ d @ drop (pos + length d) bytes)"

section \<open>The layer\<close>

definition wholeFile :: "range list \<Rightarrow> bool" where
  "wholeFile mRanges \<longleftrightarrow> mRanges = []"

definition cache_contains :: "'a range_scheme \<Rightarrow> range list \<Rightarrow> bool" where
  "cache_contains r mRanges = (if wholeFile mRanges then True else isContainedBy_list r mRanges)"

datatype Operation = OPREAD | OPWRITE | OPDELETE | OPEXIT

record DiskRequest =
  req_op :: Operation
  req_fileId :: RemoteFileId
  toRead :: range
  req_finished :: nat
  req_data :: "dense_data option"

datatype disk_effect =
    Populate_above digest dense_data
  | Finished nat sparse_data
  | Ask_next RemoteFileId range nat
  | Purge_next digest

record ('h, 'p) disk_layer =
  mFiles :: "(digest, range list, 'h, 'p, unit) cache_map"
  mPrefix :: string
  mRequestQueue :: "DiskRequest list"
  mCleaningUp :: bool
  worker_done :: bool
  on_disk :: files
  disk_effects :: "disk_effect list"

datatype disk_error = Disk_map_error ub | Null_cache_data | Null_file

definition disk_ub :: "ub + 'a \<Rightarrow> disk_error + 'a" where
  "disk_ub x = (case x of Inl u \<Rightarrow> Inl (Disk_map_error u) | Inr a \<Rightarrow> Inr a)"

definition effect :: "disk_effect \<Rightarrow> ('h, 'p) disk_layer \<Rightarrow> ('h, 'p) disk_layer" where
  "effect e s = s\<lparr>disk_effects := disk_effects s @ [e]\<rparr>"

definition push_request :: "DiskRequest \<Rightarrow> ('h, 'p) disk_layer \<Rightarrow> ('h, 'p) disk_layer" where
  "push_request req s = s\<lparr>mRequestQueue := mRequestQueue s @ [req]\<rparr>"

definition readDataFromDisk :: "RemoteFileId \<Rightarrow> range \<Rightarrow> nat \<Rightarrow> ('h, 'p) disk_layer \<Rightarrow> ('h, 'p) disk_layer" where
  "readDataFromDisk fileURI requestedRange callback s = push_request
     \<lparr>req_op = OPREAD, req_fileId = fileURI, toRead = requestedRange, req_finished = callback, req_data = None\<rparr> s"

definition disk_populateCache :: "digest \<Rightarrow> dense_data \<Rightarrow> ('h, 'p) disk_layer \<Rightarrow> ('h, 'p) disk_layer" where
  "disk_populateCache fileId d s =
     (let req = \<lparr>req_op = OPWRITE, req_fileId = \<lparr>mHash = fileId, mURI = URI_relative URIContext_default []\<rparr>,
            toRead = as_range d, req_finished = 0, req_data = Some d\<rparr>
      in effect (Populate_above (mHash (req_fileId req)) d) (push_request req s))"

text \<open>The request to delete the files is made but not queued: nothing is left of it.\<close>

definition disk_destroyCacheEntry :: "(unit, digest, range list) destroy_entry" where
  "disk_destroyCacheEntry fileId cacheLayerData releaseSize owner = owner"

definition disk_purgeFromCache :: "('p, digest, 'h) policy_ops \<Rightarrow> digest \<Rightarrow> ('h, 'p) disk_layer
    \<Rightarrow> disk_error + ('h, 'p) disk_layer" where
  "disk_purgeFromCache vt fileId s =
     sum_bind (case iter_find fileId (mFiles s) of
                 None \<Rightarrow> Inr s
               | it \<Rightarrow> sum_bind (disk_ub (iter_erase vt disk_destroyCacheEntry (mFiles s) it)) (\<lambda>(cm, _). Inr (s\<lparr>mFiles := cm\<rparr>)))
       (\<lambda>s. Inr (effect (Purge_next fileId) s))"

definition disk_getData :: "('p, digest, 'h) policy_ops \<Rightarrow> RemoteFileId \<Rightarrow> range \<Rightarrow> nat \<Rightarrow> ('h, 'p) disk_layer
    \<Rightarrow> disk_error + ('h, 'p) disk_layer" where
  "disk_getData vt fileId requestedRange callback s =
     (let it = iter_find (mHash fileId) (mFiles s) in
      sum_bind (if it = None then Inr False
                else sum_bind (disk_ub (iter_deref (mFiles s) it)) (\<lambda>cdata.
                  case cdata of None \<Rightarrow> Inl Null_cache_data | Some rlist \<Rightarrow> Inr (cache_contains requestedRange rlist)))
        (\<lambda>haveRange.
           if haveRange
           then sum_bind (disk_ub (iter_use vt (mFiles s) it)) (\<lambda>cm.
                  Inr (readDataFromDisk fileId requestedRange callback (s\<lparr>mFiles := cm\<rparr>)))
           else Inr (effect (Ask_next fileId requestedRange callback) s)))"

section \<open>The worker\<close>

text \<open>Writing: what the worker does under the first lock; without a result it goes on to the next request.\<close>

definition write_admit :: "('p, digest, 'h) policy_ops \<Rightarrow> digest \<Rightarrow> dense_data
    \<Rightarrow> (digest, range list, 'h, 'p, unit) cache_map
    \<Rightarrow> (disk_error, (digest, range list, 'h, 'p, unit) cache_map \<times> bool option) run" where
  "write_admit vt fid d cm =
     (let it = iter_find fid cm in
      case (if it = None then Inr (Some True)
            else sum_bind (disk_ub (iter_deref cm it)) (\<lambda>cdata.
              case cdata of
                None \<Rightarrow> Inl Null_cache_data
              | Some rlist \<Rightarrow> Inr (if wholeFile rlist \<or> cache_contains d rlist then None else Some False))) of
        Inl e \<Rightarrow> Some (Inl e)
      | Inr None \<Rightarrow> Some (Inr (cm, None))
      | Inr (Some newFile) \<Rightarrow>
          (case alloc vt disk_destroyCacheEntry (range_length d) cm it of
             None \<Rightarrow> None
           | Some (Inl u) \<Rightarrow> Some (Inl (Disk_map_error u))
           | Some (Inr (cm, it, allocated)) \<Rightarrow> Some (Inr (cm, if allocated then Some newFile else None))))"

text \<open>Under the second lock: the entry with its new ranges, and their text.\<close>

definition write_record :: "('p, digest, 'h) policy_ops \<Rightarrow> digest \<Rightarrow> dense_data \<Rightarrow> u64
    \<Rightarrow> (digest, range list, 'h, 'p, unit) cache_map
    \<Rightarrow> disk_error + (digest, range list, 'h, 'p, unit) cache_map \<times> string" where
  "write_record vt fid d diskUsage cm =
     (case iter_insert vt fid diskUsage cm of
        (cm, writer, newentry) \<Rightarrow>
          sum_bind (if newentry
                    then sum_bind (disk_ub (iter_assign (Some []) cm writer)) (\<lambda>cm. disk_ub (iter_use vt cm writer))
                    else disk_ub (iter_update vt diskUsage cm writer)) (\<lambda>cm.
          sum_bind (disk_ub (iter_deref cm writer)) (\<lambda>cdata.
            case cdata of
              None \<Rightarrow> Inl Null_cache_data
            | Some rlist \<Rightarrow>
                (let rlist = addToList d (as_range d) rlist;
                     covers = isContainedBy_list (Range_whole True) rlist;
                     rlist' = (if covers then [] else rlist)
                 in sum_bind (disk_ub (iter_assign (Some rlist') cm writer)) (\<lambda>cm.
                    Inr (cm, if covers then [] else serializeRanges rlist))))))"

definition file_path :: "digest \<Rightarrow> ('h, 'p) disk_layer \<Rightarrow> string" where
  "file_path fid s = mPrefix s @ convertToHexString fid"

text \<open>Between the locks and after them the worker writes the files.\<close>

definition write_data :: "disk_env \<Rightarrow> ('p, digest, 'h) policy_ops \<Rightarrow> digest \<Rightarrow> dense_data \<Rightarrow> files
    \<Rightarrow> ('h, 'p) disk_layer \<Rightarrow> (disk_error, ('h, 'p) disk_layer) run" where
  "write_data env vt fid d fs s =
     (let rangesPath = file_path fid s @ RANGES_SUFFIX; filePath = file_path fid s @ PARTIAL_SUFFIX in
      if \<not> can_open env filePath then Some (Inr (s\<lparr>on_disk := fs\<rparr>))
      else
        let old = (case fs filePath of None \<Rightarrow> [] | Some bytes \<Rightarrow> bytes);
            bytes = write_at (unat (startbyte d)) (take (unat (range_length d)) (mData d)) old;
            fs = fs(filePath \<mapsto> bytes)
        in case write_record vt fid d (getDiskUsage env bytes) (mFiles s) of
             Inl e \<Rightarrow> Some (Inl e)
           | Inr (cm, rangesStr) \<Rightarrow>
               if rangesStr = []
               then Some (Inr (s\<lparr>mFiles := cm, on_disk := unlink rangesPath (rename filePath (file_path fid s) fs)\<rparr>))
               else if \<not> can_open env (rangesPath @ ''.temp'') then Some (Inl Null_file)
               else Some (Inr (s\<lparr>mFiles := cm, on_disk := rename (rangesPath @ ''.temp'') rangesPath
                      (fs(rangesPath @ ''.temp'' \<mapsto> text_bytes rangesStr))\<rparr>)))"

definition do_write :: "disk_env \<Rightarrow> ('p, digest, 'h) policy_ops \<Rightarrow> digest \<Rightarrow> dense_data
    \<Rightarrow> ('h, 'p) disk_layer \<Rightarrow> (disk_error, ('h, 'p) disk_layer) run" where
  "do_write env vt fid d s =
     run_bind (write_admit vt fid d (mFiles s)) (\<lambda>(cm, admitted).
       case admitted of
         None \<Rightarrow> Some (Inr (s\<lparr>mFiles := cm\<rparr>))
       | Some newFile \<Rightarrow> write_data env vt fid d
           (if newFile then unlink (file_path fid s @ RANGES_SUFFIX) (on_disk s) else on_disk s) (s\<lparr>mFiles := cm\<rparr>))"

text \<open>Reading: the block is zeros where the file ends before the requested range does.\<close>

definition read_block :: "range \<Rightarrow> u8 list \<Rightarrow> dense_data" where
  "read_block r bytes =
     (let r = (if goesToEndOfFile r then range_setLength r (of_nat (length bytes)) True else r);
          datum = DenseData_range r;
          got = take (unat (range_length r)) (drop (unat (startbyte r)) bytes)
      in datum\<lparr>mData := got @ drop (length got) (mData datum)\<rparr>)"

definition do_read :: "disk_env \<Rightarrow> RemoteFileId \<Rightarrow> range \<Rightarrow> nat \<Rightarrow> ('h, 'p) disk_layer \<Rightarrow> disk_error + ('h, 'p) disk_layer" where
  "do_read env rfid r callback s =
     (let it = iter_find (mHash rfid) (mFiles s) in
      sum_bind (if it = None then Inr (Some False)
                else sum_bind (disk_ub (iter_deref (mFiles s) it)) (\<lambda>cdata.
                  case cdata of
                    None \<Rightarrow> Inl Null_cache_data
                  | Some rlist \<Rightarrow> Inr (if wholeFile rlist then Some True
                                      else if \<not> cache_contains r rlist then None else Some False)))
        (\<lambda>useWholeFile.
           case useWholeFile of
             None \<Rightarrow> Inr (effect (Ask_next rfid r callback) s)
           | Some whole \<Rightarrow>
               let filePath = file_path (mHash rfid) s @ (if whole then [] else PARTIAL_SUFFIX) in
               case on_disk s filePath of
                 Some bytes \<Rightarrow>
                   if can_open env filePath
                   then let datum = read_block r bytes
                        in Inr (effect (Finished callback (addValidData datum [])) (effect (Populate_above (mHash rfid) datum) s))
                   else Inr (effect (Ask_next rfid r callback) s)
               | None \<Rightarrow> Inr (effect (Ask_next rfid r callback) s)))"

definition do_delete :: "digest \<Rightarrow> ('h, 'p) disk_layer \<Rightarrow> ('h, 'p) disk_layer" where
  "do_delete fid s =
     (let filePath = file_path fid s
      in s\<lparr>on_disk := unlink (filePath @ PARTIAL_SUFFIX) (unlink (filePath @ RANGES_SUFFIX) (unlink filePath (on_disk s)))\<rparr>)"

definition work :: "disk_env \<Rightarrow> ('p, digest, 'h) policy_ops \<Rightarrow> DiskRequest \<Rightarrow> ('h, 'p) disk_layer
    \<Rightarrow> (disk_error, ('h, 'p) disk_layer) run" where
  "work env vt req s =
     (case req_op req of
        OPEXIT \<Rightarrow> Some (Inr (s\<lparr>worker_done := True\<rparr>))
      | OPWRITE \<Rightarrow> (case req_data req of
                     None \<Rightarrow> Some (Inl Null_cache_data)
                   | Some d \<Rightarrow> do_write env vt (mHash (req_fileId req)) d s)
      | OPREAD \<Rightarrow> Some (do_read env (req_fileId req) (toRead req) (req_finished req) s)
      | OPDELETE \<Rightarrow> Some (Inr (do_delete (mHash (req_fileId req)) s)))"

text \<open>One turn of the loop of \<open>workerThread\<close>; with an empty queue, or after the exit, the worker does nothing.\<close>

definition worker_step :: "disk_env \<Rightarrow> ('p, digest, 'h) policy_ops \<Rightarrow> ('h, 'p) disk_layer
    \<Rightarrow> (disk_error, ('h, 'p) disk_layer) run" where
  "worker_step env vt s =
     (case mRequestQueue s of
        [] \<Rightarrow> Some (Inr s)
      | req # reqs \<Rightarrow> if worker_done s then Some (Inr s) else work env vt req (s\<lparr>mRequestQueue := reqs\<rparr>))"

section \<open>Starting\<close>

definition has_suffix :: "string \<Rightarrow> string \<Rightarrow> bool" where
  "has_suffix suffix strName \<longleftrightarrow>
     length strName > length suffix \<and> drop (length strName - length suffix) strName = suffix"

definition read_ranges_file :: "disk_env \<Rightarrow> string \<Rightarrow> files \<Rightarrow> range list" where
  "read_ranges_file env rangeFile fs = unserializeRanges []
     (case fs rangeFile of
        Some bytes \<Rightarrow> if can_open env rangeFile then \<lparr>unread = bytes_text bytes, good = True\<rparr> else \<lparr>unread = [], good = False\<rparr>
      | None \<Rightarrow> \<lparr>unread = [], good = False\<rparr>)"

text \<open>One entry of the directory. A name without a file is a directory, or a file deleted meanwhile.\<close>

definition unserialize_entry :: "disk_env \<Rightarrow> ('p, digest, 'h) policy_ops \<Rightarrow> digest \<Rightarrow> string
    \<Rightarrow> ('h, 'p) disk_layer \<Rightarrow> disk_error + ('h, 'p) disk_layer" where
  "unserialize_entry env vt junk strName s =
     (let pathName = mPrefix s @ strName in
      if has_suffix RANGES_SUFFIX strName then Inr s
      else case on_disk s pathName of
        None \<Rightarrow> Inr s
      | Some bytes \<Rightarrow>
          let totalLength = getDiskUsage env bytes;
              thisispartial = has_suffix PARTIAL_SUFFIX strName;
              fingerprintName = (if thisispartial then take (length strName - length PARTIAL_SUFFIX) strName else strName);
              rangeFile = mPrefix s @ fingerprintName @ RANGES_SUFFIX;
              mRanges = (if thisispartial then read_ranges_file env rangeFile (on_disk s) else [])
          in if thisispartial \<and> mRanges = []
             then Inr (s\<lparr>on_disk := unlink pathName (unlink rangeFile (on_disk s))\<rparr>)
             else case convertFromHex junk fingerprintName of
                    Inl e \<Rightarrow> Inr s
                  | Inr fprint \<Rightarrow>
                      (case iter_insert vt fprint totalLength (mFiles s) of
                         (cm, writer, newentry) \<Rightarrow>
                           if newentry
                           then sum_bind (disk_ub (iter_assign (Some mRanges) cm writer)) (\<lambda>cm. Inr (s\<lparr>mFiles := cm\<rparr>))
                           else if thisispartial then Inr (s\<lparr>mFiles := cm\<rparr>)
                           else sum_bind (disk_ub (iter_deref cm writer)) (\<lambda>cdata.
                                case cdata of
                                  None \<Rightarrow> Inl Null_cache_data
                                | Some _ \<Rightarrow> sum_bind (disk_ub (iter_assign (Some []) cm writer)) (\<lambda>cm.
                                    Inr (s\<lparr>mFiles := cm, on_disk := unlink (pathName @ PARTIAL_SUFFIX) (on_disk s)\<rparr>)))))"

fun disk_unserialize :: "disk_env \<Rightarrow> ('p, digest, 'h) policy_ops \<Rightarrow> digest \<Rightarrow> string list
    \<Rightarrow> ('h, 'p) disk_layer \<Rightarrow> disk_error + ('h, 'p) disk_layer" where
  "disk_unserialize env vt junk [] s = Inr s"
| "disk_unserialize env vt junk (strName # names) s =
     sum_bind (unserialize_entry env vt junk strName s) (disk_unserialize env vt junk names)"

text \<open>The constructor, with the names that the directory lists.\<close>

definition DiskCacheLayer_init :: "disk_env \<Rightarrow> ('p, digest, 'h) policy_ops \<Rightarrow> digest \<Rightarrow> 'p \<Rightarrow> string \<Rightarrow> string list \<Rightarrow> files
    \<Rightarrow> disk_error + ('h, 'p) disk_layer" where
  "DiskCacheLayer_init env vt junk policy prefix names fs = disk_unserialize env vt junk names
     \<lparr>mFiles = CacheMap_init policy (), mPrefix = prefix @ ''/'', mRequestQueue = [], mCleaningUp = False,
      worker_done = False, on_disk = fs, disk_effects = []\<rparr>"

section \<open>Runs\<close>

datatype disk_action = Disk_populate digest dense_data | Disk_get RemoteFileId range nat | Disk_purge digest | Disk_work

fun disk_act :: "disk_env \<Rightarrow> ('p, digest, 'h) policy_ops \<Rightarrow> disk_action \<Rightarrow> ('h, 'p) disk_layer
    \<Rightarrow> (disk_error, ('h, 'p) disk_layer) run" where
  "disk_act env vt (Disk_populate f d) s = Some (Inr (disk_populateCache f d s))"
| "disk_act env vt (Disk_get rfid r cb) s = Some (disk_getData vt rfid r cb s)"
| "disk_act env vt (Disk_purge f) s = Some (disk_purgeFromCache vt f s)"
| "disk_act env vt Disk_work s = worker_step env vt s"

fun disk_run :: "disk_env \<Rightarrow> ('p, digest, 'h) policy_ops \<Rightarrow> disk_action list \<Rightarrow> ('h, 'p) disk_layer
    \<Rightarrow> (disk_error, ('h, 'p) disk_layer) run" where
  "disk_run env vt [] s = Some (Inr s)"
| "disk_run env vt (a # as) s = run_bind (disk_act env vt a s) (disk_run env vt as)"

text \<open>The destructor: the worker finishes the requests before the exit.\<close>

fun worker_until_exit :: "disk_env \<Rightarrow> ('p, digest, 'h) policy_ops \<Rightarrow> nat \<Rightarrow> ('h, 'p) disk_layer
    \<Rightarrow> (disk_error, ('h, 'p) disk_layer) run" where
  "worker_until_exit env vt 0 s = Some (Inr s)"
| "worker_until_exit env vt (Suc n) s = run_bind (worker_step env vt s) (worker_until_exit env vt n)"

definition disk_destroy :: "disk_env \<Rightarrow> ('p, digest, 'h) policy_ops \<Rightarrow> ('h, 'p) disk_layer
    \<Rightarrow> (disk_error, ('h, 'p) disk_layer) run" where
  "disk_destroy env vt s =
     (let req = \<lparr>req_op = OPEXIT, req_fileId = \<lparr>mHash = nil_digest, mURI = URI_relative URIContext_default []\<rparr>,
            toRead = Range_whole True, req_finished = 0, req_data = None\<rparr>;
          s = push_request req s
      in run_bind (worker_until_exit env vt (length (mRequestQueue s)) s) (\<lambda>s. Some (Inr (s\<lparr>mCleaningUp := True\<rparr>))))"

end
