(* ===== verification/Disk_Correct.thy ===== *)
theory Disk_Correct
  imports Disk_Layer
begin

text \<open>
  The disk layer keeps what it is given: what its map says about a file is true of the files on disk, the bytes it
  delivers are those of the file, and after a restart it knows again what it knew.
\<close>

section \<open>Bytes of a file\<close>

text \<open>A block that is a part of the file with content \<open>c\<close>, and a range whose bytes are in \<open>b\<close>.\<close>

definition block_of :: "u8 list \<Rightarrow> dense_data \<Rightarrow> bool" where
  "block_of c d \<longleftrightarrow> range_ok d \<and> writable_range (as_range d)
     \<and> unat (mStart d) + unat (mLength d) \<le> length c \<and> mData d = take (unat (mLength d)) (drop (unat (mStart d)) c)
     \<and> (mWholeFile d \<longrightarrow> unat (mStart d) + unat (mLength d) = length c)"

definition holds :: "u8 list \<Rightarrow> u8 list \<Rightarrow> range \<Rightarrow> bool" where
  "holds b c r \<longleftrightarrow> unat (mStart r) + unat (mLength r) \<le> length b \<and> unat (mStart r) + unat (mLength r) \<le> length c
     \<and> (\<forall>i. unat (mStart r) \<le> i \<and> i < unat (mStart r) + unat (mLength r) \<longrightarrow> b ! i = c ! i)
     \<and> (mWholeFile r \<longrightarrow> unat (mStart r) + unat (mLength r) = length c \<and> length b = length c)"

lemma length_write_at: "d \<noteq> [] \<Longrightarrow> length (write_at pos d b) = max (length b) (pos + length d)"
  by (auto simp: write_at_def Let_def)

lemma nth_write_at:
  "i < length b \<Longrightarrow> write_at pos d b ! i = (if pos \<le> i \<and> i < pos + length d then d ! (i - pos) else b ! i)"
  "pos \<le> i \<Longrightarrow> i < pos + length d \<Longrightarrow> write_at pos d b ! i = d ! (i - pos)"
  by (auto simp: write_at_def Let_def nth_append min_def)

lemma block_of_data: "block_of c d \<Longrightarrow> length (mData d) = unat (mLength d) \<and> mData d \<noteq> []"
proof -
  assume d: "block_of c d"
  then have "0 < unat (mLength d)" by (simp add: block_of_def writable_range_def as_range_def unat_gt_0)
  moreover have "length (mData d) = unat (mLength d)" using d by (auto simp: block_of_def)
  ultimately show ?thesis by auto
qed

lemma block_of_nth:
  "block_of c d \<Longrightarrow> unat (mStart d) \<le> i \<Longrightarrow> i < unat (mStart d) + unat (mLength d) \<Longrightarrow> mData d ! (i - unat (mStart d)) = c ! i"
  by (simp add: block_of_def)

lemma write_block_length:
  assumes "block_of c d" "length b \<le> length c"
  shows "length (write_at (unat (mStart d)) (mData d) b) \<le> length c"
  using assms block_of_data [OF assms(1)] by (simp add: length_write_at block_of_def)

lemma holds_written_old:
  assumes "block_of c d" "length b \<le> length c" "holds b c r"
  shows "holds (write_at (unat (mStart d)) (mData d) b) c r"
proof -
  have len: "length (write_at (unat (mStart d)) (mData d) b) = max (length b) (unat (mStart d) + unat (mLength d))"
    using block_of_data [OF assms(1)] by (simp add: length_write_at)
  moreover have "write_at (unat (mStart d)) (mData d) b ! i = c ! i"
    if "unat (mStart r) \<le> i" "i < unat (mStart r) + unat (mLength r)" for i
    using that assms(3) block_of_data [OF assms(1)] block_of_nth [OF assms(1), of i]
    by (auto simp: holds_def nth_write_at(1))
  ultimately show ?thesis using assms by (auto simp: holds_def block_of_def)
qed

lemma holds_written_new:
  assumes "block_of c d" "length b \<le> length c"
  shows "holds (write_at (unat (mStart d)) (mData d) b) c (as_range d)"
  using assms block_of_data [OF assms(1)] block_of_nth [OF assms(1)]
  by (auto simp: holds_def as_range_def length_write_at nth_write_at(2) block_of_def)

lemma set_addToList: "set (addToList d x rs) \<subseteq> insert x (set rs)"
proof -
  obtain m e bef aft where scan: "add_scan (startbyte d) (startbyte d) False rs = (m, e, bef, aft)"
    by (metis prod_cases4)
  then have "rs = bef @ aft" by (rule add_scan_split)
  with scan show ?thesis by (auto simp: addToList_def add_erase_def)
qed

lemma addToList_nonempty:
  assumes "range_ok d"
  shows "addToList d x rs \<noteq> []"
proof -
  have "\<not> endbyte d < startbyte d" "\<not> range_length d \<le> 0"
    using assms range_ok_iff [of d] by (auto simp: range_ok_def range_length_def)
  then show ?thesis by (cases rs) (auto simp: addToList_def split: prod.splits if_splits)
qed

section \<open>Reading what is covered\<close>

lemma take_drop_cong:
  assumes "\<forall>i. s \<le> i \<and> i < s + n \<longrightarrow> (i < length b \<longleftrightarrow> i < length c) \<and> (i < length b \<longrightarrow> b ! i = c ! i)"
  shows "take n (drop s b) = take n (drop s c)"
  using assms
proof (induction n)
  case (Suc n)
  then have "take n (drop s b) = take n (drop s c)" by simp
  moreover have "(s + n < length b \<longleftrightarrow> s + n < length c) \<and> (s + n < length b \<longrightarrow> b ! (s + n) = c ! (s + n))"
    using Suc.prems by simp
  ultimately show ?case
  proof (cases "s + n < length b")
    case True
    then have "n < length (drop s b)" "n < length (drop s c)"
      using \<open>(s + n < length b \<longleftrightarrow> s + n < length c) \<and> _\<close> by auto
    then have "take (Suc n) (drop s b) = take n (drop s b) @ [b ! (s + n)]"
      "take (Suc n) (drop s c) = take n (drop s c) @ [c ! (s + n)]"
      by (simp_all add: take_Suc_conv_app_nth)
    with True \<open>take n (drop s b) = _\<close> \<open>(s + n < length b \<longleftrightarrow> s + n < length c) \<and> _\<close> show ?thesis by simp
  qed (simp add: not_less)
qed simp

text \<open>A byte that is covered is the byte of the file, or beyond the end of both.\<close>

lemma covered_byte:
  assumes "\<forall>r\<in>set rs. holds b c r" "length b \<le> length c" "covered rs (of_nat i)" "i < 2 ^ 64" "length c < 2 ^ 63"
  shows "(i < length b \<longleftrightarrow> i < length c) \<and> (i < length b \<longrightarrow> b ! i = c ! i)"
proof -
  obtain r where r: "r \<in> set rs" "in_range r (of_nat i)" using assms(3) by (auto simp: covered_def)
  have h: "holds b c r" using assms(1) r(1) by blast
  have i: "unat (of_nat i :: u64) = i" using assms(4) by (simp add: unat_of_nat_eq)
  have e: "unat (endbyte r) = unat (mStart r) + unat (mLength r)"
    using h assms(5) by (simp add: holds_def endbyte_def unat_word_ariths)
  have start: "unat (mStart r) \<le> i" using r(2) i by (simp add: in_range_def startbyte_def word_le_nat_alt)
  show ?thesis
  proof (cases "i < unat (mStart r) + unat (mLength r)")
    case True
    with h start show ?thesis by (auto simp: holds_def)
  next
    case False
    then have "mWholeFile r" using r(2) i e by (auto simp: in_range_def goesToEndOfFile_def word_less_nat_alt)
    with h False show ?thesis by (auto simp: holds_def)
  qed
qed


text \<open>The bytes of a request that the recorded ranges contain.\<close>

definition request_range_ok :: "range \<Rightarrow> bool" where
  "request_range_ok r \<longleftrightarrow> unat (mStart r) + unat (mLength r) < 2 ^ 64"

lemma contained_bytes:
  assumes "isContainedBy_list r rs" "request_range_ok r" "i < 2 ^ 64" "unat (mStart r) \<le> i"
    and "mWholeFile r \<or> i < unat (mStart r) + unat (mLength r)"
  shows "covered rs (of_nat i)"
proof -
  have i: "unat (of_nat i :: u64) = i" using assms(3) by (simp add: unat_of_nat_eq)
  have "unat (endbyte r) = unat (mStart r) + unat (mLength r)"
    using assms(2) by (simp add: request_range_ok_def endbyte_def unat_word_ariths)
  then have "in_range r (of_nat i)"
    using assms(4,5) i by (auto simp: in_range_def startbyte_def goesToEndOfFile_def word_le_nat_alt word_less_nat_alt)
  with assms(1) show ?thesis by (simp add: isContainedBy_list_def contained_search_sound)
qed

lemma contained_whole:
  assumes "isContainedBy_list r rs" "mWholeFile r" "\<forall>x\<in>set rs. holds b c x" "length c < 2 ^ 63"
    and "request_range_ok r"
  shows "length b = length c"
proof -
  have "covered rs (of_nat (2 ^ 64 - 1))"
    using assms unsigned_less [of "mStart r", where 'a = nat] by (intro contained_bytes) auto
  then obtain x where x: "x \<in> set rs" "in_range x (of_nat (2 ^ 64 - 1))" unfolding covered_def by blast
  have h: "holds b c x" using x(1) assms(3) by blast
  then have "unat (mStart x) + unat (mLength x) < 2 ^ 63" using assms(4) by (auto simp: holds_def)
  then have "unat (endbyte x) < 2 ^ 63" by (simp add: endbyte_def unat_word_ariths)
  moreover have "unat (of_nat (2 ^ 64 - 1) :: u64) = 2 ^ 64 - 1" by (rule unat_of_nat_eq) simp
  ultimately have "mWholeFile x" using x(2) by (auto simp: in_range_def goesToEndOfFile_def word_less_nat_alt)
  with h show ?thesis by (simp add: holds_def)
qed

lemma read_block_covered:
  assumes "isContainedBy_list r rs" "request_range_ok r" "\<forall>x\<in>set rs. holds b c x" "length b \<le> length c" "length c < 2 ^ 63"
  shows "read_block r b = read_block r c"
proof -
  let ?n = "if mWholeFile r then length c else unat (mLength r)"
  have n: "unat (range_length (if goesToEndOfFile r then range_setLength r (of_nat (length c)) True else r)) = ?n"
    using assms(5) by (simp add: accessor_defs unat_of_nat_eq)
  have whole: "mWholeFile r \<Longrightarrow> length b = length c" using contained_whole [OF assms(1) _ assms(3,5,2)] by blast
  have "take ?n (drop (unat (mStart r)) b) = take ?n (drop (unat (mStart r)) c)"
  proof (rule take_drop_cong, intro allI impI)
    fix i assume i: "unat (mStart r) \<le> i \<and> i < unat (mStart r) + ?n"
    show "(i < length b \<longleftrightarrow> i < length c) \<and> (i < length b \<longrightarrow> b ! i = c ! i)"
    proof (cases "i < 2 ^ 64")
      case True
      have "covered rs (of_nat i)"
        using i True by (intro contained_bytes [OF assms(1,2)]) (auto split: if_splits)
      from covered_byte [OF assms(3,4) this True assms(5)] show ?thesis .
    next
      case False
      then show ?thesis using assms(4,5) by auto
    qed
  qed
  moreover from arg_cong [OF this, of length] have "min (length b - unat (mStart r)) ?n = min (length c - unat (mStart r)) ?n"
    by (simp add: min.commute)
  moreover have "goesToEndOfFile r \<Longrightarrow> length b = length c" using whole by (simp add: goesToEndOfFile_def)
  ultimately show ?thesis
    using n by (cases "mWholeFile r") (simp_all add: read_block_def Let_def accessor_defs)
qed


section \<open>What is true of the files\<close>

text \<open>The whole file, the partial file and the file of ranges of a fingerprint.\<close>

type_synonym file_view = "u8 list option \<times> u8 list option \<times> u8 list option"

definition view :: "string \<Rightarrow> files \<Rightarrow> digest \<Rightarrow> file_view" where
  "view prefix fs f = (fs (prefix @ convertToHexString f), fs (prefix @ convertToHexString f @ PARTIAL_SUFFIX),
     fs (prefix @ convertToHexString f @ RANGES_SUFFIX))"

definition ranges_ok :: "range list \<Rightarrow> bool" where
  "ranges_ok rs \<longleftrightarrow> range_list_ok rs \<and> list_all writable_range rs"

fun view_ok :: "u8 list \<Rightarrow> file_view \<Rightarrow> bool" where
  "view_ok c (w, p, t) \<longleftrightarrow> (w = None \<or> w = Some c) \<and> (\<forall>b. p = Some b \<longrightarrow> length b \<le> length c)
     \<and> (\<forall>u. t = Some u \<longrightarrow> (\<exists>rs. rs \<noteq> [] \<and> ranges_ok rs \<and> u = text_bytes (serializeRanges rs)
          \<and> (\<forall>b. p = Some b \<longrightarrow> (\<forall>r\<in>set rs. holds b c r))))"

text \<open>What the map records is on disk: all of the file, or a list of ranges.\<close>

fun recorded :: "u8 list \<Rightarrow> file_view \<Rightarrow> range list \<Rightarrow> bool" where
  "recorded c (w, p, t) rs \<longleftrightarrow>
     (if rs = [] then w = Some c
      else ranges_ok rs \<and> t = Some (text_bytes (serializeRanges rs)) \<and> (\<exists>b. p = Some b \<and> (\<forall>r\<in>set rs. holds b c r)))"

lemma hex_eq [simp]:
  assumes "length f = 32" "length g = 32"
  shows "convertToHexString f @ x = convertToHexString g @ y \<longleftrightarrow> f = g \<and> x = y"
    "convertToHexString f = convertToHexString g @ y \<longleftrightarrow> f = g \<and> y = []"
    "convertToHexString f @ x = convertToHexString g \<longleftrightarrow> f = g \<and> x = []"
    "convertToHexString f = convertToHexString g \<longleftrightarrow> f = g"
proof -
  have inj: "convertToHexString f = convertToHexString g \<longleftrightarrow> f = g"
  proof
    assume "convertToHexString f = convertToHexString g"
    moreover have "convertFromHex f (convertToHexString f) = Inr f" "convertFromHex f (convertToHexString g) = Inr g"
      using hex_reads_back(1) assms by simp_all
    ultimately show "f = g" by (metis sum.inject(2))
  qed simp
  have len: "length (convertToHexString f) = length (convertToHexString g)"
    using hex_reads_back(3) [OF assms(1), of f] hex_reads_back(3) [OF assms(2), of f] assms by simp
  show "convertToHexString f @ x = convertToHexString g @ y \<longleftrightarrow> f = g \<and> x = y"
    using len inj by simp
  show "convertToHexString f = convertToHexString g @ y \<longleftrightarrow> f = g \<and> y = []"
    using len inj by (metis append_Nil2 append_eq_append_conv)
  show "convertToHexString f @ x = convertToHexString g \<longleftrightarrow> f = g \<and> x = []"
    using len inj by (metis append_Nil2 append_eq_append_conv)
  show "convertToHexString f = convertToHexString g \<longleftrightarrow> f = g" by (rule inj)
qed

text \<open>What a write does to the ranges of a file and to its bytes.\<close>

lemma write_view:
  assumes "block_of c d" "view_ok c (w, p, t)" "length c < 2 ^ 63" "rs \<noteq> [] \<longrightarrow> recorded c (w, p, t) rs"
    and "bytes = write_at (unat (mStart d)) (mData d) (case p of None \<Rightarrow> [] | Some b \<Rightarrow> b)"
    and "rlist = addToList d (as_range d) rs"
  shows "ranges_ok rlist" "rlist \<noteq> []" "\<forall>r\<in>set rlist. holds bytes c r" "length bytes \<le> length c"
    and "isContainedBy_list (Range_whole True) rlist \<Longrightarrow> bytes = c"
proof -
  let ?b = "case p of None \<Rightarrow> [] | Some b \<Rightarrow> b"
  have b: "length ?b \<le> length c" using assms(2) by (cases p) auto
  have rs: "ranges_ok rs" "\<forall>r\<in>set rs. holds ?b c r"
    using assms(4) by (auto simp: ranges_ok_def range_list_ok_def split: if_splits)
  have d: "range_ok d" "writable_range (as_range d)" using assms(1) by (simp_all add: block_of_def)
  have "as_range (as_range d) = as_range d" by (simp add: as_range_def)
  then have "range_list_ok rlist" using addToList_ok [of rs d "as_range d"] rs(1) d(1) assms(6) by (simp add: ranges_ok_def)
  moreover have sub: "set rlist \<subseteq> insert (as_range d) (set rs)" using set_addToList assms(6) by blast
  moreover from this have "list_all writable_range rlist"
    using rs(1) d(2) by (auto simp: ranges_ok_def list_all_iff)
  ultimately show "ranges_ok rlist" by (simp add: ranges_ok_def)
  show "rlist \<noteq> []" unfolding assms(6) by (rule addToList_nonempty [OF d(1)])
  show len: "length bytes \<le> length c" unfolding assms(5) by (rule write_block_length [OF assms(1) b])
  show h: "\<forall>r\<in>set rlist. holds bytes c r"
    unfolding assms(5) using sub rs(2) holds_written_old [OF assms(1) b] holds_written_new [OF assms(1) b] by blast
  show "bytes = c" if "isContainedBy_list (Range_whole True) rlist"
  proof (rule nth_equalityI)
    have whole: "mWholeFile (Range_whole True)" "request_range_ok (Range_whole True)" "mStart (Range_whole True) = 0"
      by (simp_all add: Range_whole_def request_range_ok_def)
    show eq: "length bytes = length c" by (rule contained_whole [OF that whole(1) h assms(3) whole(2)])
    fix i assume i: "i < length bytes"
    then have "covered rlist (of_nat i)"
      using assms(3) eq whole by (intro contained_bytes [OF that whole(2)]) auto
    from covered_byte [OF h len this _ assms(3)] i eq assms(3) show "bytes ! i = c ! i" by auto
  qed
qed


section \<open>Invariant of the layer\<close>

definition names_ok :: "string \<Rightarrow> files \<Rightarrow> bool" where
  "names_ok prefix fs \<longleftrightarrow> finite (dom fs) \<and> (\<forall>path\<in>dom fs. \<exists>f x. length f = 32 \<and> path = prefix @ convertToHexString f @ x
     \<and> x \<in> {[], PARTIAL_SUFFIX, RANGES_SUFFIX, RANGES_SUFFIX @ ''.temp''})"

definition disk_request_ok :: "(digest \<Rightarrow> u8 list) \<Rightarrow> DiskRequest \<Rightarrow> bool" where
  "disk_request_ok content req \<longleftrightarrow> (case req_op req of
     OPWRITE \<Rightarrow> length (mHash (req_fileId req)) = 32
       \<and> (\<exists>d. req_data req = Some d \<and> block_of (content (mHash (req_fileId req))) d)
   | OPREAD \<Rightarrow> request_range_ok (toRead req)
   | OPDELETE \<Rightarrow> False
   | OPEXIT \<Rightarrow> True)"

definition entries_true :: "(digest \<Rightarrow> u8 list) \<Rightarrow> string \<Rightarrow> files \<Rightarrow> (digest, range list, 'h, 'p, unit) cache_map \<Rightarrow> bool" where
  "entries_true content prefix fs cm \<longleftrightarrow> (\<forall>f e h sz. map_find f (mMap cm) = Some (e, h, sz) \<longrightarrow>
     length f = 32 \<and> (\<exists>rs. e = Some rs \<and> recorded (content f) (view prefix fs f) rs))"

definition files_true :: "(digest \<Rightarrow> u8 list) \<Rightarrow> string \<Rightarrow> files \<Rightarrow> bool" where
  "files_true content prefix fs \<longleftrightarrow> names_ok prefix fs \<and> (\<forall>f. length f = 32 \<longrightarrow> view_ok (content f) (view prefix fs f))"

definition disk_true :: "(digest \<Rightarrow> u8 list) \<Rightarrow> ('h, 'p) disk_layer \<Rightarrow> bool" where
  "disk_true content s \<longleftrightarrow> files_true content (mPrefix s) (on_disk s) \<and> entries_true content (mPrefix s) (on_disk s) (mFiles s)
     \<and> (\<forall>req\<in>set (mRequestQueue s). disk_request_ok content req)"

lemma entries_true_sub:
  assumes "entries_true content prefix fs cm" "\<forall>f v. map_find f (mMap cm') = Some v \<longrightarrow> map_find f (mMap cm) = Some v"
  shows "entries_true content prefix fs cm'"
  using assms unfolding entries_true_def by blast

text \<open>Changing the files of one fingerprint.\<close>

lemma view_other:
  assumes "length f = 32" "length g = 32" "g \<noteq> f"
  shows "view prefix (fs(prefix @ convertToHexString f @ x := v)) g = view prefix fs g"
    "view prefix (fs(prefix @ convertToHexString f := v)) g = view prefix fs g"
  using assms by (simp_all add: view_def)

lemma names_ok_upd:
  assumes "names_ok prefix fs" "length f = 32" "x \<in> {[], PARTIAL_SUFFIX, RANGES_SUFFIX, RANGES_SUFFIX @ ''.temp''}"
  shows "names_ok prefix (fs(prefix @ convertToHexString f @ x := v))"
  using assms unfolding names_ok_def by (auto split: if_splits)

text \<open>The files of one fingerprint and its entry change together.\<close>

lemma files_true_change:
  assumes "files_true content prefix fs" "names_ok prefix fs'" "view_ok (content fid) (view prefix fs' fid)"
    and "\<And>g. length g = 32 \<Longrightarrow> g \<noteq> fid \<Longrightarrow> view prefix fs' g = view prefix fs g"
  shows "files_true content prefix fs'"
  using assms unfolding files_true_def by metis

lemma entries_true_change:
  assumes "entries_true content prefix fs cm" "length fid = 32"
    and "\<And>g. length g = 32 \<Longrightarrow> g \<noteq> fid \<Longrightarrow> view prefix fs' g = view prefix fs g"
    and "\<And>g. map_find g (mMap cm') = (if g = fid then Some (Some rs, h, sz) else map_find g (mMap cm))"
    and "recorded (content fid) (view prefix fs' fid) rs"
  shows "entries_true content prefix fs' cm'"
  using assms unfolding entries_true_def by (metis option.inject prod.inject)

text \<open>The file system after the two ways a write can end.\<close>

definition write_ends :: "bool \<Rightarrow> string \<Rightarrow> digest \<Rightarrow> u8 list \<Rightarrow> string \<Rightarrow> files \<Rightarrow> files" where
  "write_ends covers prefix fid bytes rangesStr fs =
     (let path = prefix @ convertToHexString fid; fs = fs(path @ PARTIAL_SUFFIX \<mapsto> bytes) in
      if covers then unlink (path @ RANGES_SUFFIX) (rename (path @ PARTIAL_SUFFIX) path fs)
      else rename (path @ RANGES_SUFFIX @ ''.temp'') (path @ RANGES_SUFFIX)
             (fs(path @ RANGES_SUFFIX @ ''.temp'' \<mapsto> text_bytes rangesStr)))"

lemma write_ends_view:
  assumes "length fid = 32"
  shows "view prefix (write_ends covers prefix fid bytes rangesStr fs) fid =
      (if covers then (Some bytes, None, None) else (fst (view prefix fs fid), Some bytes, Some (text_bytes rangesStr)))"
    and "length g = 32 \<Longrightarrow> g \<noteq> fid \<Longrightarrow> view prefix (write_ends covers prefix fid bytes rangesStr fs) g = view prefix fs g"
    and "names_ok prefix fs \<Longrightarrow> names_ok prefix (write_ends covers prefix fid bytes rangesStr fs)"
proof -
  show "view prefix (write_ends covers prefix fid bytes rangesStr fs) fid =
      (if covers then (Some bytes, None, None) else (fst (view prefix fs fid), Some bytes, Some (text_bytes rangesStr)))"
    using assms by (simp add: write_ends_def view_def rename_def unlink_def PARTIAL_SUFFIX_def RANGES_SUFFIX_def Let_def)
  show "view prefix (write_ends covers prefix fid bytes rangesStr fs) g = view prefix fs g" if "length g = 32" "g \<noteq> fid"
    using assms that by (simp add: write_ends_def view_def rename_def unlink_def Let_def)
  show "names_ok prefix (write_ends covers prefix fid bytes rangesStr fs)" if "names_ok prefix fs"
    using names_ok_upd [OF _ assms, where x = "[]"] names_ok_upd [OF _ assms, where x = PARTIAL_SUFFIX]
      names_ok_upd [OF _ assms, where x = RANGES_SUFFIX] names_ok_upd [OF _ assms, where x = "RANGES_SUFFIX @ ''.temp''"] that
    by (simp add: write_ends_def rename_def unlink_def Let_def)
qed

locale disk_policy = cache_policy vt tracked free capacity policy_ok
  for vt :: "('p, digest, 'h) policy_ops" and tracked :: "'p \<Rightarrow> ('h \<times> digest) set"
    and free :: "'p \<Rightarrow> u64" and capacity :: "'p \<Rightarrow> u64" and policy_ok :: "'p \<Rightarrow> bool"
begin

lemma alloc_sub:
  assumes "ok cm"
  shows "\<exists>cm' it' allocated. alloc vt dcb req cm it = Some (Inr (cm', it', allocated)) \<and> ok cm'
    \<and> (\<forall>f v. map_find f (mMap cm') = Some v \<longrightarrow> map_find f (mMap cm) = Some v)"
proof (cases "op_cachable vt req (mPolicy cm)")
  case True
  with alloc_loop_ok [OF assms, of dcb req it] show ?thesis by (auto simp: alloc_def)
next
  case False
  with assms have "alloc vt dcb req cm it = Some (Inr (cm, it, False))" by (simp add: alloc_def)
  with assms show ?thesis by blast
qed

lemma write_admit_ok:
  assumes "ok cm" "entries_true content prefix fs cm"
  shows "\<exists>cm' newFile. write_admit vt fid d cm = Some (Inr (cm', newFile)) \<and> ok cm'
    \<and> (\<forall>f v. map_find f (mMap cm') = Some v \<longrightarrow> map_find f (mMap cm) = Some v)
    \<and> (newFile = Some True \<longrightarrow> map_find fid (mMap cm) = None)
    \<and> (newFile = Some False \<longrightarrow> (\<exists>rs h sz. map_find fid (mMap cm) = Some (Some rs, h, sz) \<and> rs \<noteq> []))"
proof -
  obtain cm' it' allocated where al: "alloc vt disk_destroyCacheEntry (range_length d) cm (iter_find fid cm) = Some (Inr (cm', it', allocated))"
    "ok cm'" "\<forall>f v. map_find f (mMap cm') = Some v \<longrightarrow> map_find f (mMap cm) = Some v"
    using alloc_sub [OF assms(1)] by blast
  show ?thesis
  proof (cases "map_find fid (mMap cm)")
    case None
    with al show ?thesis by (auto simp: write_admit_def iter_find_def)
  next
    case (Some v)
    then obtain rs h sz where v: "map_find fid (mMap cm) = Some (Some rs, h, sz)"
      using assms(2) unfolding entries_true_def by (metis prod_cases3)
    then have "write_admit vt fid d cm = (if wholeFile rs \<or> cache_contains d rs then Some (Inr (cm, None))
        else Some (Inr (cm', if allocated then Some False else None)))"
      using al(1) by (simp add: write_admit_def iter_find_def iter_deref_def iter_entry_def disk_ub_def)
    with v al(2,3) assms(1) show ?thesis by (auto simp: wholeFile_def)
  qed
qed

lemma write_record_ok:
  assumes "ok cm" "\<forall>v. map_find fid (mMap cm) = Some v \<longrightarrow> fst v = Some rs" "map_find fid (mMap cm) = None \<longrightarrow> rs = []"
    and "rlist = addToList d (as_range d) rs" "covers = isContainedBy_list (Range_whole True) rlist"
  shows "\<exists>cm' h. write_record vt fid d usage cm = Inr (cm', if covers then [] else serializeRanges rlist) \<and> ok cm'
    \<and> (\<forall>g. map_find g (mMap cm') = (if g = fid then Some (Some (if covers then [] else rlist), h, usage) else map_find g (mMap cm)))"
proof -
  obtain cm1 h writer newentry where c1: "iter_insert vt fid usage cm = (cm1, writer, newentry)" by (metis prod_cases3)
  have "\<exists>cm2 h. (if newentry
             then sum_bind (disk_ub (iter_assign (Some []) cm1 writer)) (\<lambda>cm. disk_ub (iter_use vt cm writer))
             else disk_ub (iter_update vt usage cm1 writer)) = Inr cm2 \<and> writer = Some fid \<and> ok cm2
     \<and> (\<forall>g. map_find g (mMap cm2) = (if g = fid then Some (Some rs, h, usage) else map_find g (mMap cm)))"
  proof (cases "map_find fid (mMap cm)")
    case None
    obtain h where ins: "writer = Some fid" "newentry" "ok cm1" "mMap cm1 = map_insert fid (None, h, usage) (mMap cm)"
      using iter_insert_ok [OF assms(1) None, of usage] c1 by auto
    have find1: "map_find fid (mMap cm1) = Some (None, h, usage)"
      using assms(1) None by (simp add: ins(4) map_find_insert cm_ok_def)
    obtain cm2 where as: "iter_assign (Some []) cm1 (Some fid) = Inr cm2" "ok cm2"
      "mMap cm2 = map_assign fid (Some [], h, usage) (mMap cm1)"
      using iter_assign_ok [OF ins(3) find1, of "Some []"] by blast
    have find2: "map_find fid (mMap cm2) = Some (Some [], h, usage)" using find1 by (simp add: as(3) map_find_assign)
    obtain cm3 where us: "iter_use vt cm2 (Some fid) = Inr cm3" "ok cm3" "mMap cm3 = mMap cm2"
      using iter_use_ok [OF as(2) find2] by blast
    have "map_find g (mMap cm3) = (if g = fid then Some (Some rs, h, usage) else map_find g (mMap cm))" for g
      using find2 find1 assms(1,3) None by (simp add: us(3) as(3) map_find_assign ins(4) map_find_insert cm_ok_def)
    with ins as us show ?thesis by (auto simp: disk_ub_def)
  next
    case (Some v)
    then obtain h sz where v: "map_find fid (mMap cm) = Some (Some rs, h, sz)" using assms(2) by (cases v) auto
    obtain cm2 where up: "iter_update vt usage cm (Some fid) = Inr cm2" "ok cm2"
      "mMap cm2 = map_assign fid (Some rs, h, usage) (mMap cm)"
      using iter_update_ok [OF assms(1) v] by blast
    moreover have "cm1 = cm" "writer = Some fid" "\<not> newentry" using c1 v by (auto simp: iter_insert_def)
    moreover have "map_find g (mMap cm2) = (if g = fid then Some (Some rs, h, usage) else map_find g (mMap cm))" for g
      using v by (simp add: up(3) map_find_assign)
    ultimately show ?thesis by (auto simp: disk_ub_def)
  qed
  then obtain cm2 h where c2: "(if newentry
             then sum_bind (disk_ub (iter_assign (Some []) cm1 writer)) (\<lambda>cm. disk_ub (iter_use vt cm writer))
             else disk_ub (iter_update vt usage cm1 writer)) = Inr cm2" "writer = Some fid" "ok cm2"
    "\<And>g. map_find g (mMap cm2) = (if g = fid then Some (Some rs, h, usage) else map_find g (mMap cm))" by blast
  have find: "map_find fid (mMap cm2) = Some (Some rs, h, usage)" using c2(4) [of fid] by simp
  obtain cm3 where as: "iter_assign (Some (if covers then [] else rlist)) cm2 (Some fid) = Inr cm3" "ok cm3"
    "mMap cm3 = map_assign fid (Some (if covers then [] else rlist), h, usage) (mMap cm2)"
    using iter_assign_ok [OF c2(3) find] by blast
  have "iter_deref cm2 writer = Inr (Some rs)" using find c2(2) by (simp add: iter_deref_def iter_entry_def)
  then have "write_record vt fid d usage cm = Inr (cm3, if covers then [] else serializeRanges rlist)"
    unfolding write_record_def c1 prod.case c2(1) using as(1)
    by (cases covers) (simp_all add: disk_ub_def Let_def c2(2) flip: assms(4,5))
  moreover have "map_find g (mMap cm3) = (if g = fid then Some (Some (if covers then [] else rlist), h, usage) else map_find g (mMap cm))" for g
    using find c2(4) by (simp add: as(3) map_find_assign)
  ultimately show ?thesis using as(2) by blast
qed

text \<open>All that \<open>do_write\<close> does after the entry was admitted.\<close>

lemma written_ok:
  assumes "ok cm" "files_true content prefix fs" "entries_true content prefix fs cm" "length (content fid) < 2 ^ 63"
    and "length fid = 32" "block_of (content fid) d"
    and "bytes = write_at (unat (mStart d)) (mData d) (case fs (prefix @ convertToHexString fid @ PARTIAL_SUFFIX) of None \<Rightarrow> [] | Some b \<Rightarrow> b)"
  shows "\<exists>cm' covers str. write_record vt fid d usage cm = Inr (cm', str) \<and> (str = [] \<longleftrightarrow> covers) \<and> ok cm'
    \<and> files_true content prefix (write_ends covers prefix fid bytes str fs)
    \<and> entries_true content prefix (write_ends covers prefix fid bytes str fs) cm'"
proof -
  obtain w p t where v: "view prefix fs fid = (w, p, t)" by (metis prod_cases3)
  then have p: "p = fs (prefix @ convertToHexString fid @ PARTIAL_SUFFIX)" by (simp add: view_def)
  obtain rs where rs: "\<forall>v. map_find fid (mMap cm) = Some v \<longrightarrow> fst v = Some rs" "map_find fid (mMap cm) = None \<longrightarrow> rs = []"
    "rs \<noteq> [] \<longrightarrow> recorded (content fid) (w, p, t) rs"
  proof (cases "map_find fid (mMap cm)")
    case None
    with that [of "[]"] show ?thesis by simp
  next
    case (Some x)
    obtain e h sz where "x = (e, h, sz)" by (metis prod_cases3)
    with Some assms(3) v that show ?thesis unfolding entries_true_def by (metis fst_conv option.inject option.distinct(1))
  qed
  define rlist where "rlist = addToList d (as_range d) rs"
  define covers where "covers = isContainedBy_list (Range_whole True) rlist"
  let ?str = "if covers then [] else serializeRanges rlist" and ?rs = "if covers then [] else rlist"
  let ?fs = "write_ends covers prefix fid bytes ?str fs"
  obtain cm' h where rec: "write_record vt fid d usage cm = Inr (cm', ?str)" "ok cm'"
    "\<And>g. map_find g (mMap cm') = (if g = fid then Some (Some ?rs, h, usage) else map_find g (mMap cm))"
    using write_record_ok [OF assms(1) rs(1,2) rlist_def covers_def, of usage] by blast
  have "view_ok (content fid) (w, p, t)" using assms(2,5) v unfolding files_true_def by metis
  note written = write_view [OF assms(6) this assms(4) rs(3) assms(7) [folded p] rlist_def]
  have str: "?str = [] \<longleftrightarrow> covers"
    using written(2) by (cases rlist) (auto simp: serializeRanges_def serialize_range_def Let_def)
  have "covers \<Longrightarrow> bytes = content fid" using written(5) covers_def by blast
  then have "view_ok (content fid) (view prefix ?fs fid)" "recorded (content fid) (view prefix ?fs fid) ?rs"
    using written(1-4) assms(2,5) v write_ends_view(1) [OF assms(5), of prefix covers bytes ?str fs]
    by (auto simp: files_true_def split: if_splits)
  moreover have "names_ok prefix ?fs" using write_ends_view(3) [OF assms(5)] assms(2) by (simp add: files_true_def)
  ultimately have "files_true content prefix ?fs" "entries_true content prefix ?fs cm'"
    using files_true_change [OF assms(2)] entries_true_change [OF assms(3,5) _ rec(3)] write_ends_view(2) [OF assms(5)] by simp_all
  with rec(1,2) str show ?thesis by blast
qed

lemma unlink_ranges_true:
  assumes "files_true content prefix fs" "entries_true content prefix fs cm" "length fid = 32" "map_find fid (mMap cm) = None"
  shows "files_true content prefix (unlink (prefix @ convertToHexString fid @ RANGES_SUFFIX) fs)"
    and "entries_true content prefix (unlink (prefix @ convertToHexString fid @ RANGES_SUFFIX) fs) cm"
proof -
  let ?fs = "unlink (prefix @ convertToHexString fid @ RANGES_SUFFIX) fs"
  have other: "view prefix ?fs g = view prefix fs g" if "length g = 32" "g \<noteq> fid" for g
    using that assms(3) by (simp add: unlink_def view_other)
  have "view_ok (content fid) (view prefix fs fid)" using assms(1,3) by (simp add: files_true_def)
  moreover have "view prefix ?fs fid = (fst (view prefix fs fid), fst (snd (view prefix fs fid)), None)"
    using assms(3) by (simp add: view_def unlink_def PARTIAL_SUFFIX_def RANGES_SUFFIX_def)
  ultimately have "view_ok (content fid) (view prefix ?fs fid)" by (cases "view prefix fs fid") auto
  moreover have "names_ok prefix ?fs" using names_ok_upd [of prefix fs fid RANGES_SUFFIX] assms(1,3) by (simp add: unlink_def files_true_def)
  ultimately show "files_true content prefix ?fs" using files_true_change [OF assms(1)] other by blast
  show "entries_true content prefix ?fs cm"
    using assms(2,4) other unfolding entries_true_def by (metis option.distinct(1))
qed

text \<open>The layer keeps what it says; a predicate for the lemmas about its operations.\<close>

abbreviation good_layer :: "(digest \<Rightarrow> u8 list) \<Rightarrow> ('h, 'p) disk_layer \<Rightarrow> bool" where
  "good_layer content s \<equiv> ok (mFiles s) \<and> disk_true content s"

lemma do_write_ok:
  assumes "good_layer content s" "length (content fid) < 2 ^ 63" "length fid = 32" "block_of (content fid) d"
    and "can_open env (file_path fid s @ RANGES_SUFFIX @ ''.temp'')"
  shows "\<exists>s'. do_write env vt fid d s = Some (Inr s') \<and> good_layer content s' \<and> mPrefix s' = mPrefix s"
proof -
  let ?p = "mPrefix s"
  obtain cm newFile where admit: "write_admit vt fid d (mFiles s) = Some (Inr (cm, newFile))" "ok cm"
    "\<forall>f v. map_find f (mMap cm) = Some v \<longrightarrow> map_find f (mMap (mFiles s)) = Some v"
    "newFile = Some True \<longrightarrow> map_find fid (mMap (mFiles s)) = None"
    using write_admit_ok [of "mFiles s" content ?p "on_disk s" fid d] assms(1) by (auto simp: disk_true_def)
  have true: "files_true content ?p (on_disk s)" "entries_true content ?p (on_disk s) cm"
    "\<forall>req\<in>set (mRequestQueue s). disk_request_ok content req"
    using assms(1) entries_true_sub [OF _ admit(3)] by (simp_all add: disk_true_def)
  show ?thesis
  proof (cases newFile)
    case None
    with admit(1,2) true show ?thesis by (simp add: do_write_def disk_true_def Let_def)
  next
    case (Some isnew)
    define fs where "fs = (if isnew then unlink (?p @ convertToHexString fid @ RANGES_SUFFIX) (on_disk s) else on_disk s)"
    have "isnew \<Longrightarrow> map_find fid (mMap cm) = None" using admit(3,4) Some by (cases "map_find fid (mMap cm)") auto
    then have fs: "files_true content ?p fs" "entries_true content ?p fs cm"
      using unlink_ranges_true [OF true(1,2) assms(3)] true(1,2) by (auto simp: fs_def)
    have run: "do_write env vt fid d s = write_data env vt fid d fs (s\<lparr>mFiles := cm\<rparr>)"
      by (simp add: do_write_def admit(1) Some fs_def file_path_def)
    show ?thesis
    proof (cases "can_open env (file_path fid s @ PARTIAL_SUFFIX)")
      case False
      with run admit(2) fs true(3) show ?thesis by (simp add: write_data_def disk_true_def file_path_def)
    next
      case True
      let ?old = "case fs (?p @ convertToHexString fid @ PARTIAL_SUFFIX) of None \<Rightarrow> [] | Some b \<Rightarrow> b"
      let ?bytes = "write_at (unat (mStart d)) (mData d) ?old"
      obtain cm' covers str where w: "write_record vt fid d (getDiskUsage env ?bytes) cm = Inr (cm', str)"
        "str = [] \<longleftrightarrow> covers" "ok cm'" "files_true content ?p (write_ends covers ?p fid ?bytes str fs)"
        "entries_true content ?p (write_ends covers ?p fid ?bytes str fs) cm'"
        using written_ok [OF admit(2) fs assms(2-4) refl] by blast
      have data: "take (unat (range_length d)) (mData d) = mData d"
        using block_of_data [OF assms(4)] by (simp add: range_length_def)
      have "do_write env vt fid d s = Some (Inr (s\<lparr>mFiles := cm', on_disk := write_ends covers ?p fid ?bytes str fs\<rparr>))"
        using w(1,2) True assms(5)
        by (simp add: run write_data_def file_path_def data startbyte_def write_ends_def Let_def)
      with w true(3) show ?thesis by (simp add: disk_true_def)
    qed
  qed
qed

lemma do_read_ok:
  assumes "good_layer content s" "request_range_ok r"
  shows "\<exists>s'. do_read env rfid r cb s = Inr s' \<and> good_layer content s' \<and> mPrefix s' = mPrefix s"
proof (cases "map_find (mHash rfid) (mMap (mFiles s))")
  case None
  with assms show ?thesis
    by (auto simp: do_read_def iter_find_def disk_true_def effect_def Let_def split: option.split)
next
  case (Some v)
  then obtain rs h sz where "map_find (mHash rfid) (mMap (mFiles s)) = Some (Some rs, h, sz)"
    using assms(1) unfolding disk_true_def entries_true_def by (metis prod_cases3)
  with assms show ?thesis
    by (auto simp: do_read_def iter_find_def iter_deref_def iter_entry_def disk_ub_def disk_true_def effect_def Let_def
        split: option.split)
qed

text \<open>A read of a file that is in the map delivers the bytes of the file, if the map says they are there.\<close>

lemma do_read_delivers:
  assumes "good_layer content s" "request_range_ok r" "length (content (mHash rfid)) < 2 ^ 63"
    and "map_find (mHash rfid) (mMap (mFiles s)) = Some (Some rs, h, sz)" "cache_contains r rs"
    and "\<forall>x. can_open env (file_path (mHash rfid) s @ x)"
  shows "do_read env rfid r cb s = Inr (let datum = read_block r (content (mHash rfid)) in
      effect (Finished cb (addValidData datum [])) (effect (Populate_above (mHash rfid) datum) s))"
proof -
  let ?f = "mHash rfid"
  have f: "length ?f = 32" "recorded (content ?f) (view (mPrefix s) (on_disk s) ?f) rs"
    using assms(1,4) unfolding disk_true_def entries_true_def by blast+
  have view: "view_ok (content ?f) (view (mPrefix s) (on_disk s) ?f)"
    using assms(1) f(1) by (simp add: disk_true_def files_true_def)
  show ?thesis
  proof (cases "rs = []")
    case True
    then have "on_disk s (file_path ?f s) = Some (content ?f)" using f(2) by (simp add: view_def file_path_def)
    with True assms(4,6) spec [OF assms(6), of "[]"] show ?thesis
      by (simp add: do_read_def iter_find_def iter_deref_def iter_entry_def disk_ub_def wholeFile_def Let_def)
  next
    case False
    then obtain b where b: "on_disk s (file_path ?f s @ PARTIAL_SUFFIX) = Some b" "\<forall>x\<in>set rs. holds b (content ?f) x"
      using f(2) by (auto simp: view_def file_path_def)
    have "length b \<le> length (content ?f)" using view b(1) by (simp add: view_def file_path_def)
    then have "read_block r b = read_block r (content ?f)"
      using read_block_covered [of r rs b "content ?f"] assms(2,3,5) b(2) False by (simp add: cache_contains_def wholeFile_def)
    with False b(1) assms(4,5,6) show ?thesis
      by (simp add: do_read_def iter_find_def iter_deref_def iter_entry_def disk_ub_def wholeFile_def Let_def)
  qed
qed

lemma work_ok:
  assumes "good_layer content s" "disk_request_ok content req" "\<forall>f. length (content f) < 2 ^ 63"
    and "\<forall>path. can_open env path"
  shows "\<exists>s'. work env vt req s = Some (Inr s') \<and> good_layer content s' \<and> mPrefix s' = mPrefix s"
proof (cases "req_op req")
  case OPREAD
  with assms(2) do_read_ok [OF assms(1), of "toRead req" env "req_fileId req" "req_finished req"] show ?thesis
    by (simp add: work_def disk_request_ok_def)
next
  case OPWRITE
  with assms(2) obtain d where "req_data req = Some d" "length (mHash (req_fileId req)) = 32"
    "block_of (content (mHash (req_fileId req))) d" by (auto simp: disk_request_ok_def)
  with OPWRITE do_write_ok [OF assms(1), of "mHash (req_fileId req)" d env] assms(3,4) show ?thesis by (simp add: work_def)
next
  case OPDELETE
  with assms(2) show ?thesis by (simp add: disk_request_ok_def)
next
  case OPEXIT
  with assms(1) show ?thesis by (simp add: work_def disk_true_def)
qed

lemma worker_step_ok:
  assumes "good_layer content s" "\<forall>f. length (content f) < 2 ^ 63" "\<forall>path. can_open env path"
  shows "\<exists>s'. worker_step env vt s = Some (Inr s') \<and> good_layer content s' \<and> mPrefix s' = mPrefix s"
proof (cases "mRequestQueue s")
  case (Cons req reqs)
  have "good_layer content (s\<lparr>mRequestQueue := reqs\<rparr>)" "disk_request_ok content req"
    using assms(1) Cons by (simp_all add: disk_true_def)
  with Cons work_ok [OF this assms(2,3)] assms(1) show ?thesis by (simp add: worker_step_def)
qed (use assms(1) in \<open>simp add: worker_step_def\<close>)

lemma disk_getData_ok:
  assumes "good_layer content s" "request_range_ok r"
  shows "\<exists>s'. disk_getData vt rfid r cb s = Inr s' \<and> good_layer content s' \<and> mPrefix s' = mPrefix s"
proof (cases "map_find (mHash rfid) (mMap (mFiles s))")
  case None
  with assms show ?thesis by (simp add: disk_getData_def iter_find_def disk_true_def effect_def)
next
  case (Some v)
  then obtain rs h sz where find: "map_find (mHash rfid) (mMap (mFiles s)) = Some (Some rs, h, sz)"
    using assms(1) unfolding disk_true_def entries_true_def by (metis prod_cases3)
  obtain cm where use: "iter_use vt (mFiles s) (Some (mHash rfid)) = Inr cm" "ok cm" "mMap cm = mMap (mFiles s)"
    using iter_use_ok [OF _ find] assms(1) by blast
  have "entries_true content (mPrefix s) (on_disk s) cm"
    using assms(1) use(3) by (simp add: disk_true_def entries_true_def)
  with assms find use show ?thesis
    by (cases "cache_contains r rs")
      (auto simp: disk_getData_def iter_find_def iter_deref_def iter_entry_def disk_ub_def disk_true_def effect_def
        readDataFromDisk_def push_request_def disk_request_ok_def)
qed

lemma disk_purge_ok:
  assumes "good_layer content s"
  shows "\<exists>s'. disk_purgeFromCache vt f s = Inr s' \<and> good_layer content s' \<and> mPrefix s' = mPrefix s"
proof (cases "map_find f (mMap (mFiles s))")
  case None
  with assms show ?thesis by (simp add: disk_purgeFromCache_def iter_find_def disk_true_def effect_def)
next
  case (Some v)
  then obtain e h sz where find: "map_find f (mMap (mFiles s)) = Some (e, h, sz)" by (cases v) auto
  obtain cm where er: "iter_erase vt disk_destroyCacheEntry (mFiles s) (Some f) = Inr (cm, None)" "ok cm"
    "mMap cm = map_erase f (mMap (mFiles s))"
    using iter_erase_ok [OF _ find] assms by blast
  have "entries_true content (mPrefix s) (on_disk s) cm"
  proof (rule entries_true_sub)
    show "entries_true content (mPrefix s) (on_disk s) (mFiles s)" using assms by (simp add: disk_true_def)
    show "\<forall>g v. map_find g (mMap cm) = Some v \<longrightarrow> map_find g (mMap (mFiles s)) = Some v"
      by (simp add: er(3) map_find_erase)
  qed
  with assms find er show ?thesis
    by (simp add: disk_purgeFromCache_def iter_find_def disk_ub_def disk_true_def effect_def)
qed

lemma disk_populate_ok:
  assumes "good_layer content s" "length f = 32" "block_of (content f) d"
  shows "good_layer content (disk_populateCache f d s) \<and> mPrefix (disk_populateCache f d s) = mPrefix s"
  using assms by (simp add: disk_populateCache_def push_request_def effect_def disk_true_def disk_request_ok_def Let_def)

end

text \<open>What clients may ask: blocks of the file they are given for, and ranges whose end does not wrap around.\<close>

fun disk_action_ok :: "(digest \<Rightarrow> u8 list) \<Rightarrow> disk_action \<Rightarrow> bool" where
  "disk_action_ok content (Disk_populate f d) \<longleftrightarrow> length f = 32 \<and> block_of (content f) d"
| "disk_action_ok content (Disk_get rfid r cb) \<longleftrightarrow> request_range_ok r"
| "disk_action_ok content (Disk_purge f) \<longleftrightarrow> True"
| "disk_action_ok content Disk_work \<longleftrightarrow> True"

context disk_policy
begin

lemma disk_act_ok:
  assumes "good_layer content s" "disk_action_ok content a" "\<forall>f. length (content f) < 2 ^ 63" "\<forall>path. can_open env path"
  shows "\<exists>s'. disk_act env vt a s = Some (Inr s') \<and> good_layer content s' \<and> mPrefix s' = mPrefix s"
proof (cases a)
  case (Disk_populate f d)
  with disk_populate_ok [OF assms(1), of f d] assms(2) show ?thesis by simp
next
  case (Disk_get rfid r cb)
  with disk_getData_ok [OF assms(1), of r rfid cb] assms(2) show ?thesis by simp
next
  case (Disk_purge f)
  with disk_purge_ok [OF assms(1), of f] show ?thesis by simp
next
  case Disk_work
  with worker_step_ok [OF assms(1,3,4)] show ?thesis by simp
qed

lemma disk_run_ok:
  assumes "good_layer content s" "list_all (disk_action_ok content) as"
    and "\<forall>f. length (content f) < 2 ^ 63" "\<forall>path. can_open env path"
  shows "\<exists>s'. disk_run env vt as s = Some (Inr s') \<and> good_layer content s' \<and> mPrefix s' = mPrefix s"
  using assms(1,2)
proof (induction as arbitrary: s)
  case (Cons a as)
  obtain s1 where s1: "disk_act env vt a s = Some (Inr s1)" "good_layer content s1" "mPrefix s1 = mPrefix s"
    using disk_act_ok [OF Cons.prems(1) _ assms(3,4), of a] Cons.prems(2) by auto
  with Cons.IH [OF s1(2)] Cons.prems(2) show ?case by simp
qed simp

end

end
