(* ===== verification/Disk_Restart.thy ===== *)
theory Disk_Restart
  imports Disk_Correct
begin

text \<open>
  Starting on a directory that an earlier run has left: whatever the order in which the directory lists its files, the
  constructor records only what is on disk, and it records again all that was recorded before.
\<close>

section \<open>The files of one fingerprint\<close>

text \<open>What the constructor does with the files of one fingerprint when it finds one of their names.\<close>

definition entry_of :: "(digest, range list, 'h, 'p, unit) cache_map \<Rightarrow> digest \<Rightarrow> range list option" where
  "entry_of cm f = (case map_find f (mMap cm) of None \<Rightarrow> None | Some (e, _, _) \<Rightarrow> e)"

definition parsed :: "u8 list option \<Rightarrow> range list" where
  "parsed t = (case t of None \<Rightarrow> [] | Some u \<Rightarrow> unserializeRanges [] \<lparr>unread = bytes_text u, good = True\<rparr>)"

fun load_whole :: "file_view \<times> range list option \<Rightarrow> file_view \<times> range list option" where
  "load_whole ((w, p, t), e) =
     (if w = None then ((w, p, t), e) else if e = None then ((w, p, t), Some []) else ((w, None, t), Some []))"

fun load_part :: "file_view \<times> range list option \<Rightarrow> file_view \<times> range list option" where
  "load_part ((w, p, t), e) =
     (if p = None then ((w, p, t), e)
      else if parsed t = [] then ((w, None, None), e)
      else ((w, p, t), if e = None then Some (parsed t) else e))"

definition load :: "string \<Rightarrow> digest \<Rightarrow> file_view \<times> range list option \<Rightarrow> file_view \<times> range list option" where
  "load name f ve = (if name = convertToHexString f then load_whole ve
     else if name = convertToHexString f @ PARTIAL_SUFFIX then load_part ve else ve)"

definition state_ok :: "u8 list \<Rightarrow> file_view \<times> range list option \<Rightarrow> bool" where
  "state_ok c ve \<longleftrightarrow> view_ok c (fst ve) \<and> (\<forall>rs. snd ve = Some rs \<longrightarrow> recorded c (fst ve) rs)"

lemma parsed_text: "ranges_ok rs \<Longrightarrow> parsed (Some (text_bytes (serializeRanges rs))) = rs"
  using read_ranges [of "[]" rs "serializeRanges rs"] by (simp add: parsed_def ranges_ok_def)

lemma parsed_view:
  assumes "view_ok c (w, p, t)"
  obtains "t = None" "parsed t = []"
  | "parsed t \<noteq> []" "ranges_ok (parsed t)" "t = Some (text_bytes (serializeRanges (parsed t)))"
      "\<forall>b. p = Some b \<longrightarrow> (\<forall>r\<in>set (parsed t). holds b c r)"
proof (cases t)
  case None
  with that(1) show ?thesis by (simp add: parsed_def)
next
  case (Some u)
  then obtain rs where "rs \<noteq> []" "ranges_ok rs" "u = text_bytes (serializeRanges rs)"
    "\<forall>b. p = Some b \<longrightarrow> (\<forall>r\<in>set rs. holds b c r)" using assms by auto
  with Some that(2) parsed_text [of rs] show ?thesis by simp
qed

lemma load_state_ok: "state_ok c ve \<Longrightarrow> state_ok c (load name f ve)"
proof -
  assume ok: "state_ok c ve"
  obtain w p t e where ve: "ve = ((w, p, t), e)" by (cases ve) auto
  have view: "view_ok c (w, p, t)" and rec: "\<And>rs. e = Some rs \<Longrightarrow> recorded c (w, p, t) rs"
    using ok by (auto simp: state_ok_def ve)
  have "state_ok c (load_whole ve)" using view rec by (auto simp: state_ok_def ve split: if_splits)
  moreover have "state_ok c (load_part ve)"
  proof (cases rule: parsed_view [OF view])
    case 1
    with view rec show ?thesis by (auto simp: state_ok_def ve split: if_splits)
  next
    case 2
    with view rec show ?thesis by (auto simp: state_ok_def ve split: if_splits)
  qed
  ultimately show ?thesis using ok by (simp add: load_def)
qed

text \<open>A file that was known is known again: completely, or as the same ranges.\<close>

definition remembered :: "u8 list \<Rightarrow> range list \<Rightarrow> file_view \<times> range list option \<Rightarrow> bool" where
  "remembered c rs ve \<longleftrightarrow>
     (if rs = [] then fst (fst ve) = Some c else snd ve = Some rs \<or> snd ve = Some [] \<or> snd ve = None \<and> recorded c (fst ve) rs)"

lemma load_remembered: "state_ok c ve \<Longrightarrow> remembered c rs ve \<Longrightarrow> remembered c rs (load name f ve)"
proof -
  assume ok: "state_ok c ve" and rem: "remembered c rs ve"
  obtain w p t e where ve: "ve = ((w, p, t), e)" by (cases ve) auto
  have "parsed t = rs" if "recorded c (w, p, t) rs" "rs \<noteq> []" using that parsed_text by (auto split: if_splits)
  with rem show ?thesis by (auto simp: remembered_def load_def ve split: if_splits)
qed

lemma load_finds:
  assumes "remembered c rs ve" "name = convertToHexString f @ (if rs = [] then [] else PARTIAL_SUFFIX)"
  shows "snd (load name f ve) = Some rs \<or> snd (load name f ve) = Some []"
proof -
  obtain w p t e where ve: "ve = ((w, p, t), e)" by (cases ve) auto
  have "parsed t = rs" if "recorded c (w, p, t) rs" "rs \<noteq> []" using that parsed_text by (auto split: if_splits)
  with assms show ?thesis by (auto simp: remembered_def load_def ve PARTIAL_SUFFIX_def split: if_splits)
qed

lemma load_keeps: "snd ve = Some rs \<or> snd ve = Some [] \<Longrightarrow> snd (load name f ve) = Some rs \<or> snd (load name f ve) = Some []"
proof -
  obtain w p t e where "ve = ((w, p, t), e)" by (cases ve) auto
  then show "snd ve = Some rs \<or> snd ve = Some [] \<Longrightarrow> ?thesis" by (auto simp: load_def)
qed

section \<open>Names\<close>

lemma hex_no_dot: "length f = 32 \<Longrightarrow> CHR ''.'' \<notin> set (convertToHexString f)"
proof
  assume f: "length f = 32" and "CHR ''.'' \<in> set (convertToHexString f)"
  then obtain k where "k < 64" "convertToHexString f ! k = CHR ''.''"
    using hex_reads_back(3) [OF f, of f] by (auto simp: in_set_conv_nth)
  with hex_reads_back(2) [OF f, of f k] f show False by (simp add: hex_char_def)
qed

lemma has_suffix_last: "has_suffix suffix s \<Longrightarrow> suffix \<noteq> [] \<Longrightarrow> last s = last suffix"
  by (metis has_suffix_def last_drop drop_eq_Nil2 linorder_not_less)

lemma suffixes:
  assumes "length f = 32"
  shows "has_suffix PARTIAL_SUFFIX (convertToHexString f @ PARTIAL_SUFFIX)"
    "has_suffix RANGES_SUFFIX (convertToHexString f @ RANGES_SUFFIX)"
    "\<not> has_suffix PARTIAL_SUFFIX (convertToHexString f)" "\<not> has_suffix RANGES_SUFFIX (convertToHexString f)"
    "\<not> has_suffix RANGES_SUFFIX (convertToHexString f @ PARTIAL_SUFFIX)"
    "\<not> has_suffix PARTIAL_SUFFIX (convertToHexString f @ RANGES_SUFFIX @ ''.temp'')"
    "\<not> has_suffix RANGES_SUFFIX (convertToHexString f @ RANGES_SUFFIX @ ''.temp'')"
proof -
  have len: "length (convertToHexString f) = 64" using hex_reads_back(3) [OF assms, of f] assms by simp
  show "has_suffix PARTIAL_SUFFIX (convertToHexString f @ PARTIAL_SUFFIX)"
    "has_suffix RANGES_SUFFIX (convertToHexString f @ RANGES_SUFFIX)" using len by (auto simp: has_suffix_def)
  show "\<not> has_suffix PARTIAL_SUFFIX (convertToHexString f)" "\<not> has_suffix RANGES_SUFFIX (convertToHexString f)"
    using hex_no_dot [OF assms] by (auto simp: has_suffix_def PARTIAL_SUFFIX_def RANGES_SUFFIX_def dest: arg_cong [where f = set] in_set_dropD)
      (metis in_set_dropD list.set_intros(1))+
  show "\<not> has_suffix RANGES_SUFFIX (convertToHexString f @ PARTIAL_SUFFIX)"
    "\<not> has_suffix PARTIAL_SUFFIX (convertToHexString f @ RANGES_SUFFIX @ ''.temp'')"
    "\<not> has_suffix RANGES_SUFFIX (convertToHexString f @ RANGES_SUFFIX @ ''.temp'')"
    using has_suffix_last [of RANGES_SUFFIX] has_suffix_last [of PARTIAL_SUFFIX]
    by (fastforce simp: PARTIAL_SUFFIX_def RANGES_SUFFIX_def)+
qed

section \<open>One name, and all of them\<close>

lemma state_ok_pointwise:
  assumes "names_ok prefix fs" "\<And>g. length g = 32 \<Longrightarrow> state_ok (content g) (view prefix fs g, entry_of cm g)"
    and "\<And>g e h sz. map_find g (mMap cm) = Some (e, h, sz) \<Longrightarrow> length g = 32 \<and> e \<noteq> None"
  shows "files_true content prefix fs \<and> entries_true content prefix fs cm"
proof -
  have "files_true content prefix fs" using assms(1,2) by (simp add: files_true_def state_ok_def)
  moreover have "entries_true content prefix fs cm"
    unfolding entries_true_def
  proof (intro allI impI)
    fix f e h sz assume find: "map_find f (mMap cm) = Some (e, h, sz)"
    then obtain rs where "length f = 32" "e = Some rs" using assms(3) by blast
    with assms(2) [of f] find show "length f = 32 \<and> (\<exists>rs. e = Some rs \<and> recorded (content f) (view prefix fs f) rs)"
      by (auto simp: state_ok_def entry_of_def)
  qed
  ultimately show ?thesis ..
qed

lemma disk_true_state_ok:
  "disk_true content s \<Longrightarrow> length g = 32 \<Longrightarrow> state_ok (content g) (view (mPrefix s) (on_disk s) g, entry_of (mFiles s) g)"
  by (auto simp: disk_true_def state_ok_def files_true_def entries_true_def entry_of_def split: option.splits) fastforce

lemma disk_true_entry:
  "disk_true content s \<Longrightarrow> map_find g (mMap (mFiles s)) = Some (e, h, sz) \<Longrightarrow> length g = 32 \<and> e \<noteq> None"
  unfolding disk_true_def entries_true_def by blast

lemma load_other: "name \<noteq> convertToHexString g \<Longrightarrow> name \<noteq> convertToHexString g @ PARTIAL_SUFFIX \<Longrightarrow> load name g ve = ve"
  by (simp add: load_def)

context disk_policy
begin

lemma insert_assign_ok:
  assumes "ok cm" "map_find f (mMap cm) = None"
  shows "\<exists>cm1 cm2 h. iter_insert vt f sz cm = (cm1, Some f, True) \<and> iter_assign (Some rs) cm1 (Some f) = Inr cm2 \<and> ok cm2
    \<and> (\<forall>g. map_find g (mMap cm2) = (if g = f then Some (Some rs, h, sz) else map_find g (mMap cm)))"
proof -
  obtain cm1 h where ins: "iter_insert vt f sz cm = (cm1, Some f, True)" "ok cm1"
    "mMap cm1 = map_insert f (None, h, sz) (mMap cm)"
    using iter_insert_ok [OF assms, of sz] by blast
  have find1: "map_find g (mMap cm1) = (if g = f then Some (None, h, sz) else map_find g (mMap cm))" for g
    using assms by (simp add: ins(3) map_find_insert cm_ok_def)
  obtain cm2 where "iter_assign (Some rs) cm1 (Some f) = Inr cm2" "ok cm2"
    "mMap cm2 = map_assign f (Some rs, h, sz) (mMap cm1)"
    using iter_assign_ok [OF ins(2), of f None h sz "Some rs"] find1 [of f] by auto
  with ins(1) find1 show ?thesis by (auto simp: map_find_assign)
qed

lemma load_step:
  assumes "good_layer content s" "ok cm" "names_ok (mPrefix s) fs"
    and "\<And>g e h sz. map_find g (mMap cm) = Some (e, h, sz) \<Longrightarrow> length g = 32 \<and> e \<noteq> None"
    and "\<And>g. length g = 32 \<Longrightarrow> (view (mPrefix s) fs g, entry_of cm g)
      = load name g (view (mPrefix s) (on_disk s) g, entry_of (mFiles s) g)"
  shows "good_layer content (s\<lparr>mFiles := cm, on_disk := fs\<rparr>)"
proof -
  have "state_ok (content g) (view (mPrefix s) fs g, entry_of cm g)" if "length g = 32" for g
    using assms(5) [OF that] load_state_ok disk_true_state_ok assms(1) that by metis
  from state_ok_pointwise [OF assms(3) this assms(4)] assms(1,2) show ?thesis by (simp add: disk_true_def)
qed

lemma unserialize_entry_whole:
  assumes "good_layer content s" "32 \<le> length junk" "length f = 32"
    and "on_disk s (mPrefix s @ convertToHexString f) = Some bytes" "name = convertToHexString f"
  shows "\<exists>cm fs. unserialize_entry env vt junk name s = Inr (s\<lparr>mFiles := cm, on_disk := fs\<rparr>)
    \<and> good_layer content (s\<lparr>mFiles := cm, on_disk := fs\<rparr>)
    \<and> (\<forall>g. length g = 32 \<longrightarrow> (view (mPrefix s) fs g, entry_of cm g) = load name g (view (mPrefix s) (on_disk s) g, entry_of (mFiles s) g))"
proof -
  have hex: "convertFromHex junk name = Inr f" using hex_reads_back(1) assms by simp
  have names: "names_ok (mPrefix s) (on_disk s)" using assms(1) by (simp add: disk_true_def files_true_def)
  have other: "load name g ve = ve" if "length g = 32" "g \<noteq> f" for g ve
    using that assms(3,5) by (intro load_other) (auto simp: PARTIAL_SUFFIX_def)
  show ?thesis
  proof (cases "map_find f (mMap (mFiles s))")
    case None
    obtain cm1 cm2 h where cm: "iter_insert vt f (getDiskUsage env bytes) (mFiles s) = (cm1, Some f, True)"
      "iter_assign (Some []) cm1 (Some f) = Inr cm2" "ok cm2"
      "\<forall>g. map_find g (mMap cm2) = (if g = f then Some (Some [], h, getDiskUsage env bytes) else map_find g (mMap (mFiles s)))"
      using insert_assign_ok [OF _ None, of "getDiskUsage env bytes" "[]"] assms(1) by blast
    have run: "unserialize_entry env vt junk name s = Inr (s\<lparr>mFiles := cm2\<rparr>)"
      using cm(1,2) assms(4,5) hex suffixes [OF assms(3)] by (simp add: unserialize_entry_def disk_ub_def Let_def)
    moreover have load: "(view (mPrefix s) (on_disk s) g, entry_of cm2 g)
        = load name g (view (mPrefix s) (on_disk s) g, entry_of (mFiles s) g)" if "length g = 32" for g
      using that other [OF that] cm(4) None assms(4,5) by (cases "g = f") (simp_all add: entry_of_def load_def view_def)
    moreover have "length g = 32 \<and> e \<noteq> None" if "map_find g (mMap cm2) = Some (e, h', sz)" for g e h' sz
      using that cm(4) assms(1,3) disk_true_entry by (metis option.distinct(1) option.inject prod.inject)
    ultimately show ?thesis
      using load_step [OF assms(1) cm(3) names, of name] by (intro exI [of _ cm2] exI [of _ "on_disk s"]) simp
  next
    case (Some v)
    then obtain rs h sz where find: "map_find f (mMap (mFiles s)) = Some (Some rs, h, sz)"
      using disk_true_entry assms(1) by (metis option.exhaust prod_cases3)
    obtain cm where cm: "iter_assign (Some []) (mFiles s) (Some f) = Inr cm" "ok cm"
      "mMap cm = map_assign f (Some [], h, sz) (mMap (mFiles s))"
      using iter_assign_ok [OF _ find, of "Some []"] assms(1) by blast
    have maps: "map_find g (mMap cm) = (if g = f then Some (Some [], h, sz) else map_find g (mMap (mFiles s)))" for g
      using find by (simp add: cm(3) map_find_assign)
    let ?fs = "unlink (mPrefix s @ convertToHexString f @ PARTIAL_SUFFIX) (on_disk s)"
    have run: "unserialize_entry env vt junk name s = Inr (s\<lparr>mFiles := cm, on_disk := ?fs\<rparr>)"
      using find cm(1) assms(4,5) hex suffixes [OF assms(3)]
      by (simp add: unserialize_entry_def iter_insert_def iter_deref_def iter_entry_def disk_ub_def Let_def)
    moreover have load: "(view (mPrefix s) ?fs g, entry_of cm g)
        = load name g (view (mPrefix s) (on_disk s) g, entry_of (mFiles s) g)" if "length g = 32" for g
      using that other [OF that] maps [of g] find assms(3,4,5) view_other(1) [OF assms(3) that]
      by (cases "g = f") (simp_all add: entry_of_def load_def view_def unlink_def PARTIAL_SUFFIX_def RANGES_SUFFIX_def)
    moreover have "length g = 32 \<and> e \<noteq> None" if "map_find g (mMap cm) = Some (e, h', sz)" for g e h' sz
      using that maps [of g] assms(1,3) disk_true_entry by (metis option.distinct(1) option.inject prod.inject)
    moreover have "names_ok (mPrefix s) ?fs" using names_ok_upd [OF names assms(3)] by (simp add: unlink_def)
    ultimately show ?thesis
      using load_step [OF assms(1) cm(2), of ?fs name] by (intro exI [of _ cm] exI [of _ ?fs]) simp
  qed
qed

lemma unserialize_entry_part:
  assumes "good_layer content s" "32 \<le> length junk" "length f = 32" "\<forall>path. can_open env path"
    and "on_disk s (mPrefix s @ convertToHexString f @ PARTIAL_SUFFIX) = Some bytes" "name = convertToHexString f @ PARTIAL_SUFFIX"
  shows "\<exists>cm fs. unserialize_entry env vt junk name s = Inr (s\<lparr>mFiles := cm, on_disk := fs\<rparr>)
    \<and> good_layer content (s\<lparr>mFiles := cm, on_disk := fs\<rparr>)
    \<and> (\<forall>g. length g = 32 \<longrightarrow> (view (mPrefix s) fs g, entry_of cm g) = load name g (view (mPrefix s) (on_disk s) g, entry_of (mFiles s) g))"
proof -
  let ?t = "on_disk s (mPrefix s @ convertToHexString f @ RANGES_SUFFIX)"
  have hex: "convertFromHex junk (convertToHexString f) = Inr f" using hex_reads_back(1) assms(2,3) by simp
  have names: "names_ok (mPrefix s) (on_disk s)" using assms(1) by (simp add: disk_true_def files_true_def)
  have ranges: "read_ranges_file env (mPrefix s @ convertToHexString f @ RANGES_SUFFIX) (on_disk s) = parsed ?t"
    using assms(4) by (simp add: read_ranges_file_def parsed_def unserializeRanges.simps [of _ "\<lparr>unread = [], good = False\<rparr>"] split: option.split)
  have other: "load name g ve = ve" if "length g = 32" "g \<noteq> f" for g ve
    using that assms(3,6) by (intro load_other) (auto simp: PARTIAL_SUFFIX_def)
  have same: "load name f (view (mPrefix s) (on_disk s) f, e)
      = (if parsed ?t = [] then ((fst (view (mPrefix s) (on_disk s) f), None, None), e)
         else (view (mPrefix s) (on_disk s) f, if e = None then Some (parsed ?t) else e))" for e
    using assms(5,6) by (simp add: load_def view_def PARTIAL_SUFFIX_def)
  note entry = unserialize_entry_def suffixes [OF assms(3)] assms(5,6) ranges hex Let_def
  show ?thesis
  proof (cases "parsed ?t = []")
    case True
    let ?fs = "unlink (mPrefix s @ convertToHexString f @ PARTIAL_SUFFIX)
      (unlink (mPrefix s @ convertToHexString f @ RANGES_SUFFIX) (on_disk s))"
    have run: "unserialize_entry env vt junk name s = Inr (s\<lparr>mFiles := mFiles s, on_disk := ?fs\<rparr>)"
      using True by (simp add: entry)
    have load: "(view (mPrefix s) ?fs g, entry_of (mFiles s) g)
        = load name g (view (mPrefix s) (on_disk s) g, entry_of (mFiles s) g)" if "length g = 32" for g
    proof (cases "g = f")
      case True
      have "view (mPrefix s) ?fs f = (fst (view (mPrefix s) (on_disk s) f), None, None)"
        using assms(3) by (simp add: view_def unlink_def PARTIAL_SUFFIX_def RANGES_SUFFIX_def)
      with True \<open>parsed ?t = []\<close> same show ?thesis by simp
    next
      case False
      with that assms(3) other [OF that] show ?thesis by (simp add: unlink_def view_other)
    qed
    have names': "names_ok (mPrefix s) ?fs" using names_ok_upd [OF _ assms(3)] names by (simp add: unlink_def)
    have "good_layer content (s\<lparr>mFiles := mFiles s, on_disk := ?fs\<rparr>)"
    proof (rule load_step [OF assms(1)])
      show "ok (mFiles s)" using assms(1) by blast
      show "names_ok (mPrefix s) ?fs" by (rule names')
      show "length g = 32 \<and> e \<noteq> None" if "map_find g (mMap (mFiles s)) = Some (e, h, sz)" for g e h sz
        using disk_true_entry [OF conjunct2 [OF assms(1)] that] .
      show "length g = 32 \<Longrightarrow> (view (mPrefix s) ?fs g, entry_of (mFiles s) g)
        = load name g (view (mPrefix s) (on_disk s) g, entry_of (mFiles s) g)" for g by (rule load)
    qed
    with run load show ?thesis by (intro exI [of _ "mFiles s"] exI [of _ ?fs]) blast
  next
    case parsed: False
    show ?thesis
    proof (cases "map_find f (mMap (mFiles s))")
      case None
      obtain cm1 cm2 h where cm: "iter_insert vt f (getDiskUsage env bytes) (mFiles s) = (cm1, Some f, True)"
        "iter_assign (Some (parsed ?t)) cm1 (Some f) = Inr cm2" "ok cm2"
        "\<forall>g. map_find g (mMap cm2) = (if g = f then Some (Some (parsed ?t), h, getDiskUsage env bytes) else map_find g (mMap (mFiles s)))"
        using insert_assign_ok [OF _ None, of "getDiskUsage env bytes" "parsed ?t"] assms(1) by blast
      have run: "unserialize_entry env vt junk name s = Inr (s\<lparr>mFiles := cm2\<rparr>)"
        using cm(1,2) parsed by (simp add: entry disk_ub_def)
      moreover have load: "(view (mPrefix s) (on_disk s) g, entry_of cm2 g)
          = load name g (view (mPrefix s) (on_disk s) g, entry_of (mFiles s) g)" if "length g = 32" for g
        using other [OF that] cm(4) None same parsed by (cases "g = f") (simp_all add: entry_of_def)
      moreover have "length g = 32 \<and> e \<noteq> None" if "map_find g (mMap cm2) = Some (e, h', sz)" for g e h' sz
        using that cm(4) assms(1,3) disk_true_entry by (metis option.distinct(1) option.inject prod.inject)
      ultimately show ?thesis
        using load_step [OF assms(1) cm(3) names, of name] by (intro exI [of _ cm2] exI [of _ "on_disk s"]) simp
    next
      case (Some v)
      then obtain rs h sz where find: "map_find f (mMap (mFiles s)) = Some (Some rs, h, sz)"
        using disk_true_entry assms(1) by (metis option.exhaust prod_cases3)
      have run: "unserialize_entry env vt junk name s = Inr (s\<lparr>mFiles := mFiles s, on_disk := on_disk s\<rparr>)"
        using find parsed by (simp add: entry iter_insert_def)
      moreover have "(view (mPrefix s) (on_disk s) g, entry_of (mFiles s) g)
          = load name g (view (mPrefix s) (on_disk s) g, entry_of (mFiles s) g)" if "length g = 32" for g
        using other [OF that] find same parsed by (cases "g = f") (simp_all add: entry_of_def)
      ultimately show ?thesis using assms(1) by (intro exI [of _ "mFiles s"] exI [of _ "on_disk s"]) simp
    qed
  qed
qed

lemma unserialize_entry_ok:
  assumes "good_layer content s" "32 \<le> length junk" "\<forall>path. can_open env path"
  shows "\<exists>cm fs. unserialize_entry env vt junk name s = Inr (s\<lparr>mFiles := cm, on_disk := fs\<rparr>)
    \<and> good_layer content (s\<lparr>mFiles := cm, on_disk := fs\<rparr>)
    \<and> (\<forall>g. length g = 32 \<longrightarrow> (view (mPrefix s) fs g, entry_of cm g) = load name g (view (mPrefix s) (on_disk s) g, entry_of (mFiles s) g))"
proof -
  have unchanged: ?thesis if "unserialize_entry env vt junk name s = Inr s"
    "\<And>g. length g = 32 \<Longrightarrow> load name g (view (mPrefix s) (on_disk s) g, entry_of (mFiles s) g) = (view (mPrefix s) (on_disk s) g, entry_of (mFiles s) g)"
    using that assms(1) by (intro exI [of _ "mFiles s"] exI [of _ "on_disk s"]) simp
  show ?thesis
  proof (cases "has_suffix RANGES_SUFFIX name \<or> on_disk s (mPrefix s @ name) = None")
    case True
    show ?thesis
    proof (rule unchanged)
      show "unserialize_entry env vt junk name s = Inr s" using True by (auto simp: unserialize_entry_def Let_def)
      show "load name g (view (mPrefix s) (on_disk s) g, entry_of (mFiles s) g) = (view (mPrefix s) (on_disk s) g, entry_of (mFiles s) g)"
        if "length g = 32" for g
        using True suffixes [OF that] by (auto simp: load_def view_def)
    qed
  next
    case False
    then obtain bytes where bytes: "on_disk s (mPrefix s @ name) = Some bytes" by auto
    moreover have "names_ok (mPrefix s) (on_disk s)" using assms(1) by (simp add: disk_true_def files_true_def)
    ultimately obtain f x where f: "length f = 32" "name = convertToHexString f @ x"
      "x \<in> {[], PARTIAL_SUFFIX, RANGES_SUFFIX, RANGES_SUFFIX @ ''.temp''}"
      unfolding names_ok_def by (metis domI same_append_eq)
    consider "x = []" | "x = PARTIAL_SUFFIX" | "x = RANGES_SUFFIX @ ''.temp''"
      using f False suffixes(2) [OF f(1)] by auto
    then show ?thesis
    proof cases
      case 1
      with unserialize_entry_whole [OF assms(1,2) f(1), of bytes name] bytes f(2) show ?thesis by simp
    next
      case 2
      with unserialize_entry_part [OF assms(1,2) f(1) assms(3), of bytes name] bytes f(2) show ?thesis by simp
    next
      case 3
      show ?thesis
      proof (rule unchanged)
        have "length (convertToHexString f) = 64" using hex_reads_back(3) [OF f(1), of f] f(1) by simp
        then have "convertFromHex junk name = Inl Invalid_argument"
          using f(2) 3 by (simp add: convertFromHex_def RANGES_SUFFIX_def)
        with bytes f 3 suffixes(6,7) [OF f(1)] show "unserialize_entry env vt junk name s = Inr s"
          by (simp add: unserialize_entry_def Let_def)
        show "load name g (view (mPrefix s) (on_disk s) g, entry_of (mFiles s) g) = (view (mPrefix s) (on_disk s) g, entry_of (mFiles s) g)"
          if "length g = 32" for g
          using that f 3 by (intro load_other) (auto simp: PARTIAL_SUFFIX_def RANGES_SUFFIX_def)
      qed
    qed
  qed
qed

lemma disk_unserialize_ok:
  assumes "good_layer content s" "32 \<le> length junk" "\<forall>path. can_open env path"
  shows "\<exists>s'. disk_unserialize env vt junk names s = Inr s' \<and> good_layer content s' \<and> mPrefix s' = mPrefix s
    \<and> (\<forall>f rs. length f = 32 \<longrightarrow> remembered (content f) rs (view (mPrefix s) (on_disk s) f, entry_of (mFiles s) f) \<longrightarrow>
         remembered (content f) rs (view (mPrefix s) (on_disk s') f, entry_of (mFiles s') f)
         \<and> (entry_of (mFiles s) f \<in> {Some rs, Some []} \<or> convertToHexString f @ (if rs = [] then [] else PARTIAL_SUFFIX) \<in> set names
            \<longrightarrow> entry_of (mFiles s') f \<in> {Some rs, Some []}))"
  using assms(1)
proof (induction names arbitrary: s)
  case (Cons name names)
  obtain cm fs where step: "unserialize_entry env vt junk name s = Inr (s\<lparr>mFiles := cm, on_disk := fs\<rparr>)"
    "good_layer content (s\<lparr>mFiles := cm, on_disk := fs\<rparr>)"
    "\<And>g. length g = 32 \<Longrightarrow> (view (mPrefix s) fs g, entry_of cm g) = load name g (view (mPrefix s) (on_disk s) g, entry_of (mFiles s) g)"
    using unserialize_entry_ok [OF Cons.prems assms(2,3), of name] by blast
  obtain s' where s': "disk_unserialize env vt junk names (s\<lparr>mFiles := cm, on_disk := fs\<rparr>) = Inr s'" "good_layer content s'"
    "mPrefix s' = mPrefix s"
    "\<And>f rs. length f = 32 \<Longrightarrow> remembered (content f) rs (view (mPrefix s) fs f, entry_of cm f) \<Longrightarrow>
         remembered (content f) rs (view (mPrefix s) (on_disk s') f, entry_of (mFiles s') f)
         \<and> (entry_of cm f \<in> {Some rs, Some []} \<or> convertToHexString f @ (if rs = [] then [] else PARTIAL_SUFFIX) \<in> set names
            \<longrightarrow> entry_of (mFiles s') f \<in> {Some rs, Some []})"
    using Cons.IH [OF step(2)] by auto
  have all: "remembered (content f) rs (view (mPrefix s) (on_disk s') f, entry_of (mFiles s') f)
         \<and> (entry_of (mFiles s) f \<in> {Some rs, Some []}
              \<or> convertToHexString f @ (if rs = [] then [] else PARTIAL_SUFFIX) \<in> set (name # names)
            \<longrightarrow> entry_of (mFiles s') f \<in> {Some rs, Some []})"
    if f: "length f = 32" and rem: "remembered (content f) rs (view (mPrefix s) (on_disk s) f, entry_of (mFiles s) f)" for f rs
  proof -
    have "state_ok (content f) (view (mPrefix s) (on_disk s) f, entry_of (mFiles s) f)"
      using disk_true_state_ok [OF _ f] Cons.prems by blast
    then have rem': "remembered (content f) rs (view (mPrefix s) fs f, entry_of cm f)"
      using load_remembered [OF _ rem, of name f] step(3) [OF f] by simp
    have "entry_of cm f = Some rs \<or> entry_of cm f = Some []"
      if "entry_of (mFiles s) f \<in> {Some rs, Some []} \<or> name = convertToHexString f @ (if rs = [] then [] else PARTIAL_SUFFIX)"
      using that load_finds [OF rem, of name f] load_keeps [of "(view (mPrefix s) (on_disk s) f, entry_of (mFiles s) f)" rs name f]
        arg_cong [OF step(3) [OF f], of snd] by auto
    with s'(4) [OF f rem'] show ?thesis by auto
  qed
  have "disk_unserialize env vt junk (name # names) s = Inr s'" using step(1) s'(1) by simp
  with s'(2,3) all show ?case by blast
qed simp

end

interpretation disk_lru: disk_policy "lru_ops rnd" lru_tracked mFreeSpace mTotalSize lru_ok for rnd ..

section \<open>A layer with an LRU policy\<close>

definition disk_good :: "(digest \<Rightarrow> u8 list) \<Rightarrow> (lru_iter, digest lru_policy) disk_layer \<Rightarrow> bool" where
  "disk_good content s \<longleftrightarrow> cm_ok lru_tracked mFreeSpace mTotalSize lru_ok (mFiles s) \<and> disk_true content s"

text \<open>The constructor finds files that earlier runs wrote, and nothing else.\<close>

lemma DiskCacheLayer_init_ok:
  assumes "files_true content (prefix @ ''/'') fs" "32 \<le> length junk" "\<forall>path. can_open env path"
  shows "\<exists>s. DiskCacheLayer_init env (lru_ops rnd) junk (LRUPolicy_init sp pct) prefix names fs = Inr s
    \<and> disk_good content s \<and> mPrefix s = prefix @ ''/''
    \<and> (\<forall>f rs. length f = 32 \<longrightarrow> recorded (content f) (view (prefix @ ''/'') fs f) rs
         \<longrightarrow> convertToHexString f @ (if rs = [] then [] else PARTIAL_SUFFIX) \<in> set names
         \<longrightarrow> entry_of (mFiles s) f \<in> {Some rs, Some []})"
proof -
  define s0 :: "(lru_iter, digest lru_policy) disk_layer" where "s0 = \<lparr>mFiles = CacheMap_init (LRUPolicy_init sp pct) (), mPrefix = prefix @ ''/'', mRequestQueue = [], mCleaningUp = False,
      worker_done = False, on_disk = fs, disk_effects = []\<rparr>"
  have "cm_ok lru_tracked mFreeSpace mTotalSize lru_ok (mFiles s0)"
    by (simp add: s0_def CacheMap_init_def LRUPolicy_init_def cm_ok_def lru_ok_def lru_tracked_def handles_def map_sizes_def)
  moreover have "disk_true content s0"
    using assms(1) by (simp add: s0_def disk_true_def entries_true_def CacheMap_init_def map_find_def)
  ultimately have good: "cm_ok lru_tracked mFreeSpace mTotalSize lru_ok (mFiles s0) \<and> disk_true content s0" ..
  have start: "mPrefix s0 = prefix @ ''/''" "on_disk s0 = fs" "entry_of (mFiles s0) f = None" for f
    by (simp_all add: s0_def entry_of_def CacheMap_init_def map_find_def)
  obtain s where s: "disk_unserialize env (lru_ops rnd) junk names s0 = Inr s"
    "cm_ok lru_tracked mFreeSpace mTotalSize lru_ok (mFiles s) \<and> disk_true content s" "mPrefix s = mPrefix s0"
    "\<forall>f rs. length f = 32 \<longrightarrow> remembered (content f) rs (view (mPrefix s0) (on_disk s0) f, entry_of (mFiles s0) f) \<longrightarrow>
         remembered (content f) rs (view (mPrefix s0) (on_disk s) f, entry_of (mFiles s) f)
         \<and> (entry_of (mFiles s0) f \<in> {Some rs, Some []} \<or> convertToHexString f @ (if rs = [] then [] else PARTIAL_SUFFIX) \<in> set names
            \<longrightarrow> entry_of (mFiles s) f \<in> {Some rs, Some []})"
    using disk_lru.disk_unserialize_ok [OF good assms(2,3)] by blast
  have "entry_of (mFiles s) f \<in> {Some rs, Some []}"
    if "length f = 32" "recorded (content f) (view (prefix @ ''/'') fs f) rs"
      "convertToHexString f @ (if rs = [] then [] else PARTIAL_SUFFIX) \<in> set names" for f rs
  proof -
    have "remembered (content f) rs (view (mPrefix s0) (on_disk s0) f, entry_of (mFiles s0) f)"
      using that(2) by (cases "view (prefix @ ''/'') fs f") (auto simp: start remembered_def)
    with s(4) that(1,3) show ?thesis by blast
  qed
  with s(1-3) show ?thesis by (auto simp: DiskCacheLayer_init_def start disk_good_def simp flip: s0_def)
qed

lemma disk_session_ok:
  assumes "files_true content (prefix @ ''/'') fs" "32 \<le> length junk" "\<forall>path. can_open env path"
    and "\<forall>f. length (content f) < 2 ^ 63" "list_all (disk_action_ok content) as"
    and "DiskCacheLayer_init env (lru_ops rnd) junk (LRUPolicy_init sp pct) prefix names fs = Inr s0"
  shows "\<exists>s. disk_run env (lru_ops rnd) as s0 = Some (Inr s) \<and> disk_good content s \<and> mPrefix s = prefix @ ''/''"
proof -
  have s0: "disk_good content s0" "mPrefix s0 = prefix @ ''/''"
    using DiskCacheLayer_init_ok [OF assms(1-3), of rnd sp pct names] assms(6) by auto
  then show ?thesis
    using disk_lru.disk_run_ok [OF s0(1) [unfolded disk_good_def] assms(5,4,3)] unfolding disk_good_def by metis
qed

lemma listing_exists:
  assumes "names_ok prefix fs"
  shows "\<exists>listing. \<forall>path\<in>dom fs. \<exists>name\<in>set listing. path = prefix @ name"
proof -
  have "finite (dom fs)" using assms by (simp add: names_ok_def)
  from finite_list [OF this] obtain paths where paths: "set paths = dom fs" ..
  show ?thesis
  proof (intro exI ballI)
    fix path assume path: "path \<in> dom fs"
    then obtain x where x: "path = prefix @ x" using assms unfolding names_ok_def by blast
    have "drop (length prefix) path \<in> set (map (drop (length prefix)) paths)" using path paths by simp
    then show "\<exists>name\<in>set (map (drop (length prefix)) paths). path = prefix @ name" using x by auto
  qed
qed

section \<open>Properties\<close>


definition sample_env :: disk_env where
  "sample_env = \<lparr>can_open = (\<lambda>_. True), getDiskUsage = (\<lambda>bytes. of_nat (length bytes))\<rparr>"

definition sample_file :: digest where
  "sample_file = replicate 32 7"

definition sample_content :: "digest \<Rightarrow> u8 list" where
  "sample_content f = (if f = sample_file then [10, 11, 12, 13, 14, 15] else [])"

definition sample_actions :: "disk_action list" where
  "sample_actions =
     [Disk_populate sample_file \<lparr>mStart = 2, mLength = 2, mWholeFile = False, mData = [12, 13]\<rparr>, Disk_work,
      Disk_populate sample_file \<lparr>mStart = 4, mLength = 2, mWholeFile = True, mData = [14, 15]\<rparr>, Disk_work,
      Disk_get \<lparr>mHash = sample_file, mURI = URI_relative URIContext_default []\<rparr> (Range_make 3 2 Init_LENGTH False) 9]"

lemma sample_actions_ok:
  "list_all (disk_action_ok sample_content) sample_actions" "\<forall>f. length (sample_content f) < 2 ^ 63"
  "files_true sample_content prefix Map.empty" "\<forall>path. can_open sample_env path"
  by (simp_all add: sample_actions_def sample_content_def block_of_def range_ok_def accessor_defs writable_range_def
      as_range_def request_range_ok_def files_true_def names_ok_def view_def sample_env_def)
    (simp_all add: sample_file_def)


text \<open>
  C20: a restart forgets nothing. When the layer is started again on the files that any run of it left, with the directory
  listed in any order, everything it records is on disk, and each file the map of the first run knew is
  known again, with the same ranges or completely.
\<close>

theorem disk_restart_remembers:
  assumes "files_true content (prefix @ ''/'') fs" "32 \<le> length junk" "\<forall>path. can_open env path"
    and "\<forall>f. length (content f) < 2 ^ 63" "list_all (disk_action_ok content) as"
    and "DiskCacheLayer_init env (lru_ops rnd) junk (LRUPolicy_init sp pct) prefix names fs = Inr s0"
    and "disk_run env (lru_ops rnd) as s0 = Some (Inr s)"
    and "\<forall>path\<in>dom (on_disk s). \<exists>name\<in>set listing. path = prefix @ ''/'' @ name"
  shows "\<exists>s'. DiskCacheLayer_init env (lru_ops rnd) junk (LRUPolicy_init sp pct) prefix listing (on_disk s) = Inr s'
    \<and> disk_good content s'
    \<and> (\<forall>f rs. entry_of (mFiles s) f = Some rs \<longrightarrow> entry_of (mFiles s') f \<in> {Some rs, Some []})"
proof -
  have s: "disk_good content s" "mPrefix s = prefix @ ''/''" using disk_session_ok [OF assms(1-6)] assms(7) by auto
  then have "files_true content (prefix @ ''/'') (on_disk s)" by (simp add: disk_good_def disk_true_def)
  then obtain s' where s': "DiskCacheLayer_init env (lru_ops rnd) junk (LRUPolicy_init sp pct) prefix listing (on_disk s) = Inr s'"
    "disk_good content s'"
    "\<forall>f rs. length f = 32 \<longrightarrow> recorded (content f) (view (prefix @ ''/'') (on_disk s) f) rs
         \<longrightarrow> convertToHexString f @ (if rs = [] then [] else PARTIAL_SUFFIX) \<in> set listing
         \<longrightarrow> entry_of (mFiles s') f \<in> {Some rs, Some []}"
    using DiskCacheLayer_init_ok [OF _ assms(2,3), of content prefix "on_disk s" rnd sp pct listing] by blast
  have "entry_of (mFiles s') f \<in> {Some rs, Some []}" if entry: "entry_of (mFiles s) f = Some rs" for f rs
  proof -
    obtain h sz where "map_find f (mMap (mFiles s)) = Some (Some rs, h, sz)"
      using entry by (auto simp: entry_of_def split: option.splits)
    then have f: "length f = 32" "recorded (content f) (view (prefix @ ''/'') (on_disk s) f) rs"
      using s unfolding disk_good_def disk_true_def entries_true_def by (metis option.inject)+
    then have "prefix @ ''/'' @ convertToHexString f @ (if rs = [] then [] else PARTIAL_SUFFIX) \<in> dom (on_disk s)"
      by (auto simp: view_def split: if_splits)
    with assms(8) have "convertToHexString f @ (if rs = [] then [] else PARTIAL_SUFFIX) \<in> set listing"
      by (metis same_append_eq)
    with s'(3) f show ?thesis by blast
  qed
  with s'(1,2) show ?thesis by blast
qed

theorem disk_restart_remembers_witness:
  "\<exists>s0 s listing. DiskCacheLayer_init sample_env (lru_ops id) sample_file (LRUPolicy_init 1000 1) ''cache'' [] Map.empty = Inr s0
    \<and> disk_run sample_env (lru_ops id) sample_actions s0 = Some (Inr s)
    \<and> (\<exists>s'. DiskCacheLayer_init sample_env (lru_ops id) sample_file (LRUPolicy_init 1000 1) ''cache'' listing (on_disk s) = Inr s'
         \<and> disk_good sample_content s')"
proof -
  have junk: "32 \<le> length sample_file" by (simp add: sample_file_def)
  note ok = sample_actions_ok(3) junk sample_actions_ok(4,2,1)
  obtain s0 where s0: "DiskCacheLayer_init sample_env (lru_ops id) sample_file (LRUPolicy_init 1000 1) ''cache'' [] Map.empty = Inr s0"
    using DiskCacheLayer_init_ok [OF ok(1-3)] by blast
  obtain s where s: "disk_run sample_env (lru_ops id) sample_actions s0 = Some (Inr s)" "disk_good sample_content s"
    "mPrefix s = ''cache'' @ ''/''"
    using disk_session_ok [OF ok s0] by blast
  obtain listing where "\<forall>path\<in>dom (on_disk s). \<exists>name\<in>set listing. path = ''cache'' @ ''/'' @ name"
    using listing_exists [of "''cache/''" "on_disk s"] s(2,3) by (auto simp: disk_good_def disk_true_def files_true_def)
  from disk_restart_remembers [OF ok s0 s(1) this] s0 s(1) show ?thesis by blast
qed

text \<open>
  C22: a read from the middle to the end of a file is too long. The worker sets the length of the block to the size of the
  whole file, although the block starts later: it delivers the rest of the file followed by as many zeros as the file has
  bytes before the start, as if they were part of the file.
\<close>

theorem disk_read_to_end_overlong:
  assumes "disk_good content s" "entry_of (mFiles s) (mHash rfid) = Some []" "\<forall>path. can_open env path"
    and "mWholeFile r" "unat (mStart r) \<le> length (content (mHash rfid))" "length (content (mHash rfid)) < 2 ^ 63"
  shows "\<exists>s' d. do_read env rfid r cb s = Inr s'
    \<and> disk_effects s' = disk_effects s @ [Populate_above (mHash rfid) d, Finished cb (addValidData d [])]
    \<and> mStart d = mStart r \<and> mLength d = of_nat (length (content (mHash rfid)))
    \<and> mData d = drop (unat (mStart r)) (content (mHash rfid)) @ replicate (unat (mStart r)) 0"
proof -
  let ?c = "content (mHash rfid)"
  obtain h sz where find: "map_find (mHash rfid) (mMap (mFiles s)) = Some (Some [], h, sz)"
    using assms(2) by (auto simp: entry_of_def split: option.splits)
  then have "recorded ?c (view (mPrefix s) (on_disk s) (mHash rfid)) []"
    using assms(1) unfolding disk_good_def disk_true_def entries_true_def by blast
  then have "on_disk s (file_path (mHash rfid) s) = Some ?c" by (simp add: view_def file_path_def)
  then have "do_read env rfid r cb s = Inr (let datum = read_block r ?c in
      effect (Finished cb (addValidData datum [])) (effect (Populate_above (mHash rfid) datum) s))"
    using find assms(3) by (simp add: do_read_def iter_find_def iter_deref_def iter_entry_def disk_ub_def wholeFile_def Let_def)
  moreover have "unat (of_nat (length ?c) :: u64) = length ?c" using assms(6) by (intro unat_of_nat_eq) simp
  then have "mStart (read_block r ?c) = mStart r" "mLength (read_block r ?c) = of_nat (length ?c)"
    "mData (read_block r ?c) = drop (unat (mStart r)) ?c @ replicate (unat (mStart r)) 0"
    using assms(4,5) by (auto simp: read_block_def DenseData_range_def vec_resize_def accessor_defs Let_def)
  ultimately show ?thesis by (auto simp: effect_def Let_def)
qed

lemma sample_directory:
  "files_true sample_content (''cache'' @ ''/'') [''cache/'' @ convertToHexString sample_file \<mapsto> sample_content sample_file]"
proof -
  let ?fs = "[''cache/'' @ convertToHexString sample_file \<mapsto> sample_content sample_file]"
  have len: "length sample_file = 32" by (simp add: sample_file_def)
  have "names_ok ''cache/'' Map.empty" by (simp add: names_ok_def)
  from names_ok_upd [OF this len, of "[]" "Some (sample_content sample_file)"] have "names_ok ''cache/'' ?fs" by simp
  moreover have "view_ok (sample_content g) (view ''cache/'' ?fs g)" if "length g = 32" for g
    using len that by (simp add: view_def PARTIAL_SUFFIX_def RANGES_SUFFIX_def)
  ultimately show ?thesis by (simp add: files_true_def)
qed

theorem disk_read_to_end_overlong_witness:
  "\<exists>s s' d. disk_good sample_content s
    \<and> do_read sample_env \<lparr>mHash = sample_file, mURI = URI_relative URIContext_default []\<rparr> (Range_from 4 True) 9 s = Inr s'
    \<and> disk_effects s' = disk_effects s @ [Populate_above sample_file d, Finished 9 (addValidData d [])]
    \<and> mData d = [14, 15, 0, 0, 0, 0]"
proof -
  let ?fs = "[''cache/'' @ convertToHexString sample_file \<mapsto> sample_content sample_file]"
  have len: "length sample_file = 32" by (simp add: sample_file_def)
  have "recorded (sample_content sample_file) (view (''cache'' @ ''/'') ?fs sample_file) []" by (simp add: view_def)
  then obtain s where s: "disk_good sample_content s" "entry_of (mFiles s) sample_file = Some []"
    using DiskCacheLayer_init_ok [OF sample_directory _ sample_actions_ok(4), where junk = sample_file
        and names = "[convertToHexString sample_file]"] len by fastforce
  have "unat (mStart (Range_from 4 True)) \<le> length (sample_content sample_file)"
    by (simp add: Range_from_def sample_content_def)
  then obtain s' d where "do_read sample_env \<lparr>mHash = sample_file, mURI = URI_relative URIContext_default []\<rparr> (Range_from 4 True) 9 s = Inr s'"
    "disk_effects s' = disk_effects s @ [Populate_above sample_file d, Finished 9 (addValidData d [])]"
    "mData d = drop (unat (mStart (Range_from 4 True))) (sample_content sample_file) @ replicate (unat (mStart (Range_from 4 True))) 0"
    using disk_read_to_end_overlong [of sample_content s "\<lparr>mHash = sample_file, mURI = URI_relative URIContext_default []\<rparr>"
        sample_env "Range_from 4 True" 9] s sample_actions_ok(2,4) by (auto simp: Range_from_def)
  moreover have "unat (mStart (Range_from 4 True)) = Suc (Suc (Suc (Suc 0)))" by (simp add: Range_from_def)
  then have "drop (unat (mStart (Range_from 4 True))) (sample_content sample_file)
      @ replicate (unat (mStart (Range_from 4 True))) 0 = [14, 15, 0, 0, 0, 0]"
    by (simp only:) (simp add: sample_content_def)
  ultimately show ?thesis using s(1) by metis
qed

text \<open>
  A block of no bytes is taken for the whole file: the list of ranges stays empty, which means that all of the file
  is there, and the partial file gets the name of the complete one.
\<close>

lemma empty_block_taken_for_file:
  assumes "disk_good content s" "map_find fid (mMap (mFiles s)) = None" "mLength d = 0" "cachable rnd 0 (mPolicy (mFiles s))"
    and "\<forall>path. can_open env path" "do_write env (lru_ops rnd) fid d s = Some (Inr s')"
  shows "entry_of (mFiles s') fid = Some [] \<and> cache_contains r []"
proof -
  have ok: "cm_ok lru_tracked mFreeSpace mTotalSize lru_ok (mFiles s)" using assms(1) by (simp add: disk_good_def)
  obtain cm it where al: "alloc_loop (lru_ops rnd) disk_destroyCacheEntry 0 (mFiles s) None = Some (Inr (cm, it))"
    "cm_ok lru_tracked mFreeSpace mTotalSize lru_ok cm"
    "\<forall>f v. map_find f (mMap cm) = Some v \<longrightarrow> map_find f (mMap (mFiles s)) = Some v"
    using lru.alloc_loop_ok [OF ok, of rnd disk_destroyCacheEntry 0 None] by blast
  have admit: "write_admit (lru_ops rnd) fid d (mFiles s) = Some (Inr (cm, Some True))"
    using al(1) assms(2-4) by (simp add: write_admit_def iter_find_def alloc_def range_length_def lru_ops_def)
  have none: "map_find fid (mMap cm) = None" using al(3) assms(2) by (metis option.exhaust)
  have rl: "addToList d (as_range d) [] = []" "\<not> isContainedBy_list (Range_whole True) ([] :: range list)"
    using assms(3) by (simp_all add: addToList_def range_length_def isContainedBy_list_def)
  define fs where "fs = unlink (file_path fid s @ RANGES_SUFFIX) (on_disk s)"
  define bytes where "bytes = write_at (unat (startbyte d)) (take (unat (range_length d)) (mData d))
    (case fs (file_path fid s @ PARTIAL_SUFFIX) of None \<Rightarrow> [] | Some bytes \<Rightarrow> bytes)"
  obtain cm' h where rec: "write_record (lru_ops rnd) fid d (getDiskUsage env bytes) cm = Inr (cm', [])"
    "map_find fid (mMap cm') = Some (Some [], h, getDiskUsage env bytes)"
    using disk_lru.write_record_ok [OF al(2), of fid "[]" "[]" d False rnd "getDiskUsage env bytes"] none rl
    by (auto simp: serializeRanges_def)
  have "do_write env (lru_ops rnd) fid d s = write_data env (lru_ops rnd) fid d fs (s\<lparr>mFiles := cm\<rparr>)"
    by (simp add: do_write_def admit fs_def)
  also have "\<dots> = Some (Inr (s\<lparr>mFiles := cm', on_disk := unlink (file_path fid s @ RANGES_SUFFIX)
      (rename (file_path fid s @ PARTIAL_SUFFIX) (file_path fid s) (fs(file_path fid s @ PARTIAL_SUFFIX \<mapsto> bytes)))\<rparr>))"
    using rec(1) assms(5) by (simp add: write_data_def bytes_def file_path_def Let_def)
  finally show ?thesis using assms(6) rec(2) by (auto simp: entry_of_def cache_contains_def wholeFile_def)
qed

end
