(* ===== verification/Stream_Id.thy ===== *)
theory Stream_Id
  imports Prelude
begin

text \<open>
  The variable length 30 bit integers of the TCP stream protocol (\<open>Stream::uint30\<close>, used for stream
  ids and packet lengths; \<open>network/Stream.hpp\<close>, \<open>network/Stream.cpp\<close>).

  An object is its member \<open>mID\<close>, a 32 bit word. A failed \<open>assert\<close> is the value None. The
  destination of \<open>serialize\<close> is not overwritten beyond the bytes returned here, and the pair of
  arguments \<open>data\<close>, \<open>size\<close> of \<open>unserialize\<close> is the list of the \<open>size\<close> readable bytes.
\<close>

section \<open>Operations\<close>

definition MAX_SERIALIZED_LENGTH :: nat where
  "MAX_SERIALIZED_LENGTH = 4"

definition uint30_make :: "u32 \<Rightarrow> u32 option" where
  "uint30_make i = (if i < 1073741824 then Some i else None)"

definition uint30_odd :: "u32 \<Rightarrow> bool" where
  "uint30_odd i \<longleftrightarrow> and i 1 \<noteq> 0"

definition serialize :: "u32 \<Rightarrow> nat \<Rightarrow> u8 list option" where
  "serialize i maxsize =
     (if maxsize < MAX_SERIALIZED_LENGTH then None
      else if \<not> i < 1073741824 then None
      else if i < 128 then Some [ucast i]
      else if i < 16384 then Some [ucast (or (and i 127) 128), ucast (i div 128)]
      else let t = i div 16384 in
        Some [ucast (or (and i 127) 128), ucast (or (and (i div 128) 127) 128),
          ucast (and t 255), ucast (and (t div 256) 255)])"

definition unserialize :: "u8 list \<Rightarrow> (u32 \<times> nat) option" where
  "unserialize data =
     (if length data = 0 then None
      else let tempvalue = ucast (data ! 0) :: u32 in
        if 128 \<le> tempvalue then
          if length data < 2 then None
          else let tempvalue = and tempvalue 127; tempvalue1 = ucast (data ! 1) :: u32 in
            if 128 \<le> tempvalue1 then
              if length data < 4 then None
              else let tempvalue = tempvalue + and tempvalue1 127 * 128;
                       tempvalue = tempvalue + ucast (data ! 2) * 16384;
                       tempvalue = tempvalue + ucast (data ! 3) * 16384 * 256
                   in Some (tempvalue, 4)
            else Some (or tempvalue (tempvalue1 * 128), 2)
        else Some (tempvalue, 1))"

section \<open>Values\<close>

lemma and_127: "and (w :: u32) 127 = w mod 128"
  using take_bit_eq_mask [of 7 w] by (simp add: take_bit_eq_mod mask_eq_exp_minus_1)

lemma and_255: "and (w :: u32) 255 = w mod 256"
  using take_bit_eq_mask [of 8 w] by (simp add: take_bit_eq_mod mask_eq_exp_minus_1)

lemma or_shifted:
  assumes "(a :: u32) < 128"
  shows "or a (b * 128) = a + b * 128"
proof -
  have a: "a = take_bit 7 a" using assms
    by (simp add: take_bit_eq_mod word_unat_eq_iff unat_mod word_less_nat_alt)
  have "and (take_bit 7 a) (push_bit 7 b) = 0"
    by (rule bit_eqI) (auto simp: bit_and_iff bit_take_bit_iff bit_push_bit_iff)
  then have "and a (b * 128) = 0" using a by (simp add: push_bit_eq_mult)
  then show ?thesis by (simp add: disjunctive_add_eq_or)
qed

lemma or_128: "or (and (w :: u32) 127) 128 = w mod 128 + 128"
  using or_shifted [of "w mod 128" 1] by (simp add: and_127 word_less_nat_alt unat_mod)

lemma unat_u8_less: "unat (b :: u8) < 256"
  using unsigned_less [of b] by simp

lemma unat_ucast8: "unat (ucast (w :: u32) :: u8) = unat w mod 256"
  by (simp add: unsigned_ucast_eq take_bit_eq_mod)

lemma unat_ucast32 [simp]: "unat (ucast (b :: u8) :: u32) = unat b"
  using unat_u8_less [of b] by (simp add: unsigned_ucast_eq take_bit_eq_mod)

text \<open>The bytes \<open>serialize\<close> writes, as numbers.\<close>

lemma unat_continued_byte: "unat (ucast (or (and (w :: u32) 127) 128) :: u8) = unat w mod 128 + 128"
proof -
  have "unat w mod 128 < 128" by simp
  then show ?thesis by (simp add: unat_ucast8 or_128 unat_word_ariths unat_mod)
qed

definition value30 :: "u8 list \<Rightarrow> nat" where
  "value30 bs = unat (bs ! 0) mod 128 + unat (bs ! 1) mod 128 * 128
     + unat (bs ! 2) * 16384 + 4194304 * unat (bs ! 3)"

definition value14 :: "u8 list \<Rightarrow> nat" where
  "value14 bs = unat (bs ! 0) mod 128 + unat (bs ! 1) * 128"

lemma value30_less: "value30 bs < 2 ^ 30"
proof -
  have "unat (bs ! 0) mod 128 < 128" "unat (bs ! 1) mod 128 < 128" by simp_all
  moreover have "unat (bs ! 2) < 256" "unat (bs ! 3) < 256" by (rule unat_u8_less)+
  ultimately show ?thesis unfolding value30_def by simp
qed

text \<open>The three forms \<open>unserialize\<close> accepts.\<close>

lemma of_nat_unat_u8: "(of_nat (unat (b :: u8)) :: u32) = ucast b"
  by (simp add: word_unat_eq_iff unat_of_nat take_bit_eq_mod)

lemma ucast_ge_128: "128 \<le> (ucast (b :: u8) :: u32) \<longleftrightarrow> 128 \<le> unat b"
  by (simp add: word_le_nat_alt)

lemma unserialize_one:
  "d \<noteq> [] \<Longrightarrow> unat (d ! 0) < 128 \<Longrightarrow> unserialize d = Some (of_nat (unat (d ! 0)), 1)"
  by (simp add: unserialize_def ucast_ge_128 of_nat_unat_u8)

lemma unserialize_two:
  assumes "2 \<le> length d" "128 \<le> unat (d ! 0)" "unat (d ! 1) < 128"
  shows "unserialize d = Some (of_nat (value14 d), 2)"
proof -
  have "d \<noteq> []" using assms(1) by auto
  moreover have "or (and (ucast (d ! 0)) 127) (ucast (d ! 1) * 128 :: u32)
      = of_nat (value14 d)"
    by (subst or_shifted)
       (simp_all add: value14_def and_127 word_less_nat_alt unat_mod word_unat_eq_iff unat_word_ariths unat_of_nat
         take_bit_eq_mod mod_simps)
  ultimately show ?thesis using assms by (simp add: unserialize_def ucast_ge_128 not_le)
qed

lemma unserialize_four:
  assumes "4 \<le> length d" "128 \<le> unat (d ! 0)" "128 \<le> unat (d ! 1)"
  shows "unserialize d = Some (of_nat (value30 d), 4)"
proof -
  have "d \<noteq> []" using assms(1) by auto
  moreover have "and (ucast (d ! 0)) 127 + and (ucast (d ! 1)) 127 * 128 + ucast (d ! 2) * 16384
      + ucast (d ! 3) * 16384 * 256 = (of_nat (value30 d) :: u32)"
    by (simp add: value30_def and_127 unat_mod word_unat_eq_iff unat_word_ariths unat_of_nat
         take_bit_eq_mod mod_simps)
  ultimately show ?thesis using assms by (simp add: unserialize_def ucast_ge_128)
qed

lemma unserialize_None_iff:
  "unserialize d = None \<longleftrightarrow> length d = 0 \<or> 128 \<le> unat (d ! 0) \<and>
     (length d < 2 \<or> 128 \<le> unat (d ! 1) \<and> length d < 4)"
  by (simp add: unserialize_def ucast_ge_128 Let_def)

lemma unserialize_cases:
  assumes "unserialize d = Some (i, n)"
  obtains (one) "n = 1" "d \<noteq> []" "unat (d ! 0) < 128" "i = of_nat (unat (d ! 0))"
  | (two) "n = 2" "2 \<le> length d" "128 \<le> unat (d ! 0)" "unat (d ! 1) < 128"
      "i = of_nat (value14 d)"
  | (four) "n = 4" "4 \<le> length d" "128 \<le> unat (d ! 0)" "128 \<le> unat (d ! 1)" "i = of_nat (value30 d)"
proof -
  have "d \<noteq> []" using assms by (auto simp: unserialize_def)
  moreover have "2 \<le> length d" if "128 \<le> unat (d ! 0)"
    using assms that \<open>d \<noteq> []\<close> by (simp add: unserialize_def ucast_ge_128 split: if_splits)
  moreover have "4 \<le> length d" if "128 \<le> unat (d ! 0)" "128 \<le> unat (d ! 1)"
    using assms that \<open>d \<noteq> []\<close> by (simp add: unserialize_def ucast_ge_128 split: if_splits)
  ultimately show thesis
    using assms unserialize_one [of d] unserialize_two [of d] unserialize_four [of d] that
    by (metis not_le option.inject prod.inject)
qed

lemma unserialize_bounds:
  assumes "unserialize d = Some (i, n)"
  shows "unat i < 2 ^ 30 \<and> 1 \<le> n \<and> n \<le> 4 \<and> n \<le> length d"
  using assms
proof (cases rule: unserialize_cases)
  case one
  then show ?thesis using unat_u8_less [of "d ! 0"] by (cases d) (auto simp: unat_of_nat take_bit_eq_mod)
next
  case two
  have "unat (d ! 0) mod 128 < 128" by simp
  then have "value14 d < 2 ^ 30"
    using unat_u8_less [of "d ! 1"] unfolding value14_def by simp
  with two show ?thesis by (simp add: unat_of_nat take_bit_eq_mod)
next
  case four
  with value30_less [of d] show ?thesis by (simp add: unat_of_nat take_bit_eq_mod)
qed

text \<open>Bytes after the ones that were used do not matter.\<close>

lemma unserialize_append:
  assumes "unserialize d = Some (i, n)"
  shows "unserialize (d @ e) = Some (i, n)"
  using assms
proof (cases rule: unserialize_cases)
  case one
  then show ?thesis using unserialize_one [of "d @ e"] by (simp add: nth_append)
next
  case two
  then have "value14 (d @ e) = value14 d" "d \<noteq> []" by (auto simp: value14_def nth_append)
  with two show ?thesis using unserialize_two [of "d @ e"] by (simp add: nth_append)
next
  case four
  then have "value30 (d @ e) = value30 d" "d \<noteq> []" by (auto simp: value30_def nth_append)
  with four show ?thesis using unserialize_four [of "d @ e"] by (simp add: nth_append)
qed

lemma unserialize_take:
  assumes "unserialize d = Some (i, n)"
  shows "unserialize (take n d) = Some (i, n)"
  using assms
proof (cases rule: unserialize_cases)
  case one
  then show ?thesis using unserialize_one [of "take n d"] by simp
next
  case two
  then have "value14 (take n d) = value14 d" by (simp add: value14_def)
  with two show ?thesis using unserialize_two [of "take n d"] by simp
next
  case four
  then have "value30 (take n d) = value30 d" by (simp add: value30_def)
  with four show ?thesis using unserialize_four [of "take n d"] by simp
qed

lemma unserialize_None_short: "unserialize d = None \<Longrightarrow> length d < 4"
  by (auto simp: unserialize_None_iff)

section \<open>Round trip\<close>

lemma serialize_Some_iff: "(\<exists>bs. serialize i m = Some bs) \<longleftrightarrow> 4 \<le> m \<and> i < 1073741824"
  by (simp add: serialize_def MAX_SERIALIZED_LENGTH_def Let_def)

lemma serialize_length:
  assumes "serialize i m = Some bs"
  shows "1 \<le> length bs \<and> length bs \<le> 4 \<and> unat i < 2 ^ 30"
  using assms by (auto simp: serialize_def MAX_SERIALIZED_LENGTH_def Let_def word_less_nat_alt split: if_splits)

lemma of_nat_unat_eq: "n = unat (i :: u32) \<Longrightarrow> of_nat n = i"
  by simp

lemma digits30:
  assumes "n < 1073741824"
  shows "n mod 128 + n div 128 mod 128 * 128 + n div 16384 mod 256 * 16384
    + 4194304 * (n div 16384 div 256 mod 256) = (n :: nat)"
proof -
  have "n div 16384 div 256 mod 256 = n div 16384 div 256" using assms by simp
  moreover have "n = n div 128 * 128 + n mod 128" "n div 128 = n div 128 div 128 * 128 + n div 128 mod 128"
      "n div 16384 = n div 16384 div 256 * 256 + n div 16384 mod 256"
    by (simp_all only: div_mult_mod_eq)
  moreover have "n div 128 div 128 = n div 16384" by (simp add: div_mult2_eq [symmetric])
  ultimately show ?thesis by linarith
qed

lemma unserialize_serialize:
  assumes "serialize i m = Some bs"
  shows "unserialize (bs @ e) = Some (i, length bs)"
proof -
  have lt: "unat i < 1073741824"
    using assms by (auto simp: serialize_def word_less_nat_alt split: if_splits)
  consider "unat i < 128" | "128 \<le> unat i" "unat i < 16384" | "16384 \<le> unat i" by linarith
  then show ?thesis
  proof cases
    case 1
    then have "bs = [ucast i]" using assms lt by (auto simp: serialize_def word_less_nat_alt split: if_splits)
    with 1 unserialize_one [of "bs @ e"] show ?thesis by (simp add: unat_ucast8)
  next
    case 2
    then have bs: "bs = [ucast (or (and i 127) 128), ucast (i div 128)]"
      using assms lt by (auto simp: serialize_def word_less_nat_alt split: if_splits)
    have b1: "unat (bs ! 1) = unat i div 128" using 2 by (simp add: bs unat_ucast8 unat_div)
    have b0: "unat (bs ! 0) = unat i mod 128 + 128" by (simp add: bs unat_continued_byte)
    have "value14 (bs @ e) = unat i mod 128 + unat i div 128 * 128"
      unfolding value14_def using b0 b1 by (simp add: bs nth_append)
    also have "\<dots> = unat i" by simp
    finally have "value14 (bs @ e) = unat i" .
    with unserialize_two [of "bs @ e"] b0 b1 2 show ?thesis by (simp add: bs nth_append)
  next
    case 3
    then have bs: "bs = [ucast (or (and i 127) 128), ucast (or (and (i div 128) 127) 128),
        ucast (and (i div 16384) 255), ucast (and (i div 16384 div 256) 255)]"
      using assms lt by (auto simp: serialize_def word_less_nat_alt Let_def split: if_splits)
    have b: "unat (bs ! 0) = unat i mod 128 + 128" "unat (bs ! 1) = unat i div 128 mod 128 + 128"
        "unat (bs ! 2) = unat i div 16384 mod 256" "unat (bs ! 3) = unat i div 16384 div 256 mod 256"
      using unat_continued_byte [of i] unat_continued_byte [of "i div 128"]
      by (simp_all add: bs unat_div unat_ucast8 and_255 unat_mod)
    have "value30 (bs @ e) = unat i mod 128 + unat i div 128 mod 128 * 128
        + unat i div 16384 mod 256 * 16384 + 4194304 * (unat i div 16384 div 256 mod 256)"
      unfolding value30_def using b by (simp add: bs nth_append)
    also have "\<dots> = unat i" by (rule digits30 [OF lt])
    finally have "value30 (bs @ e) = unat i" .
    with unserialize_four [of "bs @ e"] b show ?thesis by (simp add: bs nth_append)
  qed
qed

section \<open>Properties\<close>

text \<open>
  A 30 bit integer survives the wire. Whatever bytes follow, \<open>unserialize\<close> on the bytes
  \<open>serialize\<close> wrote gives the integer back and reports exactly the bytes written, between one and
  \<open>MAX_SERIALIZED_LENGTH\<close> of them.
\<close>

lemma uint30_roundtrip:
  assumes "i < 1073741824" and "MAX_SERIALIZED_LENGTH \<le> maxsize"
  shows "\<exists>bs. serialize i maxsize = Some bs \<and> 1 \<le> length bs \<and> length bs \<le> MAX_SERIALIZED_LENGTH
    \<and> unserialize (bs @ rest) = Some (i, length bs)"
proof -
  obtain bs where "serialize i maxsize = Some bs"
    using serialize_Some_iff assms by (auto simp: MAX_SERIALIZED_LENGTH_def)
  then show ?thesis
    using serialize_length unserialize_serialize by (fastforce simp: MAX_SERIALIZED_LENGTH_def)
qed

text \<open>
  C15: \<open>unserialize\<close> on any input from the network stays inside the bytes it was given, yields a
  value below \<open>2 ^ 30\<close>, refuses only inputs shorter than \<open>MAX_SERIALIZED_LENGTH\<close>, and never
  changes its answer when more bytes arrive.
\<close>

theorem unserialize_total:
  "case unserialize d of
     None \<Rightarrow> length d < MAX_SERIALIZED_LENGTH
   | Some (i, n) \<Rightarrow> i < 1073741824 \<and> 1 \<le> n \<and> n \<le> length d \<and> unserialize (take n d @ e) = Some (i, n)"
proof (cases "unserialize d")
  case None
  then show ?thesis using unserialize_None_short by (simp add: MAX_SERIALIZED_LENGTH_def)
next
  case (Some p)
  obtain i n where p: "p = (i, n)" by (cases p)
  with Some have "unserialize d = Some (i, n)" by simp
  then show ?thesis
    using Some p unserialize_bounds unserialize_append unserialize_take by (auto simp: word_less_nat_alt)
qed

end
