(* ===== verification/Framing.thy ===== *)
theory Framing
  imports Stream_Id
begin

text \<open>
  The packets of the TCP stream protocol: how \<open>TCPStream::send\<close> and
  \<open>ASIOSocketWrapper::constructControlPacket\<close> build them, the header exchanged when a connection
  opens (\<open>copyHeader\<close>), and the abstract reader of a byte stream the read buffer is compared with.
\<close>

section \<open>Framing\<close>

text \<open>
  The header in front of the data of a packet: \<open>TCPStream::send\<close> (\<open>network/TCPStream.cpp\<close>)
  writes the length of what follows, the id of the stream, and the bytes of the chunk. A chunk whose
  size with the id does not fit 30 bits fails the assertion of \<open>uint30\<close>; a size of \<open>2 ^ 32\<close> or
  more is first reduced to the width of \<open>unsigned int\<close>.
\<close>

definition send_packet :: "u32 \<Rightarrow> u8 list \<Rightarrow> u8 list option" where
  "send_packet originStream data =
     (case serialize originStream MAX_SERIALIZED_LENGTH of
        None \<Rightarrow> None
      | Some serializedStreamId \<Rightarrow>
          let totalSize = length data + length serializedStreamId in
          (case uint30_make (of_nat totalSize) of
             None \<Rightarrow> None
           | Some packetLength \<Rightarrow>
               (case serialize packetLength MAX_SERIALIZED_LENGTH of
                  None \<Rightarrow> None
                | Some packetLengthSerialized \<Rightarrow>
                    Some (packetLengthSerialized @ serializedStreamId @ data))))"

text \<open>
  \<open>ASIOSocketWrapper::constructControlPacket\<close> (\<open>network/ASIOSocketWrapper.cpp\<close>) builds a packet
  on stream 0 in a stack array of 24 bytes whose initial contents are \<open>junk\<close>: the payload
  from offset 4 on, then the length right-aligned before it. Writing past the array is None.
\<close>

datatype TCPStreamControlCodes = TCPStreamCloseStream | TCPStreamAckCloseStream

definition control_code :: "TCPStreamControlCodes \<Rightarrow> u8" where
  "control_code c = (case c of TCPStreamCloseStream \<Rightarrow> 1 | TCPStreamAckCloseStream \<Rightarrow> 2)"

definition array_put :: "nat \<Rightarrow> u8 list \<Rightarrow> u8 list \<Rightarrow> u8 list option" where
  "array_put pos bs a =
     (if pos + length bs \<le> length a then Some (take pos a @ bs @ drop (pos + length bs) a) else None)"

definition constructControlPacket :: "u8 list \<Rightarrow> TCPStreamControlCodes \<Rightarrow> u32 \<Rightarrow> u8 list option" where
  "constructControlPacket junk code sid =
     (let max_size = 16; m = MAX_SERIALIZED_LENGTH; dataStream = take (max_size + 2 * m) junk in
      Option.bind (serialize 0 max_size) (\<lambda>ctl.
      Option.bind (array_put m ctl dataStream) (\<lambda>dataStream.
      if \<not> length ctl < max_size then None else
      Option.bind (array_put (m + length ctl) [control_code code] dataStream) (\<lambda>dataStream.
      let cur = m + length ctl + 1 in
      Option.bind (serialize sid (max_size - cur)) (\<lambda>ids.
      Option.bind (array_put cur ids dataStream) (\<lambda>dataStream.
      if \<not> length ids + cur \<le> max_size then None else
      Option.bind (uint30_make (of_nat (length ids + cur - m))) (\<lambda>streamSize.
      Option.bind (serialize streamSize m) (\<lambda>hdr.
      Option.bind (array_put 0 hdr dataStream) (\<lambda>dataStream.
      Option.bind (if length hdr \<noteq> m then array_put (m - length hdr) hdr dataStream else Some dataStream) (\<lambda>dataStream.
      Some (drop (m - length hdr) (take (length ids + cur) dataStream))))))))))))"

text \<open>\<open>copyHeader\<close>: the prefix, two decimal digits of the number of connections, the 16 bytes of the id.\<close>

definition STRING_PREFIX :: "u8 list" where
  "STRING_PREFIX = map (\<lambda>c. of_nat (of_char c)) ''SSTTCP''"

definition TcpSstHeaderSize :: nat where
  "TcpSstHeaderSize = 24"

definition copyHeader :: "u8 list \<Rightarrow> u32 \<Rightarrow> u8 list" where
  "copyHeader key num =
     STRING_PREFIX @ [ucast (48 + num div 10 mod 10), ucast (48 + num mod 10)] @ key"

section \<open>The abstract reader\<close>

text \<open>
  What a byte stream means, independently of how it arrives: a packet is a length, and as many bytes
  as the length says, that start with the id of the stream. A packet too short for an id belongs to
  stream 0 and is empty.
\<close>

definition packet_body :: "u8 list \<Rightarrow> u32 \<times> u8 list" where
  "packet_body body = (case unserialize body of None \<Rightarrow> (0, []) | Some (i, k) \<Rightarrow> (i, drop k body))"

function packets :: "u8 list \<Rightarrow> (u32 \<times> u8 list) list" where
  "packets bs =
     (case unserialize bs of
        None \<Rightarrow> []
      | Some (len, h) \<Rightarrow>
          if length bs < h + unat len then []
          else packet_body (take (unat len) (drop h bs)) # packets (drop (h + unat len) bs))"
  by pat_completeness auto
termination
proof (relation "measure length")
  fix bs len h p
  assume "unserialize bs = Some p" "(len, h) = p" "\<not> length bs < h + unat len"
  then show "(drop (h + unat len) bs, bs) \<in> measure length"
    using unserialize_bounds [of bs len h] by auto
qed simp

declare packets.simps [simp del]

text \<open>The bytes after the last complete packet.\<close>

function remainder :: "u8 list \<Rightarrow> u8 list" where
  "remainder bs =
     (case unserialize bs of
        None \<Rightarrow> bs
      | Some (len, h) \<Rightarrow>
          if length bs < h + unat len then bs else remainder (drop (h + unat len) bs))"
  by pat_completeness auto
termination
proof (relation "measure length")
  fix bs len h p
  assume "unserialize bs = Some p" "(len, h) = p" "\<not> length bs < h + unat len"
  then show "(drop (h + unat len) bs, bs) \<in> measure length"
    using unserialize_bounds [of bs len h] by auto
qed simp

declare remainder.simps [simp del]

text \<open>A complete packet in front, and none.\<close>

definition complete :: "u8 list \<Rightarrow> bool" where
  "complete bs \<longleftrightarrow> (case unserialize bs of None \<Rightarrow> False | Some (len, h) \<Rightarrow> h + unat len \<le> length bs)"

lemma packets_incomplete: "\<not> complete bs \<Longrightarrow> packets bs = [] \<and> remainder bs = bs"
  by (subst packets.simps, subst remainder.simps) (auto simp: complete_def split: option.splits)

lemma packets_complete:
  assumes "unserialize bs = Some (len, h)" "h + unat len \<le> length bs"
  shows "packets bs = packet_body (take (unat len) (drop h bs)) # packets (drop (h + unat len) bs)"
    "remainder bs = remainder (drop (h + unat len) bs)"
  using assms by (subst packets.simps remainder.simps, simp)+

lemma packets_Nil [simp]: "packets [] = []" "remainder [] = []"
  using packets_incomplete [of "[]"] by (simp_all add: complete_def unserialize_def)

text \<open>Reading is incremental: what is left over is read again when more bytes arrive.\<close>

lemma packets_append:
  "packets (bs @ cs) = packets bs @ packets (remainder bs @ cs)
   \<and> remainder (bs @ cs) = remainder (remainder bs @ cs)"
proof (induction bs rule: packets.induct)
  case (1 bs)
  show ?case
  proof (cases "complete bs")
    case False
    then show ?thesis using packets_incomplete [OF False] by simp
  next
    case True
    then obtain len h where u: "unserialize bs = Some (len, h)" and le: "h + unat len \<le> length bs"
      by (auto simp: complete_def split: option.splits)
    have u': "unserialize (bs @ cs) = Some (len, h)" using u by (rule unserialize_append)
    have "take (unat len) (drop h (bs @ cs)) = take (unat len) (drop h bs)"
      "drop (h + unat len) (bs @ cs) = drop (h + unat len) bs @ cs" using le by auto
    then show ?thesis
      using packets_complete [OF u le] packets_complete [OF u'] le 1 [OF u refl] by simp
  qed
qed

lemma remainder_incomplete: "\<not> complete (remainder bs)"
proof (induction bs rule: remainder.induct)
  case (1 bs)
  show ?case
  proof (cases "complete bs")
    case True
    then obtain len h where u: "unserialize bs = Some (len, h)" and le: "h + unat len \<le> length bs"
      by (auto simp: complete_def split: option.splits)
    with 1 [OF u refl] packets_complete(2) [OF u le] show ?thesis by simp
  qed (simp add: packets_incomplete)
qed

section \<open>Sending\<close>

lemma send_packet_Some:
  assumes "send_packet sid data = Some p" "length data < 2 ^ 31"
  obtains ids hdr where "p = hdr @ ids @ data" "serialize sid 4 = Some ids"
    "serialize (of_nat (length data + length ids)) 4 = Some hdr" "length data + length ids < 2 ^ 30"
proof -
  obtain ids where ids: "serialize sid 4 = Some ids"
    using assms(1) by (auto simp: send_packet_def MAX_SERIALIZED_LENGTH_def split: option.splits)
  then have "length ids \<le> 4" using serialize_length by blast
  let ?n = "length data + length ids"
  have un: "unat (of_nat ?n :: u32) = ?n" using \<open>length ids \<le> 4\<close> assms(2) by (intro unat_of_nat_eq) simp
  show thesis
    using assms(1) ids un that
    by (auto simp: send_packet_def MAX_SERIALIZED_LENGTH_def uint30_make_def Let_def word_less_nat_alt
        simp del: of_nat_add split: option.splits if_splits)
qed

lemma packets_send:
  assumes "send_packet sid data = Some p" "length data < 2 ^ 31"
  shows "packets (p @ rest) = (sid, data) # packets rest \<and> remainder (p @ rest) = remainder rest"
proof -
  obtain ids hdr where p: "p = hdr @ ids @ data" and ids: "serialize sid 4 = Some ids"
    and hdr: "serialize (of_nat (length data + length ids)) 4 = Some hdr"
    and n: "length data + length ids < 2 ^ 30"
    using assms by (rule send_packet_Some)
  let ?n = "length data + length ids"
  have un: "unat (of_nat ?n :: u32) = ?n" using n by (intro unat_of_nat_eq) simp
  have u: "unserialize (p @ rest) = Some (of_nat ?n, length hdr)"
    using unserialize_serialize [OF hdr, of "ids @ data @ rest"] by (simp add: p)
  have "packet_body (ids @ data) = (sid, data)"
    using unserialize_serialize [OF ids, of data] by (simp add: packet_body_def)
  then show ?thesis
    using packets_complete [OF u, unfolded un] by (simp add: p)
qed

section \<open>Control packets\<close>

lemma serialize_zero [simp]: "4 \<le> m \<Longrightarrow> serialize 0 m = Some [0]"
  by (simp add: serialize_def MAX_SERIALIZED_LENGTH_def)

lemma serialize_small: "n < 128 \<Longrightarrow> 4 \<le> m \<Longrightarrow> serialize (of_nat n) m = Some [of_nat n]"
proof -
  assume "n < 128" "4 \<le> m"
  then have "unat (of_nat n :: u32) = n" by (intro unat_of_nat_eq) simp
  moreover from this have "(ucast (of_nat n :: u32) :: u8) = of_nat n"
    by (metis \<open>n < 128\<close> unat_ucast8 word_unat_eq_iff unat_of_nat_eq mod_less of_nat_unat
        unsigned_of_nat take_bit_eq_mod)
  ultimately show ?thesis using \<open>n < 128\<close> \<open>4 \<le> m\<close>
    by (simp add: serialize_def MAX_SERIALIZED_LENGTH_def word_less_nat_alt)
qed

lemma serialize_maxsize: "4 \<le> m \<Longrightarrow> 4 \<le> n \<Longrightarrow> serialize i m = serialize i n"
  by (simp add: serialize_def MAX_SERIALIZED_LENGTH_def)

lemma constructControlPacket_packet:
  assumes "sid < 1073741824" and "24 \<le> length junk"
  shows "\<exists>ids p. serialize sid MAX_SERIALIZED_LENGTH = Some ids
    \<and> constructControlPacket junk code sid = Some p
    \<and> send_packet 0 (control_code code # ids) = Some p"
proof -
  obtain ids where ids: "serialize sid 4 = Some ids"
    using serialize_Some_iff assms(1) by blast
  have len: "1 \<le> length ids" "length ids \<le> 4" using serialize_length [OF ids] by simp_all
  have hdr: "serialize (of_nat (length ids + 2)) 4 = Some [of_nat (length ids + 2)]"
    using len by (intro serialize_small) simp_all
  have mk: "uint30_make (of_nat (length ids + 2)) = Some (of_nat (length ids + 2))"
  proof -
    have "unat (of_nat (length ids + 2) :: u32) = length ids + 2" using len by (intro unat_of_nat_eq) simp
    then show ?thesis using len by (simp add: uint30_make_def word_less_nat_alt del: of_nat_add)
  qed
  have ids10: "serialize sid 10 = Some ids" using ids serialize_maxsize [of 10 4] by simp
  let ?p = "of_nat (length ids + 2) # 0 # control_code code # ids"
  have "send_packet 0 (control_code code # ids) = Some ?p"
    using hdr mk by (simp add: send_packet_def MAX_SERIALIZED_LENGTH_def Let_def add.commute
        numeral_2_eq_2 del: of_nat_add of_nat_Suc)
  moreover have "constructControlPacket junk code sid = Some ?p"
    using assms(2) ids10 hdr mk len
    by (simp add: constructControlPacket_def MAX_SERIALIZED_LENGTH_def array_put_def Let_def
        add.commute numeral_eq_Suc del: of_nat_add of_nat_Suc)
  ultimately show ?thesis using ids by (auto simp: MAX_SERIALIZED_LENGTH_def)
qed

text \<open>
  the control packet that closes or acknowledges the closing of a stream is the packet on stream 0
  whose data are the control code and the id of the stream, whatever the uninitialised array it is
  built in held, and no write leaves that array.
\<close>

lemma constructControlPacket_is_packet:
  assumes "sid < 1073741824" and "24 \<le> length junk"
  shows "\<exists>ids p. serialize sid MAX_SERIALIZED_LENGTH = Some ids
    \<and> constructControlPacket junk code sid = Some p
    \<and> send_packet 0 (control_code code # ids) = Some p"
  using assms by (rule constructControlPacket_packet)

end
