(* ===== verification/Read_Buffer.thy ===== *)
theory Read_Buffer
  imports Framing
begin

text \<open>
  The reader of one TCP socket (\<open>network/ASIOReadBuffer.cpp\<close>): small packets are cut out of a fixed
  buffer, a large one is received directly into its chunk.

  \<open>async_receive\<close> of the I/O library is the environment: it is handed the part of the buffer after
  \<open>mBufferPos\<close>, stores at least one and at most that many bytes there and calls the handler. The
  field \<open>mPending\<close> names the outstanding request. Positions are naturals: the lemmas show they stay
  below the buffer's length or the length of a packet, so the 32 bit arithmetic of the source does
  not wrap. A failed \<open>assert\<close> is None. The calls of \<open>processFullChunk\<close> are returned in order.
\<close>

section \<open>State and handlers\<close>

datatype pending = IntoFixedBuffer | IntoChunk

record read_buffer =
  mBuffer :: "u8 list"
  mBufferPos :: nat
  mNewChunk :: "u8 list"
  mNewChunkID :: u32
  mPending :: pending

type_synonym packet = "u32 \<times> u8 list"

definition sLowWaterMark :: nat where "sLowWaterMark = 256"
definition sBufferLength :: nat where "sBufferLength = 1440"

text \<open>The constructor; \<open>junk\<close> is the uninitialised array.\<close>

definition ASIOReadBuffer_init :: "u8 list \<Rightarrow> read_buffer" where
  "ASIOReadBuffer_init junk =
     \<lparr>mBuffer = take sBufferLength junk, mBufferPos = 0, mNewChunk = [], mNewChunkID = 0,
      mPending = IntoFixedBuffer\<rparr>"

definition readIntoFixedBuffer :: "read_buffer \<Rightarrow> read_buffer" where
  "readIntoFixedBuffer s = s\<lparr>mPending := IntoFixedBuffer\<rparr>"

definition readIntoChunk :: "read_buffer \<Rightarrow> read_buffer option" where
  "readIntoChunk s =
     (if 0 < length (mNewChunk s) \<and> mBufferPos s < length (mNewChunk s)
      then Some (s\<lparr>mPending := IntoChunk\<rparr>) else None)"

text \<open>
  \<open>processPartialChunk\<close>: \<open>dataBuffer\<close> holds the \<open>bufferReceived\<close> readable bytes. Returns the id,
  the updated \<open>bufferReceived\<close> and the chunk, of zeros beyond the bytes copied. The bytes are copied
  only when the chunk is not empty, and copying more than the chunk holds is None.
\<close>

definition processPartialChunk :: "u8 list \<Rightarrow> nat \<Rightarrow> (u32 \<times> nat \<times> u8 list) option" where
  "processPartialChunk dataBuffer packetLength =
     (let (retid, headerLength) =
            (case unserialize dataBuffer of None \<Rightarrow> (0, length dataBuffer) | Some (i, n) \<Rightarrow> (i, n));
          bufferReceived = length dataBuffer - headerLength
      in if \<not> headerLength \<le> length dataBuffer then None
         else if \<not> headerLength \<le> packetLength then None
         else if headerLength < packetLength then
           if packetLength - headerLength < bufferReceived then None
           else Some (retid, bufferReceived,
             drop headerLength dataBuffer @ replicate (packetLength - headerLength - bufferReceived) 0)
         else Some (retid, bufferReceived, []))"

text \<open>
  The loop of \<open>translateBuffer\<close>: either it leaves the rest of the buffer for later, with the
  position the loop stopped at, or it switches to receiving into a chunk.
\<close>

datatype translated = Move nat | Chunk read_buffer

function (sequential) translate_loop :: "nat \<Rightarrow> read_buffer \<Rightarrow> (translated \<times> packet list) option" where
  "translate_loop chunkPos s =
     (let avail = mBufferPos s - chunkPos; bytes = take avail (drop chunkPos (mBuffer s)) in
      if avail = 0 then Some (Move chunkPos, [])
      else case unserialize bytes of
        None \<Rightarrow> Some (Move chunkPos, [])
      | Some (packetLength, packetHeaderLength) \<Rightarrow>
          if avail < unat packetLength + packetHeaderLength then
            if avail < sLowWaterMark then Some (Move chunkPos, [])
            else if mNewChunk s \<noteq> [] then None
            else case processPartialChunk (drop packetHeaderLength bytes) (unat packetLength) of
                   None \<Rightarrow> None
                 | Some (retid, received, chunk) \<Rightarrow>
                     (case readIntoChunk (s\<lparr>mBufferPos := received, mNewChunk := chunk, mNewChunkID := retid\<rparr>) of
                        None \<Rightarrow> None
                      | Some s \<Rightarrow> Some (Chunk s, []))
          else case processPartialChunk (take (unat packetLength) (drop packetHeaderLength bytes)) (unat packetLength) of
                 None \<Rightarrow> None
               | Some (resultID, _, resultChunk) \<Rightarrow>
                   (case translate_loop (chunkPos + packetHeaderLength + unat packetLength) s of
                      None \<Rightarrow> None
                    | Some (t, out) \<Rightarrow> Some (t, (resultID, resultChunk) # out)))"
  by pat_completeness auto
termination
proof (relation "measure (\<lambda>(chunkPos, s). mBufferPos s - chunkPos)", goal_cases)
  case (2 chunkPos s avail bytes p packetLength packetHeaderLength)
  then show ?case
    using unserialize_bounds [of bytes packetLength packetHeaderLength] by auto
qed simp

declare translate_loop.simps [simp del]

text \<open>\<open>memmove\<close> within the buffer, then the remaining bytes are requested.\<close>

definition translateBuffer :: "read_buffer \<Rightarrow> (read_buffer \<times> packet list) option" where
  "translateBuffer s =
     (case translate_loop 0 s of
        None \<Rightarrow> None
      | Some (Chunk s, out) \<Rightarrow> Some (s, out)
      | Some (Move chunkPos, out) \<Rightarrow>
          let n = mBufferPos s - chunkPos;
              s = (if chunkPos \<noteq> 0 \<and> mBufferPos s \<noteq> chunkPos
                   then s\<lparr>mBuffer := take n (drop chunkPos (mBuffer s)) @ drop n (mBuffer s)\<rparr> else s)
          in Some (readIntoFixedBuffer (s\<lparr>mBufferPos := mBufferPos s - chunkPos\<rparr>), out))"

text \<open>
  The handlers. \<open>alive\<close> says whether the weak pointer to the multiplexed socket still locks. The
  object is deleted on an error, which is reported to the socket, and when the socket is gone.
\<close>

datatype rb_result = Reading read_buffer "packet list" | Disconnected_report | Deleted

definition reading :: "(read_buffer \<times> packet list) option \<Rightarrow> rb_result option" where
  "reading r = map_option (\<lambda>(s, out). Reading s out) r"

definition asioReadIntoChunk :: "bool \<Rightarrow> bool \<Rightarrow> nat \<Rightarrow> read_buffer \<Rightarrow> rb_result option" where
  "asioReadIntoChunk alive err bytes_read s =
     (let s = s\<lparr>mBufferPos := mBufferPos s + bytes_read\<rparr> in
      if \<not> alive then Some Deleted
      else if err then Some Disconnected_report
      else if length (mNewChunk s) \<le> mBufferPos s then
        if mBufferPos s \<noteq> length (mNewChunk s) then None
        else Some (Reading (readIntoFixedBuffer (s\<lparr>mNewChunk := [], mBufferPos := 0\<rparr>))
          [(mNewChunkID s, mNewChunk s)])
      else reading (map_option (\<lambda>s. (s, [])) (readIntoChunk s)))"

definition asioReadIntoFixedBuffer :: "bool \<Rightarrow> bool \<Rightarrow> nat \<Rightarrow> read_buffer \<Rightarrow> rb_result option" where
  "asioReadIntoFixedBuffer alive err bytes_read s =
     (let s = s\<lparr>mBufferPos := mBufferPos s + bytes_read\<rparr> in
      if \<not> alive then Some Deleted
      else if err then Some Disconnected_report
      else reading (translateBuffer s))"

section \<open>The environment\<close>

text \<open>The room of the outstanding request, and its completion with some bytes.\<close>

definition room :: "read_buffer \<Rightarrow> nat" where
  "room s = (case mPending s of
     IntoFixedBuffer \<Rightarrow> length (mBuffer s) - mBufferPos s
   | IntoChunk \<Rightarrow> length (mNewChunk s) - mBufferPos s)"

definition receive_complete :: "bool \<Rightarrow> bool \<Rightarrow> u8 list \<Rightarrow> read_buffer \<Rightarrow> rb_result option" where
  "receive_complete alive err bs s =
     (case mPending s of
        IntoFixedBuffer \<Rightarrow>
          asioReadIntoFixedBuffer alive err (length bs) (s\<lparr>mBuffer := overwrite (mBufferPos s) bs (mBuffer s)\<rparr>)
      | IntoChunk \<Rightarrow>
          asioReadIntoChunk alive err (length bs) (s\<lparr>mNewChunk := overwrite (mBufferPos s) bs (mNewChunk s)\<rparr>))"

text \<open>
  A byte stream arrives in segments: the sizes \<open>ns\<close> are the environment's choice, each cut down to
  the room of the outstanding request. The result is the state, the packets delivered and the bytes
  that did not arrive yet.
\<close>

definition segment :: "nat \<Rightarrow> u8 list \<Rightarrow> read_buffer \<Rightarrow> nat" where
  "segment n bs s = min (length bs) (min (max 1 n) (room s))"

fun feed :: "nat list \<Rightarrow> u8 list \<Rightarrow> read_buffer \<Rightarrow> (read_buffer \<times> packet list \<times> u8 list) option" where
  "feed [] bs s = Some (s, [], bs)"
| "feed (n # ns) bs s =
     (if bs = [] then Some (s, [], [])
      else let k = segment n bs s in
        case receive_complete True False (take k bs) s of
          Some (Reading s out) \<Rightarrow>
            map_option (\<lambda>(s', out', rest). (s', out @ out', rest)) (feed ns (drop k bs) s)
        | _ \<Rightarrow> None)"

section \<open>Simulation of the abstract reader\<close>

text \<open>
  The state of the read buffer stands for the bytes \<open>bs\<close> received after the last complete packet:
  they are in the fixed buffer, or they are the header and the first bytes of a packet whose data
  is in the chunk.
\<close>

definition fixed_sim :: "read_buffer \<Rightarrow> u8 list \<Rightarrow> bool" where
  "fixed_sim s bs \<longleftrightarrow> mPending s = IntoFixedBuffer \<and> length (mBuffer s) = sBufferLength
     \<and> mBufferPos s = length bs \<and> take (length bs) (mBuffer s) = bs \<and> length bs < sLowWaterMark
     \<and> mNewChunk s = [] \<and> \<not> complete bs"

definition chunk_sim :: "read_buffer \<Rightarrow> u8 list \<Rightarrow> bool" where
  "chunk_sim s bs \<longleftrightarrow> mPending s = IntoChunk \<and> length (mBuffer s) = sBufferLength
     \<and> (\<exists>len h k. unserialize bs = Some (len, h)
         \<and> unserialize (drop h bs) = Some (mNewChunkID s, k)
         \<and> length bs < h + unat len \<and> k + length (mNewChunk s) = unat len
         \<and> length bs = h + k + mBufferPos s \<and> take (mBufferPos s) (mNewChunk s) = drop (h + k) bs)"

definition rb_sim :: "read_buffer \<Rightarrow> u8 list \<Rightarrow> bool" where
  "rb_sim s bs \<longleftrightarrow> fixed_sim s bs \<or> chunk_sim s bs"

lemma rb_sim_incomplete: "rb_sim s bs \<Longrightarrow> \<not> complete bs"
  by (auto simp: rb_sim_def fixed_sim_def chunk_sim_def complete_def)

lemma rb_sim_room:
  assumes "rb_sim s bs"
  shows "0 < room s"
  using assms
  by (auto simp: rb_sim_def fixed_sim_def chunk_sim_def room_def sBufferLength_def sLowWaterMark_def)

text \<open>Cutting a complete packet: the chunk is the body without the id.\<close>

lemma processPartialChunk_full:
  "\<exists>r. processPartialChunk body (length body) = Some (fst (packet_body body), r, snd (packet_body body))"
proof (cases "unserialize body")
  case None
  then show ?thesis by (simp add: processPartialChunk_def packet_body_def)
next
  case (Some p)
  obtain i n where "p = (i, n)" by (cases p)
  with Some show ?thesis
    using unserialize_bounds [of body i n] by (auto simp: processPartialChunk_def packet_body_def Let_def)
qed

lemma processPartialChunk_partial:
  assumes "unserialize body = Some (i, k)" "length body < len"
  shows "processPartialChunk body len =
    Some (i, length body - k, drop k body @ replicate (len - length body) 0)"
  using assms unserialize_bounds [OF assms(1)] by (simp add: processPartialChunk_def Let_def)

definition bytes_from :: "nat \<Rightarrow> read_buffer \<Rightarrow> u8 list" where
  "bytes_from c s = take (mBufferPos s - c) (drop c (mBuffer s))"

definition translated_ok :: "read_buffer \<Rightarrow> u8 list \<Rightarrow> translated \<Rightarrow> bool" where
  "translated_ok s bs t = (case t of
     Move c \<Rightarrow> c \<le> mBufferPos s \<and> bytes_from c s = bs \<and> length bs < sLowWaterMark
   | Chunk s' \<Rightarrow> chunk_sim s' bs)"

lemma translate_loop_ok:
  assumes "length (mBuffer s) = sBufferLength" "mBufferPos s \<le> sBufferLength" "mNewChunk s = []"
    "c \<le> mBufferPos s"
  shows "\<exists>t. translate_loop c s = Some (t, packets (bytes_from c s))
    \<and> translated_ok s (remainder (bytes_from c s)) t"
  using assms
proof (induction c s rule: translate_loop.induct)
  case (1 c s)
  let ?b = "bytes_from c s"
  have len: "length ?b = mBufferPos s - c" using 1(2,3,5) by (simp add: bytes_from_def)
  show ?case
  proof (cases "unserialize ?b")
    case None
    then have "packets ?b = []" "remainder ?b = ?b" "length ?b < 4"
      using packets_incomplete [of ?b] unserialize_None_short by (auto simp: complete_def)
    moreover have "translate_loop c s = Some (Move c, [])"
      using None by (subst translate_loop.simps) (simp add: bytes_from_def Let_def)
    ultimately show ?thesis using 1(5) by (simp add: translated_ok_def sLowWaterMark_def)
  next
    case (Some p)
    obtain l h where "p = (l, h)" by (cases p)
    with Some have u: "unserialize ?b = Some (l, h)" by simp
    have h: "1 \<le> h" "h \<le> 4" "h \<le> length ?b" using unserialize_bounds [OF u] by auto
    have ne: "mBufferPos s - c \<noteq> 0" using h len by auto
    show ?thesis
    proof (cases "length ?b < h + unat l")
      case True
      then have inc: "packets ?b = []" "remainder ?b = ?b"
        using u packets_incomplete [of ?b] by (auto simp: complete_def)
      show ?thesis
      proof (cases "length ?b < sLowWaterMark")
        case low: True
        then have "translate_loop c s = Some (Move c, [])"
          using u True len ne by (subst translate_loop.simps) (simp add: bytes_from_def add.commute)
        with inc low 1(5) show ?thesis by (simp add: translated_ok_def)
      next
        case high: False
        obtain i k where uk: "unserialize (drop h ?b) = Some (i, k)"
        proof (cases "unserialize (drop h ?b)")
          case None
          then have "length (drop h ?b) < 4" by (rule unserialize_None_short)
          with high h show ?thesis by (simp add: sLowWaterMark_def)
        qed auto
        have k: "k \<le> length (drop h ?b)" using unserialize_bounds [OF uk] by blast
        have body: "length (drop h ?b) < unat l" using True h by simp
        let ?chunk = "drop k (drop h ?b) @ replicate (unat l - length (drop h ?b)) 0"
        let ?s = "s\<lparr>mBufferPos := length (drop h ?b) - k, mNewChunk := ?chunk, mNewChunkID := i, mPending := IntoChunk\<rparr>"
        have rd: "readIntoChunk (s\<lparr>mBufferPos := length (drop h ?b) - k, mNewChunk := ?chunk, mNewChunkID := i\<rparr>) = Some ?s"
          using body k by (simp add: readIntoChunk_def)
        have "translate_loop c s = Some (Chunk ?s, [])"
          using u True high len ne 1(4) rd processPartialChunk_partial [OF uk body]
          by (subst translate_loop.simps) (simp add: bytes_from_def [symmetric] add.commute)
        moreover have "chunk_sim ?s ?b"
          unfolding chunk_sim_def using 1(2) u uk True body k h
          by (auto simp: add.commute intro!: exI [of _ l] exI [of _ h] exI [of _ k])
        ultimately show ?thesis using inc by (simp add: translated_ok_def)
      qed
    next
      case False
      let ?body = "take (unat l) (drop h ?b)"
      let ?c = "c + h + unat l"
      have le: "h + unat l \<le> length ?b" using False by simp
      have lb: "length ?body = unat l" using le by simp
      have bc: "bytes_from ?c s = drop (h + unat l) ?b"
        using le len by (simp add: bytes_from_def drop_take add.commute add.left_commute diff_diff_add)
      obtain r where pc: "processPartialChunk ?body (unat l) = Some (fst (packet_body ?body), r, snd (packet_body ?body))"
        using processPartialChunk_full [of ?body] unfolding lb by blast
      have c': "?c \<le> mBufferPos s" using le len 1(5) by linarith
      obtain t where t: "translate_loop ?c s = Some (t, packets (bytes_from ?c s))"
        "translated_ok s (remainder (bytes_from ?c s)) t"
        using 1(1) [OF refl refl ne u [unfolded bytes_from_def] refl] le len 1(2-5) pc c'
        by (simp add: bytes_from_def [symmetric]) blast
      have "translate_loop c s = Some (t, packet_body ?body # packets (bytes_from ?c s))"
        using u len ne le pc t(1)
        by (subst translate_loop.simps) (simp add: bytes_from_def [symmetric] not_less add.commute)
      with t(2) packets_complete [OF u le] show ?thesis by (simp add: bc)
    qed
  qed
qed

lemma translateBuffer_ok:
  assumes "length (mBuffer s) = sBufferLength" "mBufferPos s \<le> sBufferLength" "mNewChunk s = []"
  shows "\<exists>s'. translateBuffer s = Some (s', packets (bytes_from 0 s)) \<and> rb_sim s' (remainder (bytes_from 0 s))"
proof -
  obtain t where t: "translate_loop 0 s = Some (t, packets (bytes_from 0 s))"
    "translated_ok s (remainder (bytes_from 0 s)) t"
    using translate_loop_ok [OF assms, of 0] by auto
  show ?thesis
  proof (cases t)
    case (Chunk s')
    with t show ?thesis by (simp add: translateBuffer_def translated_ok_def rb_sim_def)
  next
    case (Move c)
    let ?r = "remainder (bytes_from 0 s)"
    let ?n = "mBufferPos s - c"
    have c: "c \<le> mBufferPos s" "take ?n (drop c (mBuffer s)) = ?r" "length ?r < sLowWaterMark"
      using t(2) Move by (auto simp: translated_ok_def bytes_from_def)
    have n: "length ?r = ?n" using c(1,2) assms(1,2) by (metis (no_types) add_diff_cancel_left' diff_le_mono length_drop length_take min.absorb2)
    have inc: "\<not> complete ?r" by (rule remainder_incomplete)
    show ?thesis
      using t(1) Move c n inc assms
      by (auto simp: translateBuffer_def Let_def rb_sim_def fixed_sim_def readIntoFixedBuffer_def)
  qed
qed

lemma receive_fixed_ok:
  assumes "fixed_sim s bs" "length xs \<le> room s"
  shows "\<exists>s'. receive_complete True False xs s = Some (Reading s' (packets (bs @ xs))) \<and> rb_sim s' (remainder (bs @ xs))"
proof -
  have r: "mBufferPos s + length xs \<le> length (mBuffer s)"
    using assms by (auto simp: fixed_sim_def room_def sLowWaterMark_def sBufferLength_def)
  let ?s = "s\<lparr>mBuffer := overwrite (mBufferPos s) xs (mBuffer s), mBufferPos := mBufferPos s + length xs\<rparr>"
  have "bytes_from 0 ?s = bs @ xs"
    using assms(1) overwrite_take [OF r] by (simp add: bytes_from_def fixed_sim_def)
  with translateBuffer_ok [of ?s] assms(1) r show ?thesis
    by (auto simp: receive_complete_def fixed_sim_def asioReadIntoFixedBuffer_def reading_def)
qed

lemma receive_chunk_ok:
  assumes "chunk_sim s bs" "length xs \<le> room s"
  shows "\<exists>s'. receive_complete True False xs s = Some (Reading s' (packets (bs @ xs))) \<and> rb_sim s' (remainder (bs @ xs))"
proof -
  obtain len h k where u: "unserialize bs = Some (len, h)" and uk: "unserialize (drop h bs) = Some (mNewChunkID s, k)"
    and lt: "length bs < h + unat len" and kl: "k + length (mNewChunk s) = unat len"
    and lb: "length bs = h + k + mBufferPos s" and ch: "take (mBufferPos s) (mNewChunk s) = drop (h + k) bs"
    and p: "mPending s = IntoChunk" "length (mBuffer s) = sBufferLength"
    using assms(1) by (auto simp: chunk_sim_def)
  let ?c = "overwrite (mBufferPos s) xs (mNewChunk s)"
  let ?s = "s\<lparr>mNewChunk := ?c, mBufferPos := mBufferPos s + length xs\<rparr>"
  have r: "mBufferPos s + length xs \<le> length (mNewChunk s)"
    using assms(2) p lt kl lb by (simp add: room_def)
  have tk: "take (mBufferPos s + length xs) ?c = drop (h + k) (bs @ xs)"
    using overwrite_take [OF r] ch lb by simp
  have u': "unserialize (bs @ xs) = Some (len, h)" using u by (rule unserialize_append)
  have uk': "unserialize (drop h (bs @ xs)) = Some (mNewChunkID s, k)"
    using unserialize_append [OF uk, of xs] lb by simp
  show ?thesis
  proof (cases "mBufferPos s + length xs = length (mNewChunk s)")
    case True
    then have full: "length (bs @ xs) = h + unat len" using lb kl by simp
    then have "take (unat len) (drop h (bs @ xs)) = drop h (bs @ xs)" by simp
    then have "packet_body (take (unat len) (drop h (bs @ xs))) = (mNewChunkID s, drop (h + k) (bs @ xs))"
      using uk' by (simp add: packet_body_def add.commute del: drop_append take_append)
    moreover have "drop (h + k) (bs @ xs) = ?c" using tk True r by simp
    ultimately have "packets (bs @ xs) = [(mNewChunkID s, ?c)]" "remainder (bs @ xs) = []"
      using packets_complete [OF u'] full by simp_all
    then show ?thesis using True r p
      by (simp add: receive_complete_def asioReadIntoChunk_def rb_sim_def fixed_sim_def readIntoFixedBuffer_def
          sLowWaterMark_def complete_def unserialize_def)
  next
    case False
    then have lt': "length (bs @ xs) < h + unat len" using r lb kl by simp
    then have "packets (bs @ xs) = []" "remainder (bs @ xs) = bs @ xs"
      using packets_incomplete [of "bs @ xs"] u' by (auto simp: complete_def)
    moreover have "chunk_sim (?s\<lparr>mPending := IntoChunk\<rparr>) (bs @ xs)"
      unfolding chunk_sim_def using u' uk' lt' kl lb tk r p
      by (auto simp del: drop_append take_append intro!: exI [of _ len] exI [of _ h] exI [of _ k])
    ultimately show ?thesis using False r p
      by (auto simp: receive_complete_def asioReadIntoChunk_def rb_sim_def reading_def readIntoChunk_def Let_def)
  qed
qed

lemma receive_complete_ok:
  assumes "rb_sim s bs" "length xs \<le> room s"
  shows "\<exists>s'. receive_complete True False xs s = Some (Reading s' (packets (bs @ xs))) \<and> rb_sim s' (remainder (bs @ xs))"
  using assms receive_fixed_ok receive_chunk_ok unfolding rb_sim_def by blast

lemma feed_ok:
  assumes "rb_sim s bs"
  shows "\<exists>s' got rest. feed ns xs s = Some (s', packets (bs @ got), rest) \<and> xs = got @ rest
    \<and> rb_sim s' (remainder (bs @ got)) \<and> min (length ns) (length xs) \<le> length got"
  using assms
proof (induction ns arbitrary: xs s bs)
  case Nil
  then show ?case using packets_incomplete [OF rb_sim_incomplete [OF Nil]] by auto
next
  case (Cons n ns)
  show ?case
  proof (cases "xs = []")
    case True
    then show ?thesis
      using packets_incomplete [OF rb_sim_incomplete [OF Cons.prems]] Cons.prems by auto
  next
    case False
    let ?k = "segment n xs s"
    have k: "1 \<le> ?k" "?k \<le> length xs" "length (take ?k xs) \<le> room s"
      using False rb_sim_room [OF Cons.prems] by (auto simp: segment_def Suc_le_eq)
    obtain s1 where s1: "receive_complete True False (take ?k xs) s = Some (Reading s1 (packets (bs @ take ?k xs)))"
        "rb_sim s1 (remainder (bs @ take ?k xs))"
      using receive_complete_ok [OF Cons.prems k(3)] by auto
    let ?r = "remainder (bs @ take ?k xs)"
    obtain s' got rest where f: "feed ns (drop ?k xs) s1 = Some (s', packets (?r @ got), rest)"
        "drop ?k xs = got @ rest" "rb_sim s' (remainder (?r @ got))"
        "min (length ns) (length (drop ?k xs)) \<le> length got"
      using Cons.IH [OF s1(2)] by blast
    have "feed (n # ns) xs s = Some (s', packets (bs @ take ?k xs @ got), rest)"
      using False s1(1) f(1) packets_append [of "bs @ take ?k xs" got] by (simp add: Let_def)
    moreover have "xs = (take ?k xs @ got) @ rest" using f(2) by (metis append_take_drop_id append.assoc)
    moreover have "rb_sim s' (remainder (bs @ take ?k xs @ got))"
      using f(3) packets_append [of "bs @ take ?k xs" got] by simp
    moreover have "min (length (n # ns)) (length xs) \<le> length (take ?k xs @ got)"
      using f(4) k by auto
    ultimately show ?thesis by blast
  qed
qed

lemma rb_init_sim: "sBufferLength \<le> length junk \<Longrightarrow> rb_sim (ASIOReadBuffer_init junk) []"
  by (simp add: rb_sim_def fixed_sim_def ASIOReadBuffer_init_def sLowWaterMark_def complete_def unserialize_def)

lemma read_buffer_ok:
  assumes "sBufferLength \<le> length junk" "length bs \<le> length ns"
  shows "\<exists>s. feed ns bs (ASIOReadBuffer_init junk) = Some (s, packets bs, []) \<and> rb_sim s (remainder bs)"
proof -
  obtain s' got rest where "feed ns bs (ASIOReadBuffer_init junk) = Some (s', packets ([] @ got), rest)"
      "bs = got @ rest" "rb_sim s' (remainder ([] @ got))" "min (length ns) (length bs) \<le> length got"
    using feed_ok [OF rb_init_sim [OF assms(1)]] by blast
  moreover from this have "rest = []" using assms(2) by auto
  ultimately show ?thesis by auto
qed

section \<open>Properties\<close>

text \<open>
  C12: reading does not depend on how the network cuts the stream. However the bytes arrive, no
  assertion fails, no request for an empty buffer is made, every segment makes progress, and after
  as many segments as bytes exactly the complete packets of the stream have been delivered, in order,
  while the state still stands for the bytes of the last incomplete one.
\<close>

theorem read_buffer_refines_packets:
  assumes "sBufferLength \<le> length junk" and "length bs \<le> length ns"
  shows "\<exists>s. feed ns bs (ASIOReadBuffer_init junk) = Some (s, packets bs, [])
    \<and> rb_sim s (remainder bs) \<and> 0 < room s"
  using read_buffer_ok [OF assms] rb_sim_room by blast

theorem read_buffer_refines_packets_witness:
  "\<exists>s. feed [2, 1, 5, 1] [2, 7, 65, 200] (ASIOReadBuffer_init (replicate 1440 0)) = Some (s, packets [2, 7, 65, 200], [])
    \<and> rb_sim s (remainder [2, 7, 65, 200]) \<and> 0 < room s"
  by (rule read_buffer_refines_packets) (simp_all add: sBufferLength_def)

text \<open>
  C1: what one side sends the other side receives. If the packets built for a list of sends on any
  streams travel over one socket, the read buffer delivers exactly those sends, in order, however the
  bytes are cut, and is left with nothing pending.
\<close>

theorem sent_is_received:
  assumes "sBufferLength \<le> length junk" and "list_all (\<lambda>(sid, data). length data < 2 ^ 31) msgs"
    and "list_all2 (\<lambda>(sid, data) p. send_packet sid data = Some p) msgs ps"
    and "length (concat ps) \<le> length ns"
  shows "\<exists>s. feed ns (concat ps) (ASIOReadBuffer_init junk) = Some (s, msgs, []) \<and> rb_sim s []"
proof -
  have "packets (concat ps) = msgs \<and> remainder (concat ps) = []"
    using assms(3,2)
  proof (induction rule: list_all2_induct)
    case (Cons m ms p ps)
    then show ?case using packets_send [of "fst m" "snd m" p "concat ps"] by (cases m) simp
  qed simp
  moreover obtain s where "feed ns (concat ps) (ASIOReadBuffer_init junk) = Some (s, packets (concat ps), [])"
      "rb_sim s (remainder (concat ps))"
    using read_buffer_ok [OF assms(1,4)] by blast
  ultimately show ?thesis by auto
qed

theorem sent_is_received_witness:
  "\<exists>ps. list_all2 (\<lambda>(sid, data) p. send_packet sid data = Some p) [(1, [65, 66]), (0, [1, 3])] ps
    \<and> (\<exists>s. feed (replicate 8 3) (concat ps) (ASIOReadBuffer_init (replicate 1440 0))
          = Some (s, [(1, [65, 66]), (0, [1, 3])], []) \<and> rb_sim s [])"
proof -
  have "list_all2 (\<lambda>(sid, data) p. send_packet sid data = Some p) [(1, [65, 66]), (0, [1, 3])]
      [[3, 1, 65, 66], [3, 0, 1, 3]]"
    by (simp add: send_packet_def serialize_def MAX_SERIALIZED_LENGTH_def uint30_make_def)
  moreover from this have "\<exists>s. feed (replicate 8 3) (concat [[3, 1, 65, 66], [3, 0, 1, 3]])
      (ASIOReadBuffer_init (replicate 1440 0)) = Some (s, [(1, [65, 66]), (0, [1, 3])], []) \<and> rb_sim s []"
    by (intro sent_is_received) (simp_all add: sBufferLength_def)
  ultimately show ?thesis by blast
qed

end
