(* ===== verification/Socket_Wrapper.thy ===== *)
theory Socket_Wrapper
  imports Framing "HOL-Library.Multiset" "HOL-Library.Sublist"
begin

text \<open>
  The sender of one TCP socket (\<open>network/ASIOSocketWrapper.cpp\<close>). Any thread may call \<open>rawSend\<close>;
  a counter with two flag bits decides which thread owns the socket, the others leave their chunk in a
  queue. The first part models what the owner does with the chunks: which bytes each call of
  \<open>async_send\<close> is given and what its completion handler does. The second part models the protocol
  on \<open>mSendingStatus\<close> as steps of interleaved threads.
\<close>

section \<open>Writing chunks to the wire\<close>

type_synonym chunk = "u8 list"

definition PACKET_BUFFER_SIZE :: nat where "PACKET_BUFFER_SIZE = 1400"

text \<open>
  The outstanding \<open>async_send\<close>, by its completion handler and the arguments bound to it. Of the
  static buffer only the bytes still to be sent are kept.
\<close>

datatype send_job =
    LargeChunk chunk nat
  | LargeDeque "chunk list" nat
  | StaticBuffer "chunk list" "u8 list" nat

text \<open>
  The copying loop of \<open>sendToWire\<close>: whole chunks are copied while they fit, then a part of the
  next one, whose offset is returned.
\<close>

fun fill_buffer :: "u8 list \<Rightarrow> chunk list \<Rightarrow> u8 list \<times> chunk list \<times> nat" where
  "fill_buffer buf [] = (buf, [], 0)"
| "fill_buffer buf (c # toSend) =
     (if length buf < PACKET_BUFFER_SIZE then
        if PACKET_BUFFER_SIZE - length buf < length c
        then (buf @ take (PACKET_BUFFER_SIZE - length buf) c, c # toSend, PACKET_BUFFER_SIZE - length buf)
        else fill_buffer (buf @ c) toSend
      else (buf, c # toSend, 0))"

definition sendToWire_chunk :: "chunk \<Rightarrow> nat \<Rightarrow> send_job" where
  "sendToWire_chunk toSend bytesSent = LargeChunk toSend bytesSent"

text \<open>None: no send is started, which is what the source does for an empty front chunk.\<close>

definition sendToWire :: "chunk list \<Rightarrow> nat \<Rightarrow> send_job option" where
  "sendToWire toSend bytesSent =
     (case toSend of
        [] \<Rightarrow> None
      | front # rest \<Rightarrow>
          if PACKET_BUFFER_SIZE < length front - bytesSent \<or> rest = []
          then Some (LargeDeque toSend bytesSent)
          else if front \<noteq> [] then
            let (buf, rest, offs) = fill_buffer (drop bytesSent front) rest
            in Some (StaticBuffer rest buf offs)
          else None)"

text \<open>The choice between the two overloads by the number of chunks.\<close>

definition send_some :: "chunk list \<Rightarrow> nat \<Rightarrow> send_job option" where
  "send_some toSend offs =
     (if length toSend = 1 then Some (sendToWire_chunk (hd toSend) offs) else sendToWire toSend offs)"

text \<open>
  The completion handlers after \<open>bytes_sent\<close> bytes without error: the next send, the end of the
  chunks (\<open>finishAsyncSend\<close> is called), or no send although chunks remain.
\<close>

datatype sent = Next send_job | Finished | Stuck

definition next_job :: "send_job option \<Rightarrow> sent" where
  "next_job j = (case j of None \<Rightarrow> Stuck | Some j \<Rightarrow> Next j)"

definition sendLargeChunkItem :: "chunk \<Rightarrow> nat \<Rightarrow> nat \<Rightarrow> sent" where
  "sendLargeChunkItem toSend originalOffset bytes_sent =
     (if bytes_sent + originalOffset \<noteq> length toSend
      then Next (sendToWire_chunk toSend (originalOffset + bytes_sent)) else Finished)"

definition sendLargeDequeItem :: "chunk list \<Rightarrow> nat \<Rightarrow> nat \<Rightarrow> sent" where
  "sendLargeDequeItem toSend originalOffset bytes_sent =
     (if bytes_sent + originalOffset \<noteq> length (hd toSend)
      then next_job (sendToWire toSend (originalOffset + bytes_sent))
      else if length toSend < 2 then Finished
      else next_job (send_some (tl toSend) 0))"

definition sendStaticBuffer :: "chunk list \<Rightarrow> u8 list \<Rightarrow> nat \<Rightarrow> nat \<Rightarrow> sent" where
  "sendStaticBuffer toSend currentBuffer lastChunkOffset bytes_sent =
     (if bytes_sent \<noteq> length currentBuffer
      then Next (StaticBuffer toSend (drop bytes_sent currentBuffer) lastChunkOffset)
      else if toSend \<noteq> [] then next_job (send_some toSend lastChunkOffset)
      else Finished)"

fun sent_handler :: "send_job \<Rightarrow> nat \<Rightarrow> sent" where
  "sent_handler (LargeChunk c offs) n = sendLargeChunkItem c offs n"
| "sent_handler (LargeDeque cs offs) n = sendLargeDequeItem cs offs n"
| "sent_handler (StaticBuffer cs buf offs) n = sendStaticBuffer cs buf offs n"

text \<open>The bytes the outstanding send was given.\<close>

fun job_buffer :: "send_job \<Rightarrow> u8 list" where
  "job_buffer (LargeChunk c offs) = drop offs c"
| "job_buffer (LargeDeque cs offs) = drop offs (hd cs)"
| "job_buffer (StaticBuffer cs buf offs) = buf"

text \<open>All bytes still to be written for the job, and when a job is well-formed.\<close>

fun job_bytes :: "send_job \<Rightarrow> u8 list" where
  "job_bytes (LargeChunk c offs) = drop offs c"
| "job_bytes (LargeDeque cs offs) = drop offs (concat cs)"
| "job_bytes (StaticBuffer cs buf offs) = buf @ drop offs (concat cs)"

definition offset_ok :: "chunk list \<Rightarrow> nat \<Rightarrow> bool" where
  "offset_ok cs offs \<longleftrightarrow> [] \<notin> set cs \<and> (case cs of [] \<Rightarrow> True | c # _ \<Rightarrow> offs < length c)"

fun job_ok :: "send_job \<Rightarrow> bool" where
  "job_ok (LargeChunk c offs) \<longleftrightarrow> offs < length c"
| "job_ok (LargeDeque cs offs) \<longleftrightarrow> cs \<noteq> [] \<and> offset_ok cs offs"
| "job_ok (StaticBuffer cs buf offs) \<longleftrightarrow> buf \<noteq> [] \<and> length buf \<le> PACKET_BUFFER_SIZE \<and> offset_ok cs offs"

lemma fill_buffer_ok:
  assumes "fill_buffer buf cs = (buf', cs', offs)" "[] \<notin> set cs" "length buf \<le> PACKET_BUFFER_SIZE"
  shows "buf' @ drop offs (concat cs') = buf @ concat cs \<and> offset_ok cs' offs
    \<and> length buf' \<le> PACKET_BUFFER_SIZE \<and> length buf \<le> length buf'"
  using assms
proof (induction buf cs rule: fill_buffer.induct)
  case (2 buf c cs)
  show ?case
  proof (cases "length buf < PACKET_BUFFER_SIZE \<and> length c \<le> PACKET_BUFFER_SIZE - length buf")
    case True
    then have "length (buf @ c) \<le> PACKET_BUFFER_SIZE" by auto
    with True 2 show ?thesis by fastforce
  next
    case False
    with 2(2-4) show ?thesis by (auto simp: offset_ok_def split: if_splits)
  qed
qed (auto simp: offset_ok_def)

lemma sendToWire_ok:
  assumes "cs \<noteq> []" "offset_ok cs offs"
  shows "\<exists>j. sendToWire cs offs = Some j \<and> job_ok j \<and> job_bytes j = drop offs (concat cs)"
proof -
  obtain c rest where cs: "cs = c # rest" using assms(1) by (cases cs) auto
  have c: "offs < length c" "[] \<notin> set rest" "c \<noteq> []" using assms(2) by (auto simp: cs offset_ok_def)
  show ?thesis
  proof (cases "PACKET_BUFFER_SIZE < length c - offs \<or> rest = []")
    case True
    then show ?thesis using assms by (simp add: sendToWire_def cs)
  next
    case False
    obtain buf r o' where f: "fill_buffer (drop offs c) rest = (buf, r, o')" by (metis prod_cases3)
    from fill_buffer_ok [OF f c(2)] False c show ?thesis
      by (auto simp: sendToWire_def cs f)
  qed
qed

lemma send_some_ok:
  assumes "cs \<noteq> []" "offset_ok cs offs"
  shows "\<exists>j. send_some cs offs = Some j \<and> job_ok j \<and> job_bytes j = drop offs (concat cs)"
proof (cases "length cs = 1")
  case True
  then obtain c where "cs = [c]" by (cases cs) auto
  then show ?thesis using assms by (simp add: send_some_def sendToWire_chunk_def offset_ok_def)
qed (use sendToWire_ok [OF assms] in \<open>simp add: send_some_def\<close>)

text \<open>
  One completion: the bytes sent are the first bytes of the job, and the next job has the others.
\<close>

lemma sent_handler_ok:
  assumes "job_ok j" "1 \<le> n" "n \<le> length (job_buffer j)"
  shows "(\<exists>j'. sent_handler j n = Next j' \<and> job_ok j' \<and> job_bytes j = take n (job_buffer j) @ job_bytes j')
    \<or> sent_handler j n = Finished \<and> job_bytes j = take n (job_buffer j)"
proof (cases j)
  case (LargeChunk c offs)
  have "drop offs c = take n (drop offs c) @ drop (offs + n) c"
    by (metis append_take_drop_id drop_drop add.commute)
  moreover have "n + offs \<le> length c" using assms(1,3) LargeChunk by simp
  ultimately show ?thesis
    by (auto simp: LargeChunk sendLargeChunkItem_def sendToWire_chunk_def)
next
  case (LargeDeque cs offs)
  then obtain c rest where cs: "cs = c # rest" using assms by (cases cs) auto
  have ok: "offs < length c" "[] \<notin> set rest" "c \<noteq> []" using assms(1) by (auto simp: LargeDeque cs offset_ok_def)
  show ?thesis
  proof (cases "n + offs = length c")
    case True
    show ?thesis
    proof (cases "rest = []")
      case False
      then have "offset_ok rest 0" using ok by (auto simp: offset_ok_def split: list.splits)
      with False send_some_ok [of rest 0] True show ?thesis
        by (auto simp: LargeDeque cs sendLargeDequeItem_def next_job_def Suc_le_eq)
    qed (use True in \<open>auto simp: LargeDeque cs sendLargeDequeItem_def\<close>)
  next
    case False
    then have lt: "offs + n < length c" using assms(3) ok(1) by (simp add: LargeDeque cs)
    then have "offset_ok cs (offs + n)" using ok by (auto simp: cs offset_ok_def)
    moreover have "drop offs c = take n (drop offs c) @ drop (offs + n) c"
      by (metis append_take_drop_id drop_drop add.commute)
    ultimately show ?thesis using sendToWire_ok [of cs "offs + n"] False lt
      by (auto simp: LargeDeque cs sendLargeDequeItem_def next_job_def)
  qed
next
  case (StaticBuffer cs buf offs)
  show ?thesis
  proof (cases "n = length buf")
    case True
    then show ?thesis
      using assms(1) send_some_ok [of cs offs]
      by (auto simp: StaticBuffer sendStaticBuffer_def next_job_def)
  next
    case False
    then show ?thesis using assms
      by (auto simp: StaticBuffer sendStaticBuffer_def append_take_drop_id)
  qed
qed

section \<open>The protocol on the status word\<close>

definition ASYNCHRONOUS_SEND_FLAG :: u32 where "ASYNCHRONOUS_SEND_FLAG = 536870912"
definition QUEUE_CHECK_FLAG :: u32 where "QUEUE_CHECK_FLAG = 1073741824"

definition async_flag :: "u32 \<Rightarrow> bool" where
  "async_flag st \<longleftrightarrow> and st ASYNCHRONOUS_SEND_FLAG \<noteq> 0"

definition queue_flag :: "u32 \<Rightarrow> bool" where
  "queue_flag st \<longleftrightarrow> and st QUEUE_CHECK_FLAG \<noteq> 0"

text \<open>
  Where a thread is in \<open>rawSend\<close> or \<open>retryQueuedSend\<close>: the next access to shared memory. Each
  operation on \<open>mSendingStatus\<close> and on the locked queue is one atomic step; what a thread does
  between two of them depends only on its own variables.
\<close>

datatype sender =
    Idle
  | Raw chunk                   \<comment> \<open>\<open>rawSend\<close> was called\<close>
  | Commit chunk                \<comment> \<open>the chosen thread, about to set the flag\<close>
  | Push chunk
  | Dec
  | RetryInc
  | RetryTorch                  \<comment> \<open>about to set both flags\<close>
  | RetrySwap
  | RetryEmpty
  | RetrySend "chunk list"      \<comment> \<open>about to clear the queue check flag\<close>
  | RetryDec
  | RetryRead
  | Wire "chunk list"           \<comment> \<open>about to call \<open>sendToWire\<close>\<close>

text \<open>Where the completion handlers are: the outstanding send, or a step of \<open>finishAsyncSend\<close>.\<close>

datatype handler =
    NoSend
  | Sending send_job
  | FinCheck
  | FinSwap
  | FinEmpty
  | FinSend "chunk list"
  | FinWire "chunk list"
  | Broken                      \<comment> \<open>an error was reported to the multiplexed socket\<close>

text \<open>
  The fields after \<open>handler\<close> record the history: the bytes written, the chunks handed to
  \<open>sendToWire\<close> in order, the chunks passed to \<open>rawSend\<close>, and whether an assertion failed, two
  sends overlapped, or a send was given nothing to send.
\<close>

record wrapper =
  mSendingStatus :: u32
  mSendQueue :: "chunk list"
  threads :: "sender list"
  handler :: handler
  written :: "u8 list"
  handed :: "chunk list"
  submitted :: "chunk list"
  failed :: bool

definition wrapper_init :: "nat \<Rightarrow> wrapper" where
  "wrapper_init n = \<lparr>mSendingStatus = 0, mSendQueue = [], threads = replicate n Idle, handler = NoSend,
     written = [], handed = [], submitted = [], failed = False\<rparr>"

definition start_send :: "chunk list \<Rightarrow> wrapper \<Rightarrow> wrapper" where
  "start_send cs s =
     (case (handler s, send_some cs 0) of
        (NoSend, Some j) \<Rightarrow> s\<lparr>handler := Sending j, handed := handed s @ cs\<rparr>
      | _ \<Rightarrow> s\<lparr>failed := True\<rparr>)"

text \<open>
  The head of the loop of \<open>retryQueuedSend\<close> on a status just read: leave it, volunteer, or read
  the status again. Volunteering while a queue check is on fails the assertion.
\<close>

definition retry_loop :: "nat \<Rightarrow> u32 \<Rightarrow> wrapper \<Rightarrow> wrapper" where
  "retry_loop i st s =
     (if async_flag st \<and> \<not> queue_flag st then s\<lparr>threads := (threads s)[i := Idle]\<rparr>
      else if \<not> async_flag st then
        if queue_flag st then s\<lparr>failed := True\<rparr> else s\<lparr>threads := (threads s)[i := RetryInc]\<rparr>
      else s\<lparr>threads := (threads s)[i := RetryRead]\<rparr>)"

definition goto :: "nat \<Rightarrow> sender \<Rightarrow> wrapper \<Rightarrow> wrapper" where
  "goto i t s = s\<lparr>threads := (threads s)[i := t]\<rparr>"

text \<open>The steps of \<open>rawSend\<close>.\<close>

definition rawSend :: "nat \<Rightarrow> wrapper \<Rightarrow> wrapper" where
  "rawSend i s = (let st = mSendingStatus s in
     case threads s ! i of
       Raw c \<Rightarrow> goto i (if st + 1 = 1 then Commit c else Push c) (s\<lparr>mSendingStatus := st + 1\<rparr>)
     | Commit c \<Rightarrow> goto i (Wire [c]) (s\<lparr>mSendingStatus := st + (ASYNCHRONOUS_SEND_FLAG - 1)\<rparr>)
     | Push c \<Rightarrow> goto i Dec (s\<lparr>mSendQueue := mSendQueue s @ [c]\<rparr>)
     | Dec \<Rightarrow> retry_loop i (st - 1) (s\<lparr>mSendingStatus := st - 1\<rparr>)
     | _ \<Rightarrow> s)"

text \<open>The steps of \<open>retryQueuedSend\<close>.\<close>

definition retryQueuedSend :: "nat \<Rightarrow> wrapper \<Rightarrow> wrapper" where
  "retryQueuedSend i s = (let st = mSendingStatus s in
     case threads s ! i of
       RetryInc \<Rightarrow> goto i (if st + 1 = 1 then RetryTorch else RetryDec) (s\<lparr>mSendingStatus := st + 1\<rparr>)
     | RetryTorch \<Rightarrow>
         goto i RetrySwap (s\<lparr>mSendingStatus := st + (QUEUE_CHECK_FLAG + ASYNCHRONOUS_SEND_FLAG - 1)\<rparr>)
     | RetrySwap \<Rightarrow>
         goto i (if mSendQueue s = [] then RetryEmpty else RetrySend (mSendQueue s)) (s\<lparr>mSendQueue := []\<rparr>)
     | RetryEmpty \<Rightarrow>
         goto i Idle (s\<lparr>mSendingStatus := st - (QUEUE_CHECK_FLAG + ASYNCHRONOUS_SEND_FLAG)\<rparr>)
     | RetrySend cs \<Rightarrow>
         if \<not> async_flag st then s\<lparr>failed := True\<rparr>
         else goto i (Wire cs) (s\<lparr>mSendingStatus := st - QUEUE_CHECK_FLAG\<rparr>)
     | RetryDec \<Rightarrow> goto i RetryRead (s\<lparr>mSendingStatus := st - 1\<rparr>)
     | RetryRead \<Rightarrow> retry_loop i st s
     | _ \<Rightarrow> s)"

text \<open>The next step of a thread; both functions end in \<open>sendToWire\<close> or return.\<close>

definition thread_step :: "nat \<Rightarrow> wrapper \<Rightarrow> wrapper" where
  "thread_step i s = (case threads s ! i of
       Wire cs \<Rightarrow> start_send cs (goto i Idle s)
     | Raw _ \<Rightarrow> rawSend i s | Commit _ \<Rightarrow> rawSend i s | Push _ \<Rightarrow> rawSend i s | Dec \<Rightarrow> rawSend i s
     | _ \<Rightarrow> retryQueuedSend i s)"

lemmas thread_step_defs = thread_step_def rawSend_def retryQueuedSend_def goto_def Let_def

text \<open>
  The completion of the outstanding send with \<open>n\<close> bytes, or with an error, and the steps of
  \<open>finishAsyncSend\<close>.
\<close>

definition send_complete :: "nat \<Rightarrow> wrapper \<Rightarrow> wrapper" where
  "send_complete n s =
     (case handler s of
        Sending j \<Rightarrow>
          let s = s\<lparr>written := written s @ take n (job_buffer j)\<rparr> in
          (case sent_handler j n of
             Next j \<Rightarrow> s\<lparr>handler := Sending j\<rparr>
           | Finished \<Rightarrow> s\<lparr>handler := FinCheck\<rparr>
           | Stuck \<Rightarrow> s\<lparr>failed := True\<rparr>)
      | _ \<Rightarrow> s)"

definition send_error :: "wrapper \<Rightarrow> wrapper" where
  "send_error s = (case handler s of Sending _ \<Rightarrow> s\<lparr>handler := Broken\<rparr> | _ \<Rightarrow> s)"

definition finishAsyncSend :: "wrapper \<Rightarrow> wrapper" where
  "finishAsyncSend s = (let st = mSendingStatus s in
     case handler s of
       FinCheck \<Rightarrow>
         if \<not> async_flag st then s\<lparr>failed := True\<rparr>
         else s\<lparr>mSendingStatus := st + QUEUE_CHECK_FLAG, handler := FinSwap\<rparr>
     | FinSwap \<Rightarrow>
         s\<lparr>mSendQueue := [], handler := (if mSendQueue s = [] then FinEmpty else FinSend (mSendQueue s))\<rparr>
     | FinEmpty \<Rightarrow>
         s\<lparr>mSendingStatus := st - (ASYNCHRONOUS_SEND_FLAG + QUEUE_CHECK_FLAG), handler := NoSend\<rparr>
     | FinSend cs \<Rightarrow> s\<lparr>mSendingStatus := st - QUEUE_CHECK_FLAG, handler := FinWire cs\<rparr>
     | FinWire cs \<Rightarrow> start_send cs (s\<lparr>handler := NoSend\<rparr>)
     | _ \<Rightarrow> s)"

text \<open>A call of \<open>rawSend\<close> by an idle thread.\<close>

definition call_rawSend :: "nat \<Rightarrow> chunk \<Rightarrow> wrapper \<Rightarrow> wrapper" where
  "call_rawSend i c s = s\<lparr>threads := (threads s)[i := Raw c], submitted := submitted s @ [c]\<rparr>"

text \<open>
  Interleavings: callers submit non-empty chunks (every packet has a header), threads and handlers
  take steps in any order, and the network accepts any positive part of what it is given, or fails.
\<close>

inductive wrapper_step :: "wrapper \<Rightarrow> wrapper \<Rightarrow> bool" where
  call: "i < length (threads s) \<Longrightarrow> threads s ! i = Idle \<Longrightarrow> c \<noteq> [] \<Longrightarrow> wrapper_step s (call_rawSend i c s)"
| thread: "i < length (threads s) \<Longrightarrow> threads s ! i \<noteq> Idle \<Longrightarrow> wrapper_step s (thread_step i s)"
| completed: "handler s = Sending j \<Longrightarrow> 1 \<le> n \<Longrightarrow> n \<le> length (job_buffer j) \<Longrightarrow> wrapper_step s (send_complete n s)"
| broken: "handler s = Sending j \<Longrightarrow> wrapper_step s (send_error s)"
| finish: "handler s \<in> {FinCheck, FinSwap, FinEmpty} \<or> handler s = FinSend cs \<or> handler s = FinWire cs
    \<Longrightarrow> wrapper_step s (finishAsyncSend s)"

inductive wrapper_reachable :: "nat \<Rightarrow> wrapper \<Rightarrow> bool" for n where
  init: "wrapper_reachable n (wrapper_init n)"
| step: "wrapper_reachable n s \<Longrightarrow> wrapper_step s s' \<Longrightarrow> wrapper_reachable n s'"

section \<open>The invariant\<close>

text \<open>Who has incremented the counter, who owns the socket, and who checks the queue.\<close>

fun counted :: "sender \<Rightarrow> nat" where
  "counted (Commit _) = 1" | "counted (Push _) = 1" | "counted Dec = 1" | "counted RetryTorch = 1"
| "counted RetryDec = 1" | "counted _ = 0"

fun torch :: "sender \<Rightarrow> nat" where
  "torch (Commit _) = 1" | "torch RetryTorch = 1" | "torch _ = 0"

fun owner :: "sender \<Rightarrow> nat" where
  "owner (Wire _) = 1" | "owner RetrySwap = 1" | "owner RetryEmpty = 1" | "owner (RetrySend _) = 1"
| "owner _ = 0"

fun checker :: "sender \<Rightarrow> nat" where
  "checker RetrySwap = 1" | "checker RetryEmpty = 1" | "checker (RetrySend _) = 1" | "checker _ = 0"

fun h_owner :: "handler \<Rightarrow> nat" where
  "h_owner NoSend = 0" | "h_owner _ = 1"

fun h_checker :: "handler \<Rightarrow> nat" where
  "h_checker FinSwap = 1" | "h_checker FinEmpty = 1" | "h_checker (FinSend _) = 1" | "h_checker _ = 0"

text \<open>The chunks a thread or handler holds.\<close>

fun holds :: "sender \<Rightarrow> chunk multiset" where
  "holds (Raw c) = {#c#}" | "holds (Commit c) = {#c#}" | "holds (Push c) = {#c#}"
| "holds (RetrySend cs) = mset cs" | "holds (Wire cs) = mset cs" | "holds _ = {#}"

fun h_holds :: "handler \<Rightarrow> chunk multiset" where
  "h_holds (FinSend cs) = mset cs" | "h_holds (FinWire cs) = mset cs" | "h_holds _ = {#}"

text \<open>A chunk list a thread is about to hand to \<open>sendToWire\<close> is not empty.\<close>

fun list_held :: "sender \<Rightarrow> bool" where
  "list_held (RetrySend cs) \<longleftrightarrow> cs \<noteq> []" | "list_held (Wire cs) \<longleftrightarrow> cs \<noteq> []" | "list_held _ \<longleftrightarrow> True"

fun h_held :: "handler \<Rightarrow> bool" where
  "h_held (FinSend cs) \<longleftrightarrow> cs \<noteq> []" | "h_held (FinWire cs) \<longleftrightarrow> cs \<noteq> []" | "h_held (Sending j) \<longleftrightarrow> job_ok j"
| "h_held _ \<longleftrightarrow> True"

text \<open>Who will still look at the queue.\<close>

fun looks :: "sender \<Rightarrow> bool" where
  "looks Idle \<longleftrightarrow> False" | "looks (Raw _) \<longleftrightarrow> False" | "looks (Push _) \<longleftrightarrow> False" | "looks RetryEmpty \<longleftrightarrow> False"
| "looks _ \<longleftrightarrow> True"

fun h_looks :: "handler \<Rightarrow> bool" where
  "h_looks NoSend \<longleftrightarrow> False" | "h_looks FinEmpty \<longleftrightarrow> False" | "h_looks _ \<longleftrightarrow> True"

fun h_bytes :: "handler \<Rightarrow> u8 list" where
  "h_bytes (Sending j) = job_bytes j" | "h_bytes _ = []"

abbreviation total_of :: "(sender \<Rightarrow> 'a::comm_monoid_add) \<Rightarrow> wrapper \<Rightarrow> 'a" where
  "total_of f s \<equiv> sum_list (map f (threads s))"

definition status_inv :: "wrapper \<Rightarrow> bool" where
  "status_inv s \<longleftrightarrow> unat (mSendingStatus s) = total_of counted s
      + 536870912 * (total_of owner s + h_owner (handler s))
      + 1073741824 * (total_of checker s + h_checker (handler s))
    \<and> total_of torch s + total_of owner s + h_owner (handler s) \<le> 1"

definition chunks_inv :: "wrapper \<Rightarrow> bool" where
  "chunks_inv s \<longleftrightarrow> mset (submitted s) = mset (handed s) + mset (mSendQueue s) + total_of holds s + h_holds (handler s)
    \<and> [] \<notin> set (submitted s) \<and> (\<forall>t\<in>set (threads s). list_held t) \<and> h_held (handler s)"

definition queue_inv :: "wrapper \<Rightarrow> bool" where
  "queue_inv s \<longleftrightarrow> mSendQueue s = [] \<or> (\<exists>t\<in>set (threads s). looks t) \<or> h_looks (handler s)"

definition wire_inv :: "wrapper \<Rightarrow> bool" where
  "wire_inv s \<longleftrightarrow> (if handler s = Broken then prefix (written s) (concat (handed s))
     else written s @ h_bytes (handler s) = concat (handed s))"

definition wrapper_inv :: "nat \<Rightarrow> wrapper \<Rightarrow> bool" where
  "wrapper_inv n s \<longleftrightarrow> length (threads s) = n \<and> status_inv s \<and> chunks_inv s \<and> queue_inv s \<and> wire_inv s \<and> \<not> failed s"

subsection \<open>Totals over the threads\<close>

lemma kinds: "checker t \<le> owner t" "torch t \<le> counted t" "counted t \<le> 1" "owner t \<le> 1" "h_checker h \<le> h_owner h"
  by (cases t; simp)+ (cases h; simp)

lemma totals: "total_of checker s \<le> total_of owner s" "total_of torch s \<le> total_of counted s"
  "total_of counted s \<le> length (threads s)"
proof -
  have "total_of counted s \<le> sum_list (map (\<lambda>_. 1) (threads s))" by (rule sum_list_mono) (rule kinds)
  then show "total_of counted s \<le> length (threads s)" by (simp add: sum_list_triv)
qed (rule sum_list_mono, rule kinds)+

lemma total_nth:
  fixes f :: "sender \<Rightarrow> nat"
  assumes "i < length (threads s)"
  shows "f (threads s ! i) \<le> total_of f s"
  using assms member_le_sum_list [of "f (threads s ! i)" "map f (threads s)"] by simp

subsection \<open>The status word\<close>

lemma status_parts:
  assumes "unat (w :: u32) = c + 536870912 * a + 1073741824 * q" "c < 536870912" "a \<le> 1" "q \<le> 1"
  shows "async_flag w \<longleftrightarrow> a = 1" "queue_flag w \<longleftrightarrow> q = 1"
proof -
  have "async_flag w \<longleftrightarrow> bit w 29" "queue_flag w \<longleftrightarrow> bit w 30"
    using and_exp_eq_0_iff_not_bit [of w 29] and_exp_eq_0_iff_not_bit [of w 30]
    by (simp_all add: async_flag_def queue_flag_def ASYNCHRONOUS_SEND_FLAG_def QUEUE_CHECK_FLAG_def)
  moreover have "bit w k \<longleftrightarrow> odd (unat w div 2 ^ k)" if "k < 32" for k
    using that bit_unsigned_iff [of w k, where ?'a = nat] by (simp add: bit_iff_odd)
  ultimately have "async_flag w \<longleftrightarrow> odd (unat w div 536870912)" "queue_flag w \<longleftrightarrow> odd (unat w div 1073741824)"
    by simp_all
  moreover have "unat w div 536870912 = a + 2 * q" "unat w div 1073741824 = q"
    using assms by simp_all
  moreover have "a = 0 \<or> a = 1" "q = 0 \<or> q = 1" using assms(3,4) by auto
  ultimately show "async_flag w \<longleftrightarrow> a = 1" "queue_flag w \<longleftrightarrow> q = 1" by auto
qed

lemma status_invD:
  assumes "status_inv s"
  shows "unat (mSendingStatus s) = total_of counted s
      + 536870912 * (total_of owner s + h_owner (handler s))
      + 1073741824 * (total_of checker s + h_checker (handler s))"
    "total_of torch s + total_of owner s + h_owner (handler s) \<le> 1"
    "total_of checker s + h_checker (handler s) \<le> total_of owner s + h_owner (handler s)"
  using assms totals(1) [of s] kinds(5) [of "handler s"] unfolding status_inv_def by linarith+

lemma status_flags:
  assumes "status_inv s" "length (threads s) < 536870912"
  shows "async_flag (mSendingStatus s) \<longleftrightarrow> total_of owner s + h_owner (handler s) = 1"
    "queue_flag (mSendingStatus s) \<longleftrightarrow> total_of checker s + h_checker (handler s) = 1"
proof -
  have "total_of counted s < 536870912" using totals(3) [of s] assms(2) by simp
  moreover have "total_of owner s + h_owner (handler s) \<le> 1" "total_of checker s + h_checker (handler s) \<le> 1"
    using status_invD [OF assms(1)] by linarith+
  ultimately show "async_flag (mSendingStatus s) \<longleftrightarrow> total_of owner s + h_owner (handler s) = 1"
    "queue_flag (mSendingStatus s) \<longleftrightarrow> total_of checker s + h_checker (handler s) = 1"
    using status_parts [OF status_invD(1) [OF assms(1)]] by blast+
qed

lemma status_bound:
  assumes "status_inv s" "length (threads s) < 536870912"
  shows "unat (mSendingStatus s) < 2147483648"
proof -
  have "x < 2147483648"
    if "x = c + 536870912 * a + 1073741824 * q" "q \<le> a" "a \<le> 1" "c < 536870912" for x c a q :: nat
    using that by linarith
  moreover have "total_of owner s + h_owner (handler s) \<le> 1" "total_of counted s < 536870912"
    using status_invD(2) [OF assms(1)] totals(3) [of s] assms(2) by linarith+
  ultimately show ?thesis using status_invD(1,3) [OF assms(1)] by blast
qed

text \<open>A thread moves on, and the status word changes by as much as its kind does.\<close>

lemma status_goto:
  assumes "status_inv s" "i < length (threads s)" "threads s' = (threads s)[i := t]"
    and "unat (mSendingStatus s') + counted (threads s ! i)
        + 536870912 * (owner (threads s ! i) + h_owner (handler s)) + 1073741824 * (checker (threads s ! i) + h_checker (handler s))
      = unat (mSendingStatus s) + counted t + 536870912 * (owner t + h_owner (handler s')) + 1073741824 * (checker t + h_checker (handler s'))"
    and "torch t + owner t + h_owner (handler s') \<le> torch (threads s ! i) + owner (threads s ! i) + h_owner (handler s)"
  shows "status_inv s'"
proof -
  have upd: "total_of f s' + f (threads s ! i) = total_of f s + f t" for f :: "sender \<Rightarrow> nat"
    using sum_list_update [OF assms(2), of f t] by (simp add: assms(3))
  have "x' = c' + 536870912 * (a' + h') + 1073741824 * (q' + g')"
    if "c' + cx = c + ct" "a' + ax = a + ay" "q' + qx = q + qt"
      "x = c + 536870912 * (a + h) + 1073741824 * (q + g)"
      "x' + cx + 536870912 * (ax + h) + 1073741824 * (qx + g)
        = x + ct + 536870912 * (ay + h') + 1073741824 * (qt + g')"
    for x x' c c' cx ct a a' ax ay q q' qx qt h h' g g' :: nat
    using that by (simp add: algebra_simps)
  then have "unat (mSendingStatus s') = total_of counted s' + 536870912 * (total_of owner s' + h_owner (handler s'))
      + 1073741824 * (total_of checker s' + h_checker (handler s'))"
    using upd [of counted] upd [of owner] upd [of checker] status_invD(1) [OF assms(1)] assms(4) by blast
  moreover have "total_of torch s' + total_of owner s' + h_owner (handler s') \<le> 1"
    using upd [of torch] upd [of owner] status_invD(2) [OF assms(1)] assms(5) by linarith
  ultimately show ?thesis by (simp add: status_inv_def)
qed

text \<open>The thread that finds the word zero is alone.\<close>

lemma status_torch:
  assumes "status_inv s" "i < length (threads s)" "threads s' = (threads s)[i := t]" "mSendingStatus s = 0"
    and "mSendingStatus s' = 1" "handler s' = handler s" "counted t = 1" "torch t = 1"
    and "counted (threads s ! i) = 0"
  shows "status_inv s'"
proof -
  have "total_of counted s = 0" "total_of owner s = 0" "h_owner (handler s) = 0"
      "total_of checker s = 0" "h_checker (handler s) = 0"
    using status_invD(1) [OF assms(1)] by (simp_all add: assms(4))
  moreover have "total_of f s' + f (threads s ! i) = total_of f s + f t" for f :: "sender \<Rightarrow> nat"
    using sum_list_update [OF assms(2), of f t] by (simp add: assms(3))
  from this [of counted] this [of owner] this [of checker]
  have "total_of counted s' = total_of counted s + 1" "total_of owner s' \<le> total_of owner s + owner t"
      "total_of checker s' \<le> total_of checker s + checker t"
    using assms(7,9) by linarith+
  moreover have "owner t = 0" "checker t = 0" using assms(8) by (cases t; simp)+
  moreover have "unat (mSendingStatus s') = 1" by (simp add: assms(5))
  ultimately show ?thesis
    using totals(2) [of s'] assms(6) unfolding status_inv_def by (metis add.commute add_0 add_0_right le_zero_eq mult_0_right)
qed

subsection \<open>Preservation\<close>

lemma exchange_sums:
  assumes "T' + ho = T + ht" "q' + ht = q + ho"
  shows "q' + T' = q + (T :: 'a multiset)"
proof -
  have "(q' + T') + (ht + ho) = (q' + ht) + (T' + ho)" by (simp add: ac_simps)
  also have "\<dots> = (q + T) + (ht + ho)" unfolding assms by (simp add: ac_simps)
  finally show ?thesis by simp
qed

lemma inv_goto:
  assumes "wrapper_inv n s" "i < n" "threads s' = (threads s)[i := t]" "status_inv s'"
    and "handler s' = handler s" "written s' = written s" "handed s' = handed s" "submitted s' = submitted s"
    and "\<not> failed s'" "mset (mSendQueue s') + holds t = mset (mSendQueue s) + holds (threads s ! i)" "list_held t"
    and "queue_inv s'"
  shows "wrapper_inv n s'"
proof -
  have i: "i < length (threads s)" and len: "length (threads s) = n" using assms(1,2) by (simp_all add: wrapper_inv_def)
  have ch: "chunks_inv s" using assms(1) by (simp add: wrapper_inv_def)
  have "total_of holds s' + holds (threads s ! i) = total_of holds s + holds t"
    using sum_list_update [OF i, of holds t] by (simp add: assms(3))
  then have "mset (mSendQueue s') + total_of holds s' = mset (mSendQueue s) + total_of holds s"
    using assms(10) exchange_sums by blast
  then have "mset (submitted s') = mset (handed s') + mset (mSendQueue s') + total_of holds s' + h_holds (handler s')"
    using ch assms(5,7,8) by (simp add: chunks_inv_def add.assoc)
  moreover have "\<forall>t\<in>set (threads s'). list_held t"
    using ch assms(11) set_update_subset_insert [of "threads s" i t] by (auto simp: assms(3) chunks_inv_def)
  ultimately have "chunks_inv s'" using ch assms(5,8) by (simp add: chunks_inv_def)
  moreover have "wire_inv s'" using assms(1,5-7) by (simp add: wrapper_inv_def wire_inv_def)
  ultimately show ?thesis using assms(3,4,9,12) len by (simp add: wrapper_inv_def)
qed

lemma queue_inv_looks: "i < length (threads s) \<Longrightarrow> threads s' = (threads s)[i := t] \<Longrightarrow> looks t \<Longrightarrow> queue_inv s'"
  by (auto simp: queue_inv_def set_update_memI intro!: bexI [of _ t])

lemma queue_inv_other:
  assumes "queue_inv s" "i < length (threads s)" "threads s' = (threads s)[i := t]" "\<not> looks (threads s ! i)"
    "mSendQueue s' = mSendQueue s" "handler s' = handler s"
  shows "queue_inv s'"
proof -
  have "\<exists>u\<in>set (threads s'). looks u" if "\<exists>u\<in>set (threads s). looks u"
  proof -
    from that obtain j where "j < length (threads s)" "looks (threads s ! j)" by (auto simp: in_set_conv_nth)
    with assms(3,4) have "threads s' ! j = threads s ! j" "j < length (threads s')" by (metis nth_list_update_neq length_list_update)+
    then show ?thesis using \<open>looks (threads s ! j)\<close> by (metis nth_mem)
  qed
  with assms show ?thesis by (auto simp: queue_inv_def)
qed

text \<open>Whoever owns the socket without checking the queue will look at it later.\<close>

lemma owner_looks:
  assumes "status_inv s" "length (threads s) < 536870912"
    "async_flag (mSendingStatus s)" "\<not> queue_flag (mSendingStatus s)" "i < length (threads s)" "threads s ! i = RetryRead"
  shows "h_looks (handler s) \<or> (\<exists>u\<in>set ((threads s)[i := Idle]). looks u)"
proof (cases "h_owner (handler s) = 1")
  case True
  have "total_of checker s + h_checker (handler s) \<noteq> 1" using status_flags(2) [OF assms(1,2)] assms(4) by simp
  moreover have "total_of checker s + h_checker (handler s) \<le> 1" using status_invD [OF assms(1)] by linarith
  ultimately have "h_checker (handler s) = 0" by linarith
  with True show ?thesis by (cases "handler s") auto
next
  case False
  then have "h_owner (handler s) = 0" by (cases "handler s") auto
  then have "total_of owner s = 1" using status_flags(1) [OF assms(1,2)] assms(3) by simp
  then obtain u where u: "u \<in> set (threads s)" "owner u \<noteq> 0" by (metis (mono_tags, lifting) map_eq_conv sum_list_0 zero_neq_one)
  then obtain j where j: "j < length (threads s)" "threads s ! j = u" by (auto simp: in_set_conv_nth)
  have "total_of checker s \<noteq> 1" "total_of checker s \<le> 1"
    using status_flags(2) [OF assms(1,2)] assms(4) status_invD [OF assms(1)] \<open>h_owner (handler s) = 0\<close>
      kinds(5) [of "handler s"] by auto
  then have "checker u = 0" using total_nth [OF j(1), of checker] j(2) by simp
  with u(2) have "looks u" by (cases u) auto
  moreover have "j \<noteq> i" using assms(6) j u(2) by auto
  ultimately show ?thesis using j by (metis nth_list_update_neq length_list_update nth_mem)
qed

text \<open>The head of the retry loop.\<close>

lemma retry_loop_inv:
  assumes "wrapper_inv n s" "n < 536870912" "i < n" "threads s ! i = RetryRead"
  shows "wrapper_inv n (retry_loop i (mSendingStatus s) s)"
proof -
  have st: "status_inv s" and i: "i < length (threads s)" and len: "length (threads s) < 536870912"
    using assms by (auto simp: wrapper_inv_def)
  note go = inv_goto [OF assms(1,3)]
  note same = status_goto [OF st i]
  consider "async_flag (mSendingStatus s)" "\<not> queue_flag (mSendingStatus s)" | "\<not> async_flag (mSendingStatus s)"
    | "async_flag (mSendingStatus s)" "queue_flag (mSendingStatus s)" by blast
  then show ?thesis
  proof cases
    case 1
    have "queue_inv (s\<lparr>threads := (threads s)[i := Idle]\<rparr>)"
      using owner_looks [OF st len 1 i assms(4)] by (auto simp: queue_inv_def)
    then have "wrapper_inv n (s\<lparr>threads := (threads s)[i := Idle]\<rparr>)"
      using assms(1,4) by (intro go [of _ Idle] same [of _ Idle]) (simp_all add: wrapper_inv_def)
    with 1 show ?thesis by (simp add: retry_loop_def)
  next
    case 2
    have "total_of checker s + h_checker (handler s) \<noteq> 1"
      using status_flags(1) [OF st len] 2 status_invD [OF st] by linarith
    then have "\<not> queue_flag (mSendingStatus s)" using status_flags(2) [OF st len] by simp
    moreover have "wrapper_inv n (s\<lparr>threads := (threads s)[i := RetryInc]\<rparr>)"
      using assms(1,4) by (intro go [of _ RetryInc] same [of _ RetryInc] queue_inv_looks [OF i, of _ RetryInc])
        (simp_all add: wrapper_inv_def)
    ultimately show ?thesis using 2 by (simp add: retry_loop_def)
  next
    case 3
    have "s\<lparr>threads := (threads s)[i := RetryRead]\<rparr> = s" using assms(4) i by (metis list_update_id wrapper.surjective wrapper.update_convs(3))
    with 3 assms(1) show ?thesis by (simp add: retry_loop_def)
  qed
qed

lemma unat_up: "unat (st :: u32) < 2147483648 \<Longrightarrow> unat w < 2147483648 \<Longrightarrow> unat (st + w) = unat st + unat w"
  by (simp add: unat_word_ariths)

lemma unat_down: "unat w \<le> unat (st :: u32) \<Longrightarrow> unat (st - w) = unat st - unat w"
  by (simp add: unat_sub word_le_nat_alt)

text \<open>A step that only changes the thread and the status word, to a thread that looks at the queue.\<close>

lemma inv_status_step:
  assumes "wrapper_inv n s" "i < n" "n < 536870912"
    and "unat st' + counted (threads s ! i) + 536870912 * owner (threads s ! i) + 1073741824 * checker (threads s ! i)
      = unat (mSendingStatus s) + counted t + 536870912 * owner t + 1073741824 * checker t"
    and "torch t + owner t \<le> torch (threads s ! i) + owner (threads s ! i)"
    and "holds t = holds (threads s ! i)" "list_held t" "looks t \<or> \<not> looks (threads s ! i)"
  shows "wrapper_inv n (s\<lparr>mSendingStatus := st', threads := (threads s)[i := t]\<rparr>)"
proof -
  let ?s = "s\<lparr>mSendingStatus := st', threads := (threads s)[i := t]\<rparr>"
  have st: "status_inv s" and i: "i < length (threads s)" and q: "queue_inv s"
    using assms(1,2) by (auto simp: wrapper_inv_def)
  have "status_inv ?s" using assms(4,5) by (intro status_goto [OF st i, of ?s t]) simp_all
  moreover have "queue_inv ?s"
    using assms(8) queue_inv_looks [OF i, of ?s t] queue_inv_other [OF q i, of ?s t] by auto
  ultimately show ?thesis
    using assms(1,6,7) by (intro inv_goto [OF assms(1,2), of ?s t]) (simp_all add: wrapper_inv_def)
qed

lemma inv_torch_step:
  assumes "wrapper_inv n s" "i < n" "mSendingStatus s = 0" "counted (threads s ! i) = 0"
    and "counted t = 1" "torch t = 1" "holds t = holds (threads s ! i)" "list_held t" "looks t"
  shows "wrapper_inv n (s\<lparr>mSendingStatus := 1, threads := (threads s)[i := t]\<rparr>)"
proof -
  let ?s = "s\<lparr>mSendingStatus := 1, threads := (threads s)[i := t]\<rparr>"
  have st: "status_inv s" and i: "i < length (threads s)" using assms(1,2) by (auto simp: wrapper_inv_def)
  have "status_inv ?s" using assms(3-6) by (intro status_torch [OF st i, of ?s t]) simp_all
  moreover have "queue_inv ?s" using assms(9) queue_inv_looks [OF i, of ?s t] by simp
  ultimately show ?thesis
    using assms(1,7,8) by (intro inv_goto [OF assms(1,2), of ?s t]) (simp_all add: wrapper_inv_def)
qed

lemma sum_list_member_subset: "t \<in> set ts \<Longrightarrow> f t \<subseteq># sum_list (map f ts)"
  by (induction ts) (auto intro: subset_mset.add_increasing subset_mset.add_increasing2)

lemma inv_chunks_nonempty:
  assumes "chunks_inv s"
  shows "[] \<notin> set (mSendQueue s)" "t \<in> set (threads s) \<Longrightarrow> [] \<notin># holds t" "[] \<notin># h_holds (handler s)"
proof -
  have ne: "[] \<notin># mset (handed s) + mset (mSendQueue s) + total_of holds s + h_holds (handler s)"
    using assms by (metis chunks_inv_def set_mset_mset)
  then show "[] \<notin> set (mSendQueue s)" "[] \<notin># h_holds (handler s)" by auto
  show "[] \<notin># holds t" if "t \<in> set (threads s)"
  proof -
    have "holds t \<subseteq># total_of holds s"
      using that by (rule sum_list_member_subset)
    then have "set_mset (holds t) \<subseteq> set_mset (total_of holds s)" by (rule set_mset_mono)
    moreover have "[] \<notin># total_of holds s" using ne by (simp only: union_iff) blast
    ultimately show ?thesis by blast
  qed
qed

text \<open>Starting a send: the socket is free and a job is found.\<close>

lemma start_send_job:
  assumes "handler s = NoSend" "cs \<noteq> []" "[] \<notin> set cs"
  obtains j where "start_send cs s = s\<lparr>handler := Sending j, handed := handed s @ cs\<rparr>" "job_ok j" "job_bytes j = concat cs"
proof -
  have "offset_ok cs 0" using assms(2,3) by (cases cs) (auto simp: offset_ok_def)
  then show thesis using that send_some_ok [OF assms(2), of 0] assms(1) by (auto simp: start_send_def)
qed

lemma wire_step_inv:
  assumes inv: "wrapper_inv n s" and i: "i < n" and t: "threads s ! i = Wire cs"
  shows "wrapper_inv n (start_send cs (s\<lparr>threads := (threads s)[i := Idle]\<rparr>))"
proof -
  have il: "i < length (threads s)" and st: "status_inv s" and ch: "chunks_inv s" and w: "wire_inv s"
    using inv i by (auto simp: wrapper_inv_def)
  have mem: "Wire cs \<in> set (threads s)" using t il nth_mem by metis
  have "1 \<le> total_of owner s" using total_nth [OF il, of owner] t by simp
  then have "h_owner (handler s) = 0" using status_invD(2) [OF st] by linarith
  then have h: "handler s = NoSend" by (cases "handler s") auto
  have cs: "cs \<noteq> []" "[] \<notin> set cs"
    using ch mem inv_chunks_nonempty(2) [OF ch mem] by (auto simp: chunks_inv_def)
  let ?s = "s\<lparr>threads := (threads s)[i := Idle]\<rparr>"
  obtain j where j: "start_send cs ?s = ?s\<lparr>handler := Sending j, handed := handed ?s @ cs\<rparr>" "job_ok j" "job_bytes j = concat cs"
    by (rule start_send_job [of ?s cs]) (use h cs in simp_all)
  let ?s' = "?s\<lparr>handler := Sending j, handed := handed ?s @ cs\<rparr>"
  have "status_inv ?s'" using h t by (intro status_goto [OF st il, of ?s' Idle]) simp_all
  moreover have "chunks_inv ?s'"
  proof -
    have "total_of holds ?s' + mset cs = total_of holds s"
      using sum_list_update [OF il, of holds Idle] t by simp
    then have "mset (submitted ?s') = mset (handed ?s') + mset (mSendQueue ?s') + total_of holds ?s' + h_holds (handler ?s')"
      using ch h by (simp add: chunks_inv_def ac_simps)
    moreover have "\<forall>t\<in>set (threads ?s'). list_held t"
      using ch set_update_subset_insert [of "threads s" i Idle] by (auto simp: chunks_inv_def)
    ultimately show ?thesis using ch j(2) by (simp add: chunks_inv_def)
  qed
  moreover have "wire_inv ?s'" using w h j(3) by (simp add: wire_inv_def)
  ultimately show ?thesis using inv j(1) by (simp add: wrapper_inv_def queue_inv_def)
qed

lemma swap_step_inv:
  assumes inv: "wrapper_inv n s" and i: "i < n" and t: "threads s ! i = RetrySwap"
  shows "wrapper_inv n (s\<lparr>mSendQueue := [], threads := (threads s)[i := if mSendQueue s = [] then RetryEmpty else RetrySend (mSendQueue s)]\<rparr>)"
    (is "wrapper_inv n ?s")
proof -
  let ?t = "if mSendQueue s = [] then RetryEmpty else RetrySend (mSendQueue s)"
  have il: "i < length (threads s)" and st: "status_inv s" using inv i by (auto simp: wrapper_inv_def)
  have "status_inv ?s" using t by (intro status_goto [OF st il, of ?s ?t]) simp_all
  then show ?thesis
    using inv t by (intro inv_goto [OF inv i, of ?s ?t]) (simp_all add: wrapper_inv_def queue_inv_def)
qed

lemma push_step_inv:
  assumes inv: "wrapper_inv n s" and i: "i < n" and t: "threads s ! i = Push c"
  shows "wrapper_inv n (s\<lparr>mSendQueue := mSendQueue s @ [c], threads := (threads s)[i := Dec]\<rparr>)" (is "wrapper_inv n ?s")
proof -
  have il: "i < length (threads s)" and st: "status_inv s" using inv i by (auto simp: wrapper_inv_def)
  have "status_inv ?s" using t by (intro status_goto [OF st il, of ?s Dec]) simp_all
  moreover have "queue_inv ?s" by (rule queue_inv_looks [OF il, of ?s Dec]) simp_all
  ultimately show ?thesis
    using inv t by (intro inv_goto [OF inv i, of ?s Dec]) (simp_all add: wrapper_inv_def)
qed

lemma thread_step_inv:
  assumes inv: "wrapper_inv n s" and n: "n < 536870912" and i: "i < n"
  shows "wrapper_inv n (thread_step i s)"
proof -
  let ?st = "mSendingStatus s"
  have il: "i < length (threads s)" and st: "status_inv s" and len: "length (threads s) < 536870912"
    using inv n i by (auto simp: wrapper_inv_def)
  have b: "unat ?st < 2147483648" by (rule status_bound [OF st len])
  have up1: "unat (?st + 1) = unat ?st + 1" using unat_up [OF b, of 1] by simp
  have zero: "?st + 1 = 1 \<longleftrightarrow> ?st = 0" by (metis add.left_neutral add_right_cancel)
  note step = inv_status_step [OF inv i n]
  have cnt: "counted (threads s ! i) + 536870912 * owner (threads s ! i) + 1073741824 * checker (threads s ! i) \<le> unat ?st"
  proof -
    have "c + 536870912 * a + 1073741824 * q \<le> x"
      if "x = c' + 536870912 * (a' + h) + 1073741824 * (q' + g)" "c \<le> c'" "a \<le> a'" "q \<le> q'" for x c c' a a' h q q' g :: nat
      using that by (simp add: algebra_simps)
    then show ?thesis using status_invD(1) [OF st] total_nth [OF il] by blast
  qed
  show ?thesis
  proof (cases "threads s ! i")
    case (Raw c)
    then show ?thesis using step [of "?st + 1" "Push c"] inv_torch_step [OF inv i, of "Commit c"] up1 zero
      by (simp add: thread_step_defs)
  next
    case (Commit c)
    then show ?thesis using step [of "?st + (ASYNCHRONOUS_SEND_FLAG - 1)" "Wire [c]"] unat_up [OF b, of "ASYNCHRONOUS_SEND_FLAG - 1"]
      by (simp add: thread_step_defs ASYNCHRONOUS_SEND_FLAG_def)
  next
    case Dec
    then have d: "unat (?st - 1) = unat ?st - 1" using cnt unat_down [of 1 ?st] by simp
    let ?s = "s\<lparr>mSendingStatus := ?st - 1, threads := (threads s)[i := RetryRead]\<rparr>"
    have "wrapper_inv n ?s" using Dec step [of "?st - 1" RetryRead] d cnt by simp
    from retry_loop_inv [OF this n i] il have "wrapper_inv n (retry_loop i (?st - 1) ?s)" by simp
    moreover from this have "retry_loop i (?st - 1) ?s = retry_loop i (?st - 1) (s\<lparr>mSendingStatus := ?st - 1\<rparr>)"
      by (auto simp: retry_loop_def wrapper_inv_def)
    ultimately show ?thesis using Dec by (simp add: thread_step_defs)
  next
    case RetryInc
    then show ?thesis using step [of "?st + 1" RetryDec] inv_torch_step [OF inv i, of RetryTorch] up1 zero
      by (simp add: thread_step_defs)
  next
    case RetryTorch
    then show ?thesis using step [of "?st + (QUEUE_CHECK_FLAG + ASYNCHRONOUS_SEND_FLAG - 1)" RetrySwap]
        unat_up [OF b, of "QUEUE_CHECK_FLAG + ASYNCHRONOUS_SEND_FLAG - 1"]
      by (simp add: thread_step_defs ASYNCHRONOUS_SEND_FLAG_def QUEUE_CHECK_FLAG_def)
  next
    case RetryEmpty
    then show ?thesis using step [of "?st - (QUEUE_CHECK_FLAG + ASYNCHRONOUS_SEND_FLAG)" Idle] cnt
        unat_down [of "QUEUE_CHECK_FLAG + ASYNCHRONOUS_SEND_FLAG" ?st]
      by (simp add: thread_step_defs ASYNCHRONOUS_SEND_FLAG_def QUEUE_CHECK_FLAG_def)
  next
    case (RetrySend cs)
    have "cs \<noteq> []" using inv RetrySend il nth_mem [OF il] by (auto simp: wrapper_inv_def chunks_inv_def)
    moreover have "total_of owner s + h_owner (handler s) = 1"
      using total_nth [OF il, of owner] RetrySend status_invD(2) [OF st] by simp
    then have "async_flag ?st" using status_flags(1) [OF st len] by simp
    ultimately show ?thesis using RetrySend step [of "?st - QUEUE_CHECK_FLAG" "Wire cs"] cnt
        unat_down [of "QUEUE_CHECK_FLAG" ?st]
      by (simp add: thread_step_defs QUEUE_CHECK_FLAG_def)
  next
    case RetryDec
    then show ?thesis using step [of "?st - 1" RetryRead] cnt unat_down [of 1 ?st]
      by (simp add: thread_step_defs)
  next
    case (Push c)
    then show ?thesis using push_step_inv [OF inv i] by (simp add: thread_step_defs)
  next
    case RetrySwap
    then show ?thesis using swap_step_inv [OF inv i] by (simp add: thread_step_defs)
  next
    case RetryRead
    then show ?thesis using retry_loop_inv [OF inv n i] by (simp add: thread_step_defs)
  next
    case (Wire cs)
    then show ?thesis using wire_step_inv [OF inv i] by (simp add: thread_step_defs)
  qed (use inv in \<open>simp add: thread_step_defs\<close>)
qed

text \<open>The handlers: only the handler, the status word and the history change.\<close>

lemma status_handler:
  assumes "status_inv s" "threads s' = threads s"
    and "unat (mSendingStatus s') + 536870912 * h_owner (handler s) + 1073741824 * h_checker (handler s)
      = unat (mSendingStatus s) + 536870912 * h_owner (handler s') + 1073741824 * h_checker (handler s')"
    and "h_owner (handler s') \<le> h_owner (handler s)"
  shows "status_inv s'"
proof -
  have "x' = c + 536870912 * (a + h') + 1073741824 * (q + g')"
    if "x = c + 536870912 * (a + h) + 1073741824 * (q + g)"
      "x' + 536870912 * h + 1073741824 * g = x + 536870912 * h' + 1073741824 * g'" for x x' c a h h' q g g' :: nat
    using that by (simp add: algebra_simps)
  then have "unat (mSendingStatus s') = total_of counted s + 536870912 * (total_of owner s + h_owner (handler s'))
      + 1073741824 * (total_of checker s + h_checker (handler s'))"
    using status_invD(1) [OF assms(1)] assms(3) by blast
  moreover have "total_of torch s + total_of owner s + h_owner (handler s') \<le> 1"
    using status_invD(2) [OF assms(1)] assms(4) by linarith
  ultimately show ?thesis using assms(2) by (simp add: status_inv_def)
qed

lemma handler_parts:
  assumes "status_inv s"
  shows "536870912 * h_owner (handler s) + 1073741824 * h_checker (handler s) \<le> unat (mSendingStatus s)"
proof -
  have "536870912 * h + 1073741824 * g \<le> x"
    if "x = c + 536870912 * (a + h) + 1073741824 * (q + g)" for x c a h q g :: nat
    using that by (simp add: algebra_simps)
  then show ?thesis using status_invD(1) [OF assms] by blast
qed

lemma send_complete_inv:
  assumes inv: "wrapper_inv n s" and j: "handler s = Sending j" and k: "1 \<le> k" "k \<le> length (job_buffer j)"
  shows "wrapper_inv n (send_complete k s)"
proof -
  have st: "status_inv s" and ch: "chunks_inv s" and w: "wire_inv s" using inv by (auto simp: wrapper_inv_def)
  have "job_ok j" using ch j by (simp add: chunks_inv_def)
  from sent_handler_ok [OF this k] show ?thesis
  proof (elim disjE exE conjE)
    fix j' assume j': "sent_handler j k = Next j'" "job_ok j'" "job_bytes j = take k (job_buffer j) @ job_bytes j'"
    let ?s = "s\<lparr>written := written s @ take k (job_buffer j), handler := Sending j'\<rparr>"
    have "status_inv ?s" using j by (intro status_handler [OF st]) simp_all
    then have "wrapper_inv n ?s" using inv j j'
      by (simp add: wrapper_inv_def chunks_inv_def queue_inv_def wire_inv_def)
    then show ?thesis using j j'(1) by (simp add: send_complete_def)
  next
    assume f: "sent_handler j k = Finished" "job_bytes j = take k (job_buffer j)"
    let ?s = "s\<lparr>written := written s @ take k (job_buffer j), handler := FinCheck\<rparr>"
    have "status_inv ?s" using j by (intro status_handler [OF st]) simp_all
    then have "wrapper_inv n ?s" using inv j f
      by (simp add: wrapper_inv_def chunks_inv_def queue_inv_def wire_inv_def)
    then show ?thesis using j f(1) by (simp add: send_complete_def)
  qed
qed

lemma send_error_inv:
  assumes inv: "wrapper_inv n s" and j: "handler s = Sending j"
  shows "wrapper_inv n (send_error s)"
proof -
  let ?s = "s\<lparr>handler := Broken\<rparr>"
  have st: "status_inv s" using inv by (simp add: wrapper_inv_def)
  have "status_inv ?s" by (rule status_handler [OF st]) (simp_all add: j)
  moreover have "written s @ job_bytes j = concat (handed s)"
    using inv j by (simp add: wrapper_inv_def wire_inv_def)
  then have "prefix (written s) (concat (handed s))" by (metis prefixI)
  ultimately show ?thesis using inv j
    by (simp add: send_error_def wrapper_inv_def chunks_inv_def queue_inv_def wire_inv_def)
qed

lemma finishAsyncSend_inv:
  assumes inv: "wrapper_inv n s" and n: "n < 536870912"
  shows "wrapper_inv n (finishAsyncSend s)"
proof -
  let ?st = "mSendingStatus s"
  have st: "status_inv s" and ch: "chunks_inv s" and w: "wire_inv s" and len: "length (threads s) < 536870912"
    using inv n by (auto simp: wrapper_inv_def)
  have b: "unat ?st < 2147483648" by (rule status_bound [OF st len])
  note parts = handler_parts [OF st]
  show ?thesis
  proof (cases "handler s")
    case FinCheck
    then have "total_of owner s + h_owner (handler s) = 1" using status_invD(2) [OF st] by simp
    then have "async_flag ?st" using status_flags(1) [OF st len] by simp
    moreover have "status_inv (s\<lparr>mSendingStatus := ?st + QUEUE_CHECK_FLAG, handler := FinSwap\<rparr>)"
      using FinCheck unat_up [OF b, of QUEUE_CHECK_FLAG]
      by (intro status_handler [OF st]) (simp_all add: QUEUE_CHECK_FLAG_def)
    ultimately show ?thesis using inv FinCheck
      by (simp add: finishAsyncSend_def wrapper_inv_def chunks_inv_def queue_inv_def wire_inv_def)
  next
    case FinSwap
    let ?h = "if mSendQueue s = [] then FinEmpty else FinSend (mSendQueue s)"
    have "status_inv (s\<lparr>mSendQueue := [], handler := ?h\<rparr>)"
      using FinSwap by (intro status_handler [OF st]) simp_all
    then show ?thesis using inv FinSwap
      by (simp add: finishAsyncSend_def wrapper_inv_def chunks_inv_def queue_inv_def wire_inv_def)
  next
    case FinEmpty
    have "status_inv (s\<lparr>mSendingStatus := ?st - (ASYNCHRONOUS_SEND_FLAG + QUEUE_CHECK_FLAG), handler := NoSend\<rparr>)"
      using FinEmpty parts unat_down [of "ASYNCHRONOUS_SEND_FLAG + QUEUE_CHECK_FLAG" ?st]
      by (intro status_handler [OF st]) (simp_all add: QUEUE_CHECK_FLAG_def ASYNCHRONOUS_SEND_FLAG_def)
    then show ?thesis using inv FinEmpty
      by (simp add: finishAsyncSend_def wrapper_inv_def chunks_inv_def queue_inv_def wire_inv_def)
  next
    case (FinSend cs)
    have "status_inv (s\<lparr>mSendingStatus := ?st - QUEUE_CHECK_FLAG, handler := FinWire cs\<rparr>)"
      using FinSend parts unat_down [of QUEUE_CHECK_FLAG ?st]
      by (intro status_handler [OF st]) (simp_all add: QUEUE_CHECK_FLAG_def)
    then show ?thesis using inv FinSend
      by (simp add: finishAsyncSend_def wrapper_inv_def chunks_inv_def queue_inv_def wire_inv_def)
  next
    case (FinWire cs)
    have cs: "cs \<noteq> []" "[] \<notin> set cs"
      using ch inv_chunks_nonempty(3) [OF ch] FinWire by (auto simp: chunks_inv_def)
    let ?s = "s\<lparr>handler := NoSend\<rparr>"
    obtain j where j: "start_send cs ?s = ?s\<lparr>handler := Sending j, handed := handed ?s @ cs\<rparr>" "job_ok j" "job_bytes j = concat cs"
      by (rule start_send_job [of ?s cs]) (use cs in simp_all)
    have "status_inv (s\<lparr>handler := Sending j, handed := handed s @ cs\<rparr>)"
      using FinWire by (intro status_handler [OF st]) simp_all
    then show ?thesis using inv FinWire j
      by (simp add: finishAsyncSend_def wrapper_inv_def chunks_inv_def queue_inv_def wire_inv_def ac_simps)
  qed (use inv in \<open>simp_all add: finishAsyncSend_def\<close>)
qed

lemma sum_list_all_zero: "\<forall>t\<in>set ts. f t = 0 \<Longrightarrow> sum_list (map f ts) = (0 :: 'a::comm_monoid_add)"
  by (induction ts) auto

lemma call_rawSend_inv:
  assumes inv: "wrapper_inv n s" and i: "i < n" "threads s ! i = Idle" and c: "c \<noteq> []"
  shows "wrapper_inv n (call_rawSend i c s)"
proof -
  let ?s = "call_rawSend i c s"
  have il: "i < length (threads s)" and st: "status_inv s" and ch: "chunks_inv s" and q: "queue_inv s"
    using inv i by (auto simp: wrapper_inv_def)
  have "status_inv ?s" using i by (intro status_goto [OF st il, of ?s "Raw c"]) (simp_all add: call_rawSend_def)
  moreover have "queue_inv ?s" using i by (intro queue_inv_other [OF q il, of ?s "Raw c"]) (simp_all add: call_rawSend_def)
  moreover have "total_of holds ?s = total_of holds s + {#c#}"
    using sum_list_update [OF il, of holds "Raw c"] i by (simp add: call_rawSend_def)
  then have "chunks_inv ?s"
    using ch c set_update_subset_insert [of "threads s" i "Raw c"] by (auto simp: chunks_inv_def call_rawSend_def)
  ultimately show ?thesis using inv by (simp add: wrapper_inv_def wire_inv_def call_rawSend_def)
qed

lemma wrapper_init_inv: "wrapper_inv n (wrapper_init n)"
  by (simp add: wrapper_inv_def wrapper_init_def status_inv_def chunks_inv_def queue_inv_def wire_inv_def map_replicate_const)
     (induction n; simp)

lemma wrapper_reachable_inv:
  assumes "wrapper_reachable n s" "n < 536870912"
  shows "wrapper_inv n s"
  using assms
proof (induction rule: wrapper_reachable.induct)
  case (step s s')
  then have inv: "wrapper_inv n s" by simp
  then have len: "length (threads s) = n" by (simp add: wrapper_inv_def)
  from step.hyps(2) show ?case
    using call_rawSend_inv [OF inv] thread_step_inv [OF inv \<open>n < 536870912\<close>] send_complete_inv [OF inv]
      send_error_inv [OF inv] finishAsyncSend_inv [OF inv \<open>n < 536870912\<close>]
    by (cases rule: wrapper_step.cases) (simp_all add: len)
qed (rule wrapper_init_inv)

section \<open>Properties\<close>

definition quiescent :: "wrapper \<Rightarrow> bool" where
  "quiescent s \<longleftrightarrow> list_all (\<lambda>t. t = Idle) (threads s) \<and> handler s = NoSend"

text \<open>
  C3: one sender at a time. In every interleaving of fewer than \<open>2 ^ 29\<close> threads no assertion of
  the source fails, no two sends overlap and no send is started without bytes; the status word shows
  whether a thread or a handler owns the socket and whether it is checking the queue; the bytes
  written are the first bytes of the chunks handed to the socket.
\<close>

theorem one_sender_at_a_time:
  assumes "wrapper_reachable n s" and "n < 2 ^ 29"
  shows "\<not> failed s \<and> total_of owner s + h_owner (handler s) \<le> 1
    \<and> (async_flag (mSendingStatus s) \<longleftrightarrow> total_of owner s + h_owner (handler s) = 1)
    \<and> (queue_flag (mSendingStatus s) \<longleftrightarrow> total_of checker s + h_checker (handler s) = 1)
    \<and> prefix (written s) (concat (handed s))"
proof -
  have inv: "wrapper_inv n s" using wrapper_reachable_inv assms by simp
  then have st: "status_inv s" "length (threads s) < 536870912" and w: "wire_inv s"
    using assms(2) by (auto simp: wrapper_inv_def)
  have "prefix (written s) (concat (handed s))"
    using w by (metis prefixI wire_inv_def)
  with status_flags [OF st] status_invD(2) [OF st(1)] inv show ?thesis by (simp add: wrapper_inv_def)
qed

text \<open>
  C2: no chunk is lost. When every call of \<open>rawSend\<close> has returned and no send is outstanding, the
  queue is empty, the status word is zero, every chunk passed to \<open>rawSend\<close> was handed to the
  socket exactly once, and the bytes written are those chunks one after the other.
\<close>

theorem no_chunk_lost:
  assumes "wrapper_reachable n s" and "n < 2 ^ 29" and "quiescent s"
  shows "mSendQueue s = [] \<and> mSendingStatus s = 0 \<and> mset (handed s) = mset (submitted s)
    \<and> written s = concat (handed s)"
proof -
  have inv: "wrapper_inv n s" using wrapper_reachable_inv assms(1,2) by simp
  have idle: "\<forall>t\<in>set (threads s). t = Idle" and h: "handler s = NoSend"
    using assms(3) by (auto simp: quiescent_def list_all_iff)
  have zero: "total_of f s = 0" if "f Idle = 0" for f :: "sender \<Rightarrow> 'a::comm_monoid_add"
    using idle that by (intro sum_list_all_zero) auto
  have q: "mSendQueue s = []" using inv idle h by (auto simp: wrapper_inv_def queue_inv_def)
  have "unat (mSendingStatus s) = 0"
    using inv h zero [of counted] zero [of owner] zero [of checker] by (simp add: wrapper_inv_def status_inv_def)
  then have "mSendingStatus s = 0" by (simp add: unat_eq_zero)
  moreover have "mset (handed s) = mset (submitted s)"
    using inv h q zero [of holds] by (simp add: wrapper_inv_def chunks_inv_def)
  moreover have "written s = concat (handed s)" using inv h by (simp add: wrapper_inv_def wire_inv_def)
  ultimately show ?thesis using q by simp
qed

text \<open>One thread sends one chunk of one byte.\<close>

definition sample_state :: "u32 \<Rightarrow> sender \<Rightarrow> handler \<Rightarrow> u8 list \<Rightarrow> chunk list \<Rightarrow> wrapper" where
  "sample_state st t h w cs = \<lparr>mSendingStatus = st, mSendQueue = [], threads = [t], handler = h,
     written = w, handed = cs, submitted = [[5]], failed = False\<rparr>"

lemmas sample_defs = sample_state_def call_rawSend_def wrapper_init_def thread_step_defs start_send_def send_some_def
  sendToWire_chunk_def send_complete_def sendLargeChunkItem_def finishAsyncSend_def Let_def
  ASYNCHRONOUS_SEND_FLAG_def QUEUE_CHECK_FLAG_def async_flag_def

lemma sample_steps:
  "call_rawSend 0 [5] (wrapper_init 1) = sample_state 0 (Raw [5]) NoSend [] []"
  "thread_step 0 (sample_state 0 (Raw [5]) NoSend [] []) = sample_state 1 (Commit [5]) NoSend [] []"
  "thread_step 0 (sample_state 1 (Commit [5]) NoSend [] []) = sample_state 536870912 (Wire [[5]]) NoSend [] []"
  "thread_step 0 (sample_state 536870912 (Wire [[5]]) NoSend [] [])
    = sample_state 536870912 Idle (Sending (LargeChunk [5] 0)) [] [[5]]"
  "send_complete 1 (sample_state 536870912 Idle (Sending (LargeChunk [5] 0)) [] [[5]])
    = sample_state 536870912 Idle FinCheck [5] [[5]]"
  "finishAsyncSend (sample_state 536870912 Idle FinCheck [5] [[5]]) = sample_state 1610612736 Idle FinSwap [5] [[5]]"
  "finishAsyncSend (sample_state 1610612736 Idle FinSwap [5] [[5]]) = sample_state 1610612736 Idle FinEmpty [5] [[5]]"
  "finishAsyncSend (sample_state 1610612736 Idle FinEmpty [5] [[5]]) = sample_state 0 Idle NoSend [5] [[5]]"
  by (simp_all add: sample_defs)

lemma sample_reachable: "wrapper_reachable 1 (sample_state 0 Idle NoSend [5] [[5]])"
proof -
  have t: "wrapper_reachable 1 (thread_step 0 s)"
    if "wrapper_reachable 1 s" "threads s = [t]" "t \<noteq> Idle" for s t
    by (rule wrapper_reachable.step [OF that(1) wrapper_step.thread]) (use that in simp_all)
  have f: "wrapper_reachable 1 (finishAsyncSend s)"
    if "wrapper_reachable 1 s" "handler s \<in> {FinCheck, FinSwap, FinEmpty}" for s
    by (rule wrapper_reachable.step [OF that(1) wrapper_step.finish]) (use that in blast)
  have "wrapper_reachable 1 (call_rawSend 0 [5] (wrapper_init 1))"
    by (rule wrapper_reachable.step [OF wrapper_reachable.init wrapper_step.call]) (simp_all add: wrapper_init_def)
  then have "wrapper_reachable 1 (sample_state 536870912 Idle (Sending (LargeChunk [5] 0)) [] [[5]])"
    unfolding sample_steps(1) sample_steps(2-4) [symmetric]
    by (intro t) (simp_all add: sample_steps, simp_all add: sample_state_def, simp_all)
  from wrapper_reachable.step [OF this wrapper_step.completed [where n = 1]]
  have "wrapper_reachable 1 (sample_state 536870912 Idle FinCheck [5] [[5]])"
    unfolding sample_steps(5) by (simp add: sample_state_def)
  then show ?thesis
    unfolding sample_steps(6-8) [symmetric] by (intro f) (simp_all add: sample_steps, simp_all add: sample_state_def)
qed

theorem one_sender_at_a_time_witness:
  "wrapper_reachable 1 (sample_state 0 Idle NoSend [5] [[5]]) \<and> \<not> failed (sample_state 0 Idle NoSend [5] [[5]])
    \<and> prefix [5] (concat [[5 :: u8]])"
  using one_sender_at_a_time [OF sample_reachable] sample_reachable by (simp add: sample_state_def)

theorem no_chunk_lost_witness:
  "quiescent (sample_state 0 Idle NoSend [5] [[5]])
    \<and> mset (handed (sample_state 0 Idle NoSend [5] [[5]])) = mset (submitted (sample_state 0 Idle NoSend [5] [[5]]))
    \<and> written (sample_state 0 Idle NoSend [5] [[5]]) = concat [[5]]"
proof -
  have q: "quiescent (sample_state 0 Idle NoSend [5] [[5]])" by (simp add: quiescent_def sample_state_def)
  from no_chunk_lost [OF sample_reachable _ this] q show ?thesis by (simp add: sample_state_def)
qed

end
