(* ===== verification/Event_Ids.thy ===== *)
theory Event_Ids
  imports Prelude Std_Map "HOL-Library.Char_ord" "HOL-Library.List_Lexorder"
begin

text \<open>
  Identifiers of the task system: primary and secondary ids of events (\<open>task/Event.hpp\<close>,
  \<open>task/Event.cpp\<close>), subscription ids and function ids (\<open>task/UniqueId.hpp\<close>). The hash of a string
  is a parameter. Strings are ordered as \<open>std::string\<close> orders them, lexicographically.
\<close>

section \<open>Primary ids\<close>

text \<open>The static table of event names: the map and the next number.\<close>

record id_table =
  idMap :: "(string, int) std_map"
  max_id :: int

definition id_table_init :: id_table where
  "id_table_init = \<lparr>idMap = [], max_id = 0\<rparr>"

definition getUniqueId :: "string \<Rightarrow> id_table \<Rightarrow> int \<times> id_table" where
  "getUniqueId name t =
     (case map_find name (idMap t) of
        Some i \<Rightarrow> (i, t)
      | None \<Rightarrow> (max_id t, t\<lparr>idMap := map_insert name (max_id t) (idMap t), max_id := max_id t + 1\<rparr>))"

section \<open>Secondary ids\<close>

record secondary =
  mIntValue :: int
  mStrValue :: string

definition Secondary_int :: "int \<Rightarrow> secondary" where
  "Secondary_int i = \<lparr>mIntValue = i, mStrValue = []\<rparr>"

definition Secondary_string :: "(string \<Rightarrow> int) \<Rightarrow> string \<Rightarrow> secondary" where
  "Secondary_string hash s = \<lparr>mIntValue = (if s = [] then 0 else hash s), mStrValue = s\<rparr>"

definition Secondary_null :: secondary where
  "Secondary_null = Secondary_int 0"

definition sec_eq :: "secondary \<Rightarrow> secondary \<Rightarrow> bool" where
  "sec_eq a b \<longleftrightarrow> mIntValue a = mIntValue b \<and> mStrValue a = mStrValue b"

definition sec_less :: "secondary \<Rightarrow> secondary \<Rightarrow> bool" where
  "sec_less a b \<longleftrightarrow>
     (if mIntValue a = mIntValue b then mStrValue a < mStrValue b else mIntValue a < mIntValue b)"

definition show_int :: "int \<Rightarrow> string" where
  "show_int i = (if i < 0 then CHR ''-'' # show_nat (nat (- i)) else show_nat (nat i))"

text \<open>\<open>substr(57)\<close> is the rest of the string from position 57 on.\<close>

definition sec_print :: "secondary \<Rightarrow> string" where
  "sec_print a =
     (if mStrValue a = [] then (if mIntValue a = 0 then ''null'' else show_int (mIntValue a))
      else if 60 < length (mStrValue a)
      then CHR 0x22 # drop 57 (mStrValue a) @ CHR 0x22 # ''...''
      else CHR 0x22 # mStrValue a @ [CHR 0x22])"

section \<open>Pairs\<close>

record id_pair =
  mPriId :: int
  mSecId :: secondary

definition pair_eq :: "id_pair \<Rightarrow> id_pair \<Rightarrow> bool" where
  "pair_eq a b \<longleftrightarrow> mPriId a = mPriId b \<and> sec_eq (mSecId a) (mSecId b)"

definition pair_less :: "id_pair \<Rightarrow> id_pair \<Rightarrow> bool" where
  "pair_less a b \<longleftrightarrow>
     (if mPriId a = mPriId b then sec_less (mSecId a) (mSecId b) else mPriId a < mPriId b)"

definition IdPair_primary :: "int \<Rightarrow> id_pair" where
  "IdPair_primary p = \<lparr>mPriId = p, mSecId = Secondary_null\<rparr>"

section \<open>Subscription and function ids\<close>

text \<open>\<open>IncreasingSubId\<close>, the type used for subscriptions: the state is \<open>nextid\<close>.\<close>

definition SubId_null :: int where
  "SubId_null = -1"

definition IncreasingSubId_alloc :: "int \<Rightarrow> int \<times> int" where
  "IncreasingSubId_alloc n = (n, n + 1)"

text \<open>\<open>CompactSubId\<close>: the state is the free list and \<open>nextid\<close>.\<close>

record compact_sub_id =
  freelist :: "int list"
  nextid :: int

definition CompactSubId_alloc :: "compact_sub_id \<Rightarrow> int \<times> compact_sub_id" where
  "CompactSubId_alloc s =
     (case freelist s of
        [] \<Rightarrow> (nextid s, s\<lparr>nextid := nextid s + 1\<rparr>)
      | i # fs \<Rightarrow> (i, s\<lparr>freelist := fs\<rparr>))"

definition CompactSubId_free :: "int \<Rightarrow> compact_sub_id \<Rightarrow> compact_sub_id" where
  "CompactSubId_free i s = s\<lparr>freelist := freelist s @ [i]\<rparr>"

record function_id =
  mThisPtr :: nat
  mClassId :: string
  mUniqueId :: string

definition fid_eq :: "function_id \<Rightarrow> function_id \<Rightarrow> bool" where
  "fid_eq a b \<longleftrightarrow>
     (if mThisPtr a \<noteq> mThisPtr b then False
      else if mClassId a = mClassId b then False
      else mUniqueId a = mUniqueId b)"

definition fid_less :: "function_id \<Rightarrow> function_id \<Rightarrow> bool" where
  "fid_less a b \<longleftrightarrow>
     (if mThisPtr a = mThisPtr b then
        if mClassId a = mClassId b then mUniqueId a < mUniqueId b else mClassId a < mClassId b
      else mThisPtr a < mThisPtr b)"

section \<open>Orders\<close>

definition id_pair_leq :: "id_pair \<Rightarrow> id_pair \<Rightarrow> bool" where
  "id_pair_leq a b \<longleftrightarrow> pair_less a b \<or> a = b"

interpretation id_pair_order: linorder id_pair_leq pair_less
proof
  show "pair_less x y \<longleftrightarrow> id_pair_leq x y \<and> \<not> id_pair_leq y x" for x y
    by (auto simp: id_pair_leq_def pair_less_def sec_less_def split: if_splits)
  show "id_pair_leq x x" for x by (simp add: id_pair_leq_def)
  show "id_pair_leq x z" if "id_pair_leq x y" "id_pair_leq y z" for x y z
    using that by (auto simp: id_pair_leq_def pair_less_def sec_less_def split: if_splits)
  show "x = y" if "id_pair_leq x y" "id_pair_leq y x" for x y
    using that by (auto simp: id_pair_leq_def pair_less_def sec_less_def split: if_splits)
  show "id_pair_leq x y \<or> id_pair_leq y x" for x y
    by (cases x; cases "mSecId x"; cases y; cases "mSecId y")
       (auto simp: id_pair_leq_def pair_less_def sec_less_def split: if_splits)
qed

section \<open>The table of names\<close>

definition table_ok :: "id_table \<Rightarrow> bool" where
  "table_ok t \<longleftrightarrow> map_ok (idMap t) \<and> (\<forall>n i. map_find n (idMap t) = Some i \<longrightarrow> 0 \<le> i \<and> i < max_id t)
     \<and> (\<forall>m n i. map_find m (idMap t) = Some i \<longrightarrow> map_find n (idMap t) = Some i \<longrightarrow> m = n) \<and> 0 \<le> max_id t"

lemma getUniqueId_ok:
  assumes "table_ok t" "getUniqueId n t = (i, t')"
  shows "table_ok t' \<and> map_find n (idMap t') = Some i
    \<and> (\<forall>m j. map_find m (idMap t) = Some j \<longrightarrow> map_find m (idMap t') = Some j)"
proof (cases "map_find n (idMap t)")
  case None
  then have t': "t' = t\<lparr>idMap := map_insert n (max_id t) (idMap t), max_id := max_id t + 1\<rparr>" "i = max_id t"
    using assms(2) by (auto simp: getUniqueId_def)
  have ok: "map_ok (idMap t)" using assms(1) by (simp add: table_ok_def)
  have f: "map_find m (idMap t') = (if m = n then Some (max_id t) else map_find m (idMap t))" for m
    using map_find_insert [OF ok, of m n "max_id t"] None by (simp add: t')
  have b: "0 \<le> j \<and> j < max_id t" if "map_find m (idMap t) = Some j" for m j
    using assms(1) that by (auto simp: table_ok_def)
  have "0 \<le> j \<and> j < max_id t'" if "map_find m (idMap t') = Some j" for m j
  proof (cases "m = n")
    case True
    then have "j = max_id t" using that f by simp
    with assms(1) show ?thesis by (simp add: t'(1) table_ok_def)
  next
    case False
    then have "map_find m (idMap t) = Some j" using that f by simp
    with b [OF this] show ?thesis by (simp add: t')
  qed
  moreover have "m = m'" if "map_find m (idMap t') = Some j" "map_find m' (idMap t') = Some j" for m m' j
  proof (cases "m = n \<or> m' = n")
    case True
    then show ?thesis using that b f by (metis option.inject less_irrefl)
  next
    case False
    then have "map_find m (idMap t) = Some j" "map_find m' (idMap t) = Some j" using that f by auto
    then show ?thesis using assms(1) unfolding table_ok_def by blast
  qed
  ultimately have "table_ok t'"
    using map_ok_insert [OF ok] assms(1) unfolding table_ok_def by (simp add: t')
  then show ?thesis using f None t' by auto
qed (use assms in \<open>auto simp: getUniqueId_def\<close>)

fun getUniqueIds :: "string list \<Rightarrow> id_table \<Rightarrow> int list \<times> id_table" where
  "getUniqueIds [] t = ([], t)"
| "getUniqueIds (n # ns) t = (let (i, t) = getUniqueId n t; (is, t) = getUniqueIds ns t in (i # is, t))"

lemma getUniqueIds_ok:
  assumes "table_ok t" "getUniqueIds ns t = (is, t')"
  shows "table_ok t' \<and> list_all2 (\<lambda>n i. map_find n (idMap t') = Some i) ns is
    \<and> (\<forall>m j. map_find m (idMap t) = Some j \<longrightarrow> map_find m (idMap t') = Some j)"
  using assms
proof (induction ns arbitrary: t "is")
  case (Cons n ns)
  obtain i t1 where g: "getUniqueId n t = (i, t1)" by (cases "getUniqueId n t")
  obtain js t2 where gs: "getUniqueIds ns t1 = (js, t2)" by (cases "getUniqueIds ns t1")
  have "is = i # js" "t' = t2" using Cons.prems(2) g gs by auto
  with Cons.IH [of t1 js] getUniqueId_ok [OF Cons.prems(1) g] gs show ?case by auto
qed simp

section \<open>Properties\<close>

text \<open>
  Event names and primary ids correspond one to one: of the ids handed out for any sequence of
  names, two are equal exactly when their names are.
\<close>

theorem primary_ids_injective:
  assumes "i < length ns" and "j < length ns"
  shows "fst (getUniqueIds ns id_table_init) ! i = fst (getUniqueIds ns id_table_init) ! j \<longleftrightarrow> ns ! i = ns ! j"
proof -
  obtain "is" t where g: "getUniqueIds ns id_table_init = (is, t)" by (cases "getUniqueIds ns id_table_init")
  have "table_ok id_table_init" by (simp add: table_ok_def id_table_init_def map_find_def)
  from getUniqueIds_ok [OF this g] have t: "table_ok t"
    and a: "list_all2 (\<lambda>n i. map_find n (idMap t) = Some i) ns is" by auto
  have "map_find (ns ! i) (idMap t) = Some (is ! i)" "map_find (ns ! j) (idMap t) = Some (is ! j)"
    using a assms by (auto simp: list_all2_conv_all_nth)
  then show ?thesis using t g unfolding table_ok_def by (metis fst_conv option.inject)
qed

theorem primary_ids_injective_witness:
  "fst (getUniqueIds [''a'', ''b'', ''a''] id_table_init) ! 0 = fst (getUniqueIds [''a'', ''b'', ''a''] id_table_init) ! 2
    \<and> fst (getUniqueIds [''a'', ''b'', ''a''] id_table_init) ! 0 \<noteq> fst (getUniqueIds [''a'', ''b'', ''a''] id_table_init) ! 1"
  using primary_ids_injective [of 0 "[''a'', ''b'', ''a'']" 2] primary_ids_injective [of 0 "[''a'', ''b'', ''a'']" 1]
  by simp

text \<open>
  the equality of function ids is not an equality: no id equals itself, and ids with different
  class ids are equal when their other parts are.
\<close>

lemma function_id_equality_inverted:
  "\<not> fid_eq a a \<and> (fid_eq a b \<longleftrightarrow> mThisPtr a = mThisPtr b \<and> mUniqueId a = mUniqueId b \<and> mClassId a \<noteq> mClassId b)"
  by (auto simp: fid_eq_def)

end
