(* ===== verification/Queues.thy ===== *)
theory Queues
  imports Prelude
begin

text \<open>
  The locked queue shared by the event manager, the send queue of a socket and the work queue of the
  disk cache (\<open>util/ThreadSafeQueue.hpp\<close>). Every operation holds the lock for its whole duration,
  so an execution is a sequence of the operations below; \<open>blockingPop\<close> returns only in states
  where \<open>waitCheck\<close> succeeds.
\<close>

section \<open>ThreadSafeQueue\<close>

record 'a tsq =
  mList :: "'a list"

definition tsq_init :: "'a tsq" where
  "tsq_init = \<lparr>mList = []\<rparr>"

definition tsq_swap :: "'a tsq \<Rightarrow> 'a list \<Rightarrow> 'a tsq \<times> 'a list" where
  "tsq_swap q swapWith = (q\<lparr>mList := swapWith\<rparr>, mList q)"

definition tsq_push :: "'a \<Rightarrow> 'a tsq \<Rightarrow> 'a tsq" where
  "tsq_push v q = q\<lparr>mList := mList q @ [v]\<rparr>"

definition tsq_pop :: "'a tsq \<Rightarrow> 'a option \<times> 'a tsq" where
  "tsq_pop q = (case mList q of [] \<Rightarrow> (None, q) | x # xs \<Rightarrow> (Some x, q\<lparr>mList := xs\<rparr>))"

definition probablyEmpty :: "'a tsq \<Rightarrow> bool" where
  "probablyEmpty q \<longleftrightarrow> mList q = []"

text \<open>\<open>waitCheck\<close>: None is its result true, the caller has to wait.\<close>

definition waitCheck :: "'a tsq \<Rightarrow> ('a \<times> 'a tsq) option" where
  "waitCheck q = (case mList q of [] \<Rightarrow> None | x # xs \<Rightarrow> Some (x, q\<lparr>mList := xs\<rparr>))"

text \<open>
  \<open>NodeIterator\<close>: takes the whole contents when constructed. Its \<open>next\<close> removes the previous item
  first; once it has returned NULL another call removes from an empty deque, which is undefined.
\<close>

record 'a node_iterator =
  mNext :: bool
  mSwappedList :: "'a list"

datatype queue_ub = Pop_from_empty

definition NodeIterator_init :: "'a tsq \<Rightarrow> 'a node_iterator \<times> 'a tsq" where
  "NodeIterator_init q = (let (q, xs) = tsq_swap q [] in (\<lparr>mNext = False, mSwappedList = xs\<rparr>, q))"

definition node_next :: "'a node_iterator \<Rightarrow> queue_ub + 'a option \<times> 'a node_iterator" where
  "node_next it =
     (if mNext it \<and> mSwappedList it = [] then Inl Pop_from_empty
      else let it = (if mNext it then it\<lparr>mSwappedList := tl (mSwappedList it)\<rparr> else it) in
        case mSwappedList it of
          [] \<Rightarrow> Inr (None, it)
        | x # _ \<Rightarrow> Inr (Some x, it\<lparr>mNext := True\<rparr>))"

lemma tl_Cons_length: "tl xs = y # ys \<Longrightarrow> length xs = Suc (Suc (length ys))"
  by (cases xs) auto

text \<open>The loop every client runs: \<open>while ((x = it.next()) != NULL)\<close>.\<close>

function node_loop :: "'a node_iterator \<Rightarrow> queue_ub + 'a list" where
  "node_loop it =
     (case node_next it of
        Inl e \<Rightarrow> Inl e
      | Inr (None, _) \<Rightarrow> Inr []
      | Inr (Some x, it) \<Rightarrow> (case node_loop it of Inl e \<Rightarrow> Inl e | Inr xs \<Rightarrow> Inr (x # xs)))"
  by pat_completeness auto
termination
  by (relation "measure (\<lambda>it. 2 * length (mSwappedList it) + (if mNext it then 0 else 1))")
     (auto simp: node_next_def Let_def tl_Cons_length split: if_splits list.splits)

declare node_loop.simps [simp del]

section \<open>The contract of a queue\<close>

text \<open>A sequence of pushes (Some) and pops (None), with the items popped.\<close>

fun queue_run :: "('a \<Rightarrow> 'q \<Rightarrow> 'q) \<Rightarrow> ('q \<Rightarrow> 'a option \<times> 'q) \<Rightarrow> 'a option list \<Rightarrow> 'q \<Rightarrow> 'a list \<times> 'q" where
  "queue_run push pop [] q = ([], q)"
| "queue_run push pop (Some x # ops) q = queue_run push pop ops (push x q)"
| "queue_run push pop (None # ops) q =
     (let (r, q) = pop q; (rs, q) = queue_run push pop ops q
      in ((case r of None \<Rightarrow> [] | Some x \<Rightarrow> [x]) @ rs, q))"

text \<open>What the clients rely on: first in first out, and taking everything at once loses nothing.\<close>

locale fifo_queue =
  fixes items :: "'q \<Rightarrow> 'a list" and push :: "'a \<Rightarrow> 'q \<Rightarrow> 'q" and pop :: "'q \<Rightarrow> 'a option \<times> 'q"
    and take_all :: "'q \<Rightarrow> 'a list \<times> 'q"
  assumes items_push: "items (push x q) = items q @ [x]"
    and pop_empty: "items q = [] \<Longrightarrow> pop q = (None, q)"
    and pop_front: "items q = x # xs \<Longrightarrow> \<exists>q'. pop q = (Some x, q') \<and> items q' = xs"
    and take_all_items: "fst (take_all q) = items q"
    and take_all_empty: "items (snd (take_all q)) = []"
begin

lemma items_pushes: "items (fold push xs q) = items q @ xs"
  by (induction xs arbitrary: q) (simp_all add: items_push)

lemma queue_run_fifo:
  "queue_run push pop ops q = (rs, q') \<Longrightarrow> rs @ items q' = items q @ List.map_filter id ops"
proof (induction ops arbitrary: q rs)
  case (Cons o' ops)
  show ?case
  proof (cases o')
    case (Some x)
    with Cons show ?thesis by (simp add: items_push map_filter_def)
  next
    case None
    show ?thesis
    proof (cases "items q")
      case Nil
      then show ?thesis using Cons None pop_empty [OF Nil] by (auto simp: map_filter_def split: prod.splits)
    next
      case c: (Cons x xs)
      obtain q1 where "pop q = (Some x, q1)" "items q1 = xs" using pop_front [OF c] by blast
      then show ?thesis using Cons None c by (auto simp: map_filter_def split: prod.splits)
    qed
  qed
qed (simp add: map_filter_def)

end

lemma node_loop_items:
  "node_loop it = Inr (if mNext it then tl (mSwappedList it) else mSwappedList it)"
  if "mNext it \<longrightarrow> mSwappedList it \<noteq> []"
  using that
proof (induction it rule: node_loop.induct)
  case (1 it)
  show ?case
  proof (cases "if mNext it then tl (mSwappedList it) else mSwappedList it")
    case Nil
    then show ?thesis using 1(2) by (subst node_loop.simps) (auto simp: node_next_def Let_def split: if_splits)
  next
    case (Cons x xs)
    let ?it = "\<lparr>mNext = True, mSwappedList = x # xs\<rparr>"
    have n: "node_next it = Inr (Some x, ?it)" using Cons 1(2) by (auto simp: node_next_def Let_def split: if_splits)
    then show ?thesis using 1(1) [OF n refl] Cons by (subst node_loop.simps) simp
  qed
qed

definition tsq_take_all :: "'a tsq \<Rightarrow> 'a list \<times> 'a tsq" where
  "tsq_take_all q = (let (it, q) = NodeIterator_init q in
     (case node_loop it of Inl _ \<Rightarrow> [] | Inr xs \<Rightarrow> xs, q))"

interpretation tsq: fifo_queue mList tsq_push tsq_pop tsq_take_all
  by unfold_locales
     (auto simp: tsq_push_def tsq_pop_def tsq_take_all_def NodeIterator_init_def tsq_swap_def node_loop_items)

section \<open>Properties\<close>

text \<open>
  The locked queue is first in first out: in any sequence of pushes and pops the items popped,
  followed by those still queued, are the initial items followed by those pushed, in order.
\<close>

lemma queue_is_fifo:
  "case queue_run tsq_push tsq_pop ops q of (rs, q') \<Rightarrow> rs @ mList q' = mList q @ List.map_filter id ops"
  using tsq.queue_run_fifo by (auto split: prod.splits)

text \<open>
  The loop over a \<open>NodeIterator\<close> terminates without undefined behaviour, sees every item that
  was queued when it was constructed exactly once and in order, and leaves the queue empty.
\<close>

theorem node_iterator_drains:
  "case NodeIterator_init q of (it, q') \<Rightarrow> node_loop it = Inr (mList q) \<and> mList q' = []"
  by (simp add: NodeIterator_init_def tsq_swap_def node_loop_items)

end
