(* ===== verification/Event_Manager.thy ===== *)
theory Event_Manager
  imports Event_Ids Queues "HOL-Library.Sublist"
begin

text \<open>
  The event manager (\<open>task/EventManager.hpp\<close>, \<open>task/EventManager.cpp\<close>): clients queue events and
  requests to subscribe or unsubscribe; \<open>temporary_processEventQueue\<close> first carries out the requests
  and then calls, for each event, the listeners of its primary id and of its pair of ids.

  Listeners and the events' own completion operator are client code: the record \<open>client\<close> says what
  a call answers, how it changes the client's state and which functions of the event manager it calls.
  Those only push onto the two queues, so the lists of listeners do not change while they are walked.
  An iterator into a list of listeners is the list's place and the subscription id of the node.
\<close>

section \<open>Data\<close>

datatype EventResponse = NOP | DELETE_LISTENER | CANCEL_EVENT | DELETE_LISTENER_AND_CANCEL_EVENT

definition deletes :: "EventResponse \<Rightarrow> bool" where
  "deletes r \<longleftrightarrow> r = DELETE_LISTENER \<or> r = DELETE_LISTENER_AND_CANCEL_EVENT"

definition cancels :: "EventResponse \<Rightarrow> bool" where
  "cancels r \<longleftrightarrow> r = CANCEL_EVENT \<or> r = DELETE_LISTENER_AND_CANCEL_EVENT"

datatype EventOrder = EARLY | MIDDLE | LATE | NUM_EVENTORDER

datatype EventHistory = EVENT_CANCELED | EVENT_HANDLED | EVENT_UNHANDLED

text \<open>A request: id of the subscription, event, listener, order and whether only the primary id counts.\<close>

datatype 'l ListenerRequest =
    Subscription int id_pair 'l EventOrder bool
  | Unsubscription int bool

type_synonym 'l listener_list = "('l \<times> int) list"
type_synonym 'l ordered_lists = "EventOrder \<Rightarrow> 'l listener_list"

record 'l primary_info =
  pri_lists :: "'l ordered_lists"
  sec_map :: "secondary \<rightharpoonup> 'l ordered_lists"

text \<open>\<open>EventSubscriptionInfo\<close>: the place of the list that holds the listener.\<close>

record place =
  at_primary :: int
  at_secondary :: "secondary option"
  at_order :: EventOrder

text \<open>What clients may touch, and the manager. \<open>trace\<close> records the calls of client code.\<close>

record ('l, 'e) em_queues =
  mUnprocessed :: "'e tsq"
  mListenerRequests :: "'l ListenerRequest tsq"
  subIds :: int
  usesCV :: bool
  mPendingEvents :: int

datatype ('l, 'e) em_call_trace = Called 'l int "'e option" EventResponse | Completed 'e EventHistory

record ('l, 'e, 'c) event_manager =
  queues :: "('l, 'e) em_queues"
  mListeners :: "int \<rightharpoonup> 'l primary_info"
  mRemoveById :: "int \<rightharpoonup> place"
  cstate :: 'c
  trace :: "('l, 'e) em_call_trace list"

datatype em_ub = Dangling_iterator | Missing_secondary

section \<open>What clients call\<close>

datatype em_exception = EventOrderException

definition subscribe :: "id_pair \<Rightarrow> 'l \<Rightarrow> EventOrder \<Rightarrow> ('l, 'e) em_queues \<Rightarrow> em_exception + ('l, 'e) em_queues" where
  "subscribe eventId listener ord q =
     (if ord = NUM_EVENTORDER then Inl EventOrderException
      else Inr (q\<lparr>mListenerRequests :=
        tsq_push (Subscription SubId_null eventId listener ord False) (mListenerRequests q)\<rparr>))"

definition subscribe_primary :: "int \<Rightarrow> 'l \<Rightarrow> EventOrder \<Rightarrow> ('l, 'e) em_queues \<Rightarrow> em_exception + ('l, 'e) em_queues" where
  "subscribe_primary primaryId listener ord q =
     (if ord = NUM_EVENTORDER then Inl EventOrderException
      else Inr (q\<lparr>mListenerRequests :=
        tsq_push (Subscription SubId_null (IdPair_primary primaryId) listener ord True) (mListenerRequests q)\<rparr>))"

definition subscribeId :: "id_pair \<Rightarrow> 'l \<Rightarrow> EventOrder \<Rightarrow> ('l, 'e) em_queues
    \<Rightarrow> em_exception + int \<times> ('l, 'e) em_queues" where
  "subscribeId eventId listener ord q =
     (if ord = NUM_EVENTORDER then Inl EventOrderException
      else let (removeId, n) = IncreasingSubId_alloc (subIds q) in
        Inr (removeId, q\<lparr>subIds := n, mListenerRequests :=
          tsq_push (Subscription removeId eventId listener ord False) (mListenerRequests q)\<rparr>))"

definition subscribeId_primary :: "int \<Rightarrow> 'l \<Rightarrow> EventOrder \<Rightarrow> ('l, 'e) em_queues
    \<Rightarrow> em_exception + int \<times> ('l, 'e) em_queues" where
  "subscribeId_primary priId listener ord q =
     (if ord = NUM_EVENTORDER then Inl EventOrderException
      else let (removeId, n) = IncreasingSubId_alloc (subIds q) in
        Inr (removeId, q\<lparr>subIds := n, mListenerRequests :=
          tsq_push (Subscription removeId (IdPair_primary priId) listener ord True) (mListenerRequests q)\<rparr>))"

definition unsubscribe :: "int \<Rightarrow> bool \<Rightarrow> ('l, 'e) em_queues \<Rightarrow> ('l, 'e) em_queues" where
  "unsubscribe removeId notifyListener q =
     q\<lparr>mListenerRequests := tsq_push (Unsubscription removeId notifyListener) (mListenerRequests q)\<rparr>"

definition fire :: "'e \<Rightarrow> ('l, 'e) em_queues \<Rightarrow> ('l, 'e) em_queues" where
  "fire ev q =
     (let q = q\<lparr>mUnprocessed := tsq_push ev (mUnprocessed q)\<rparr> in
      if usesCV q then q\<lparr>mPendingEvents := mPendingEvents q + 1\<rparr> else q)"

datatype ('l, 'e) em_call =
    Subscribe id_pair 'l EventOrder | Subscribe_primary int 'l EventOrder
  | SubscribeId id_pair 'l EventOrder | SubscribeId_primary int 'l EventOrder
  | Unsubscribe int bool | Fire 'e

text \<open>A call that throws has no effect on the queues; the client is taken to handle the exception.\<close>

fun do_call :: "('l, 'e) em_call \<Rightarrow> ('l, 'e) em_queues \<Rightarrow> ('l, 'e) em_queues" where
  "do_call (Subscribe i l ord) q = (case subscribe i l ord q of Inl _ \<Rightarrow> q | Inr q \<Rightarrow> q)"
| "do_call (Subscribe_primary p l ord) q = (case subscribe_primary p l ord q of Inl _ \<Rightarrow> q | Inr q \<Rightarrow> q)"
| "do_call (SubscribeId i l ord) q = (case subscribeId i l ord q of Inl _ \<Rightarrow> q | Inr (_, q) \<Rightarrow> q)"
| "do_call (SubscribeId_primary p l ord) q = (case subscribeId_primary p l ord q of Inl _ \<Rightarrow> q | Inr (_, q) \<Rightarrow> q)"
| "do_call (Unsubscribe i n) q = unsubscribe i n q"
| "do_call (Fire ev) q = fire ev q"

record ('l, 'e, 'c) client =
  listen :: "'l \<Rightarrow> 'e option \<Rightarrow> 'c \<Rightarrow> EventResponse \<times> 'c \<times> ('l, 'e) em_call list"
  completed :: "'e \<Rightarrow> EventHistory \<Rightarrow> 'c \<Rightarrow> 'c \<times> ('l, 'e) em_call list"
  getId :: "'e \<Rightarrow> id_pair"

definition call_listener :: "('l, 'e, 'c) client \<Rightarrow> 'l \<Rightarrow> int \<Rightarrow> 'e option \<Rightarrow> ('l, 'e, 'c) event_manager
    \<Rightarrow> EventResponse \<times> ('l, 'e, 'c) event_manager" where
  "call_listener cl l i ev em =
     (case listen cl l ev (cstate em) of (r, c, calls) \<Rightarrow>
        (r, em\<lparr>cstate := c, queues := fold do_call calls (queues em), trace := trace em @ [Called l i ev r]\<rparr>))"

definition call_completed :: "('l, 'e, 'c) client \<Rightarrow> 'e \<Rightarrow> EventHistory \<Rightarrow> ('l, 'e, 'c) event_manager
    \<Rightarrow> ('l, 'e, 'c) event_manager" where
  "call_completed cl ev h em =
     (case completed cl ev h (cstate em) of (c, calls) \<Rightarrow>
        em\<lparr>cstate := c, queues := fold do_call calls (queues em), trace := trace em @ [Completed ev h]\<rparr>)"

section \<open>Lists of listeners\<close>

definition list_at :: "(int \<rightharpoonup> 'l primary_info) \<Rightarrow> place \<Rightarrow> 'l listener_list option" where
  "list_at m p = (case m (at_primary p) of
     None \<Rightarrow> None
   | Some info \<Rightarrow> (case at_secondary p of
       None \<Rightarrow> Some (pri_lists info (at_order p))
     | Some s \<Rightarrow> map_option (\<lambda>ls. ls (at_order p)) (sec_map info s)))"

definition change_list :: "(int \<rightharpoonup> 'l primary_info) \<Rightarrow> place \<Rightarrow> ('l listener_list \<Rightarrow> 'l listener_list)
    \<Rightarrow> int \<rightharpoonup> 'l primary_info" where
  "change_list m p f = (case m (at_primary p) of
     None \<Rightarrow> m
   | Some info \<Rightarrow> m(at_primary p \<mapsto> (case at_secondary p of
       None \<Rightarrow> info\<lparr>pri_lists := (pri_lists info)(at_order p := f (pri_lists info (at_order p)))\<rparr>
     | Some s \<Rightarrow> (case sec_map info s of
         None \<Rightarrow> info
       | Some ls \<Rightarrow> info\<lparr>sec_map := (sec_map info)(s \<mapsto> ls(at_order p := f (ls (at_order p))))\<rparr>))))"

definition erase_at :: "nat \<Rightarrow> 'a list \<Rightarrow> 'a list" where
  "erase_at k xs = take k xs @ drop (Suc k) xs"

text \<open>The node an iterator of \<open>mRemoveById\<close> points to.\<close>

fun erase_node :: "int \<Rightarrow> 'l listener_list \<Rightarrow> 'l listener_list" where
  "erase_node i [] = []"
| "erase_node i ((l, j) # ls) = (if j = i then ls else (l, j) # erase_node i ls)"

section \<open>The manager\<close>

definition insertPriId :: "int \<Rightarrow> (int \<rightharpoonup> 'l primary_info) \<Rightarrow> int \<rightharpoonup> 'l primary_info" where
  "insertPriId pri m = (case m pri of
     Some _ \<Rightarrow> m
   | None \<Rightarrow> m(pri \<mapsto> \<lparr>pri_lists = (\<lambda>_. []), sec_map = (\<lambda>_. None)\<rparr>))"

definition insertSecId :: "int \<Rightarrow> secondary \<Rightarrow> (int \<rightharpoonup> 'l primary_info) \<Rightarrow> int \<rightharpoonup> 'l primary_info" where
  "insertSecId pri sec m = (case m pri of
     None \<Rightarrow> m
   | Some info \<Rightarrow> (case sec_map info sec of
       Some _ \<Rightarrow> m
     | None \<Rightarrow> m(pri \<mapsto> info\<lparr>sec_map := (sec_map info)(sec \<mapsto> (\<lambda>_. []))\<rparr>)))"

definition addListener :: "'l \<Rightarrow> int \<Rightarrow> 'l listener_list \<Rightarrow> 'l listener_list" where
  "addListener listener removeId insertList = (listener, removeId) # insertList"

definition doSubscribeId :: "int \<Rightarrow> id_pair \<Rightarrow> 'l \<Rightarrow> EventOrder \<Rightarrow> bool
    \<Rightarrow> ('l, 'e, 'c) event_manager \<Rightarrow> ('l, 'e, 'c) event_manager" where
  "doSubscribeId listenerId eventId listener ord onlyPrimary em =
     (let m = insertPriId (mPriId eventId) (mListeners em);
          p = \<lparr>at_primary = mPriId eventId,
               at_secondary = (if onlyPrimary then None else Some (mSecId eventId)), at_order = ord\<rparr>;
          m = (if onlyPrimary then m else insertSecId (mPriId eventId) (mSecId eventId) m);
          em = em\<lparr>mListeners := change_list m p (addListener listener listenerId)\<rparr>
      in if listenerId \<noteq> SubId_null \<and> mRemoveById em listenerId = None
         then em\<lparr>mRemoveById := (mRemoveById em)(listenerId \<mapsto> p)\<rparr> else em)"

definition clearRemoveId :: "int \<Rightarrow> ('l, 'e, 'c) event_manager \<Rightarrow> ('l, 'e, 'c) event_manager" where
  "clearRemoveId removeId em =
     (case mRemoveById em removeId of
        None \<Rightarrow> em
      | Some _ \<Rightarrow> em\<lparr>mRemoveById := (mRemoveById em)(removeId := None)\<rparr>)"

text \<open>\<open>cleanUp\<close> drops the entry of a secondary id whose lists are all empty.\<close>

definition cleanUp :: "int \<Rightarrow> secondary \<Rightarrow> (int \<rightharpoonup> 'l primary_info) \<Rightarrow> int \<rightharpoonup> 'l primary_info" where
  "cleanUp pri sec m = (case m pri of
     None \<Rightarrow> m
   | Some info \<Rightarrow> (case sec_map info sec of
       None \<Rightarrow> m
     | Some ls \<Rightarrow> if ls EARLY = [] \<and> ls MIDDLE = [] \<and> ls LATE = []
         then m(pri \<mapsto> info\<lparr>sec_map := (sec_map info)(sec := None)\<rparr>) else m))"

definition doUnsubscribe :: "('l, 'e, 'c) client \<Rightarrow> int \<Rightarrow> bool \<Rightarrow> ('l, 'e, 'c) event_manager
    \<Rightarrow> em_ub + ('l, 'e, 'c) event_manager" where
  "doUnsubscribe cl removeId notifyListener em =
     (case mRemoveById em removeId of
        None \<Rightarrow> Inr em
      | Some p \<Rightarrow> (case list_at (mListeners em) p of
          None \<Rightarrow> Inl Dangling_iterator
        | Some ls \<Rightarrow> (case find (\<lambda>(l, i). i = removeId) ls of
            None \<Rightarrow> Inl Dangling_iterator
          | Some (l, _) \<Rightarrow>
              let em = (if notifyListener then snd (call_listener cl l removeId None em) else em);
                  m = change_list (mListeners em) p (erase_node removeId);
                  em = em\<lparr>mRemoveById := (mRemoveById em)(removeId := None)\<rparr>
              in (case at_secondary p of
                    None \<Rightarrow> Inr (em\<lparr>mListeners := m\<rparr>)
                  | Some s \<Rightarrow>
                      if list_at m p = None then Inl Missing_secondary
                      else Inr (em\<lparr>mListeners := cleanUp (at_primary p) s m\<rparr>)))))"

text \<open>
  \<open>callAllListeners\<close> walks the list that was there when it started; \<open>k\<close> is the position of the
  current node in the list as it is now.
\<close>

fun call_all :: "('l, 'e, 'c) client \<Rightarrow> 'e \<Rightarrow> place \<Rightarrow> nat \<Rightarrow> 'l listener_list \<Rightarrow> ('l, 'e, 'c) event_manager
    \<Rightarrow> bool \<times> ('l, 'e, 'c) event_manager" where
  "call_all cl ev p k [] em = (False, em)"
| "call_all cl ev p k ((l, i) # rest) em =
     (let (resp, em) = call_listener cl l i (Some ev) em;
          em = (if deletes resp then
                  let em = (if i \<noteq> SubId_null then clearRemoveId i em else em)
                  in em\<lparr>mListeners := change_list (mListeners em) p (erase_at k)\<rparr>
                else em);
          (cancel, em) = call_all cl ev p (if deletes resp then k else Suc k) rest em
      in (cancels resp \<or> cancel, em))"

definition callAllListeners :: "('l, 'e, 'c) client \<Rightarrow> 'e \<Rightarrow> place \<Rightarrow> ('l, 'e, 'c) event_manager
    \<Rightarrow> bool \<times> ('l, 'e, 'c) event_manager" where
  "callAllListeners cl ev p em =
     (case list_at (mListeners em) p of None \<Rightarrow> (False, em) | Some ls \<Rightarrow> call_all cl ev p 0 ls em)"

text \<open>
  One order of one event: the listeners of the primary id, then, when the secondary id has an entry
  with listeners, those. Returns whether the event was cancelled and whether a listener was there.
\<close>

definition nonempty_at :: "(int \<rightharpoonup> 'l primary_info) \<Rightarrow> place \<Rightarrow> bool" where
  "nonempty_at m p \<longleftrightarrow> (case list_at m p of None \<Rightarrow> False | Some ls \<Rightarrow> ls \<noteq> [])"

definition fire_order :: "('l, 'e, 'c) client \<Rightarrow> 'e \<Rightarrow> EventOrder \<Rightarrow> ('l, 'e, 'c) event_manager
    \<Rightarrow> bool \<times> bool \<times> ('l, 'e, 'c) event_manager" where
  "fire_order cl ev ord em =
     (let i = getId cl ev;
          pp = \<lparr>at_primary = mPriId i, at_secondary = None, at_order = ord\<rparr>;
          ps = \<lparr>at_primary = mPriId i, at_secondary = Some (mSecId i), at_order = ord\<rparr>;
          handled = nonempty_at (mListeners em) pp;
          (cancel, em) = callAllListeners cl ev pp em
      in if nonempty_at (mListeners em) ps then
           let (cancel', em) = callAllListeners cl ev ps em in (cancel \<or> cancel', True, em)
         else (cancel, handled, em))"

fun fire_orders :: "('l, 'e, 'c) client \<Rightarrow> 'e \<Rightarrow> EventOrder list \<Rightarrow> ('l, 'e, 'c) event_manager
    \<Rightarrow> bool \<times> bool \<times> ('l, 'e, 'c) event_manager" where
  "fire_orders cl ev [] em = (False, False, em)"
| "fire_orders cl ev (ord # ords) em =
     (let (cancel, handled, em) = fire_order cl ev ord em in
      if cancel then (True, handled, em)
      else let (cancel, handled', em) = fire_orders cl ev ords em in (cancel, handled \<or> handled', em))"

definition process_event :: "('l, 'e, 'c) client \<Rightarrow> 'e \<Rightarrow> ('l, 'e, 'c) event_manager \<Rightarrow> ('l, 'e, 'c) event_manager" where
  "process_event cl ev em =
     (if mListeners em (mPriId (getId cl ev)) = None then em
      else let (cancel, handled, em) = fire_orders cl ev [EARLY, MIDDLE, LATE] em;
               em = em\<lparr>mListeners := cleanUp (mPriId (getId cl ev)) (mSecId (getId cl ev)) (mListeners em)\<rparr>
           in call_completed cl ev
                (if cancel then EVENT_CANCELED else if handled then EVENT_HANDLED else EVENT_UNHANDLED) em)"

fun process_request :: "('l, 'e, 'c) client \<Rightarrow> 'l ListenerRequest \<Rightarrow> ('l, 'e, 'c) event_manager
    \<Rightarrow> em_ub + ('l, 'e, 'c) event_manager" where
  "process_request cl (Subscription i e l ord only) em = Inr (doSubscribeId i e l ord only em)"
| "process_request cl (Unsubscription i n) em = doUnsubscribe cl i n em"

fun process_requests :: "('l, 'e, 'c) client \<Rightarrow> 'l ListenerRequest list \<Rightarrow> ('l, 'e, 'c) event_manager
    \<Rightarrow> em_ub + ('l, 'e, 'c) event_manager" where
  "process_requests cl [] em = Inr em"
| "process_requests cl (r # rs) em = sum_bind (process_request cl r em) (process_requests cl rs)"

text \<open>Both queues are emptied first, the events before the requests.\<close>

definition temporary_processEventQueue :: "('l, 'e, 'c) client \<Rightarrow> ('l, 'e, 'c) event_manager
    \<Rightarrow> em_ub + ('l, 'e, 'c) event_manager" where
  "temporary_processEventQueue cl em =
     (let q = queues em;
          (evs, u) = tsq_take_all (mUnprocessed q);
          (reqs, r) = tsq_take_all (mListenerRequests q);
          em = em\<lparr>queues := q\<lparr>mUnprocessed := u, mListenerRequests := r\<rparr>\<rparr>
      in sum_bind (process_requests cl reqs em) (\<lambda>em.
           let em = fold (process_event cl) evs em; q = queues em in
           Inr (if usesCV q then em\<lparr>queues := q\<lparr>mPendingEvents := mPendingEvents q - int (length evs)\<rparr>\<rparr>
                else em)))"

definition EventManager_init :: "bool \<Rightarrow> int \<Rightarrow> 'c \<Rightarrow> ('l, 'e, 'c) event_manager" where
  "EventManager_init cv n c =
     \<lparr>queues = \<lparr>mUnprocessed = tsq_init, mListenerRequests = tsq_init, subIds = n, usesCV = cv, mPendingEvents = 0\<rparr>,
      mListeners = (\<lambda>_. None), mRemoveById = (\<lambda>_. None), cstate = c, trace = []\<rparr>"

section \<open>Contents of the lists\<close>

definition content :: "(int \<rightharpoonup> 'l primary_info) \<Rightarrow> place \<Rightarrow> 'l listener_list" where
  "content m p = (case list_at m p of None \<Rightarrow> [] | Some ls \<Rightarrow> ls)"

lemma list_at_change:
  "list_at (change_list m p f) p' = (if p' = p then map_option f (list_at m p) else list_at m p')"
proof (cases "m (at_primary p)")
  case None
  then show ?thesis by (auto simp: list_at_def change_list_def)
next
  case (Some info)
  show ?thesis
  proof (cases "p' = p")
    case True
    with Some show ?thesis
      by (cases "at_secondary p") (auto simp: list_at_def change_list_def split: option.splits)
  next
    case False
    then have "at_primary p' \<noteq> at_primary p \<or> at_secondary p' \<noteq> at_secondary p \<or> at_order p' \<noteq> at_order p"
      by (metis place.equality old.unit.exhaust)
    with Some False show ?thesis
      by (cases "at_secondary p"; cases "at_secondary p'")
         (auto simp: list_at_def change_list_def split: option.splits)
  qed
qed

lemma content_change:
  "content (change_list m p f) p' = (if p' = p \<and> list_at m p \<noteq> None then f (content m p) else content m p')"
  by (auto simp: content_def list_at_change split: option.splits)

lemma content_insertPriId [simp]: "content (insertPriId pri m) p = content m p"
  by (auto simp: content_def list_at_def insertPriId_def split: option.splits)

lemma content_insertSecId [simp]: "content (insertSecId pri sec m) p = content m p"
  by (auto simp: content_def list_at_def insertSecId_def split: option.splits)

lemma content_cleanUp:
  assumes "\<And>p. at_order p = NUM_EVENTORDER \<Longrightarrow> content m p = []"
  shows "content (cleanUp pri sec m) p = content m p"
proof (cases "m pri")
  case (Some info)
  show ?thesis
  proof (cases "sec_map info sec")
    case s: (Some ls)
    have "ls NUM_EVENTORDER = []"
      using assms [of "\<lparr>at_primary = pri, at_secondary = Some sec, at_order = NUM_EVENTORDER\<rparr>"] Some s
      by (simp add: content_def list_at_def)
    then have "ls ord = []" if "ls EARLY = [] \<and> ls MIDDLE = [] \<and> ls LATE = []" for ord
      using that by (cases ord) auto
    then have "content m p = []" if "ls EARLY = [] \<and> ls MIDDLE = [] \<and> ls LATE = []"
        "at_primary p = pri" "at_secondary p = Some sec"
      using that Some s by (simp add: content_def list_at_def)
    moreover have "content (m(pri \<mapsto> info\<lparr>sec_map := (sec_map info)(sec := None)\<rparr>)) p
        = (if at_primary p = pri \<and> at_secondary p = Some sec then [] else content m p)"
      using Some by (cases "at_secondary p") (simp_all add: content_def list_at_def)
    ultimately show ?thesis using Some s by (simp add: cleanUp_def)
  qed (simp add: cleanUp_def Some)
qed (simp add: cleanUp_def)

lemma list_at_content: "content m p \<noteq> [] \<Longrightarrow> list_at m p = Some (content m p)"
  by (auto simp: content_def split: option.splits)

section \<open>The invariant\<close>

definition ids_of :: "'l listener_list \<Rightarrow> int list" where
  "ids_of ls = filter (\<lambda>i. i \<noteq> SubId_null) (map snd ls)"

text \<open>The lists and \<open>mRemoveById\<close> are in sync, each subscription id is at one node only.\<close>

definition lists_ok :: "(int \<rightharpoonup> 'l primary_info) \<Rightarrow> (int \<rightharpoonup> place) \<Rightarrow> bool" where
  "lists_ok m r \<longleftrightarrow> (\<forall>p i. i \<in> set (ids_of (content m p)) \<longleftrightarrow> r i = Some p)
     \<and> (\<forall>p. distinct (ids_of (content m p)))
     \<and> (\<forall>p. at_order p = NUM_EVENTORDER \<longrightarrow> content m p = [])"

fun request_ids :: "'l ListenerRequest \<Rightarrow> int list" where
  "request_ids (Subscription i _ _ _ _) = (if i = SubId_null then [] else [i])"
| "request_ids (Unsubscription _ _) = []"

fun request_order :: "'l ListenerRequest \<Rightarrow> bool" where
  "request_order (Subscription _ _ _ ord _) \<longleftrightarrow> ord \<noteq> NUM_EVENTORDER"
| "request_order (Unsubscription _ _) \<longleftrightarrow> True"

text \<open>Ids of queued subscriptions are fresh.\<close>

definition requests_ok :: "'l ListenerRequest list \<Rightarrow> (int \<rightharpoonup> place) \<Rightarrow> int \<Rightarrow> bool" where
  "requests_ok rs r n \<longleftrightarrow> distinct (concat (map request_ids rs)) \<and> list_all request_order rs
     \<and> (\<forall>i\<in>set (concat (map request_ids rs)). r i = None \<and> i < n) \<and> (\<forall>i\<in>dom r. i < n) \<and> 0 \<le> n"

definition em_inv :: "'l ListenerRequest list \<Rightarrow> ('l, 'e, 'c) event_manager \<Rightarrow> bool" where
  "em_inv rs em \<longleftrightarrow> lists_ok (mListeners em) (mRemoveById em)
     \<and> requests_ok (rs @ mList (mListenerRequests (queues em))) (mRemoveById em) (subIds (queues em))"

definition em_ok :: "('l, 'e, 'c) event_manager \<Rightarrow> bool" where
  "em_ok em \<longleftrightarrow> em_inv [] em"

text \<open>An id that was handed out and is neither in a list nor in a queued subscription stays dead.\<close>

definition dead :: "int \<Rightarrow> 'l ListenerRequest list \<Rightarrow> ('l, 'e, 'c) event_manager \<Rightarrow> bool" where
  "dead i rs em \<longleftrightarrow> i \<noteq> SubId_null \<and> i < subIds (queues em) \<and> mRemoveById em i = None
     \<and> i \<notin> set (concat (map request_ids (rs @ mList (mListenerRequests (queues em)))))"

subsection \<open>Calls of clients\<close>

text \<open>What a call does to the queue of requests: nothing, one without id, or one with the next id.\<close>

definition pushes :: "'l ListenerRequest list \<Rightarrow> int \<Rightarrow> ('l, 'e) em_queues \<Rightarrow> ('l, 'e) em_queues \<Rightarrow> bool" where
  "pushes new n q q' \<longleftrightarrow> mList (mListenerRequests q') = mList (mListenerRequests q) @ new \<and> subIds q' = n"

lemma do_call_pushes:
  obtains "pushes [] (subIds q) q (do_call c q)"
  | r where "pushes [r] (subIds q) q (do_call c q)" "request_ids r = []" "request_order r"
  | r where "pushes [r] (subIds q + 1) q (do_call c q)"
      "request_ids r = (if subIds q = SubId_null then [] else [subIds q])" "request_order r"
proof (cases c)
  case (Subscribe i l ord)
  then show thesis using that by (cases "ord = NUM_EVENTORDER")
    (auto simp: pushes_def subscribe_def tsq_push_def)
next
  case (Subscribe_primary i l ord)
  then show thesis using that by (cases "ord = NUM_EVENTORDER")
    (auto simp: pushes_def subscribe_primary_def tsq_push_def)
next
  case (SubscribeId i l ord)
  then show thesis using that by (cases "ord = NUM_EVENTORDER")
    (auto simp: pushes_def subscribeId_def tsq_push_def IncreasingSubId_alloc_def)
next
  case (SubscribeId_primary i l ord)
  then show thesis using that by (cases "ord = NUM_EVENTORDER")
    (auto simp: pushes_def subscribeId_primary_def tsq_push_def IncreasingSubId_alloc_def)
next
  case (Unsubscribe i n)
  then show thesis using that by (auto simp: pushes_def unsubscribe_def tsq_push_def)
next
  case (Fire e)
  then show thesis using that by (auto simp: pushes_def fire_def Let_def)
qed

text \<open>The invariant of the requests, and of a dead id, as one statement about a queue.\<close>

definition reqs_inv :: "'l ListenerRequest list \<Rightarrow> (int \<rightharpoonup> place) \<Rightarrow> ('l, 'e) em_queues \<Rightarrow> bool" where
  "reqs_inv rs r q \<longleftrightarrow> requests_ok (rs @ mList (mListenerRequests q)) r (subIds q)"

definition dead_id :: "int \<Rightarrow> 'l ListenerRequest list \<Rightarrow> ('l, 'e) em_queues \<Rightarrow> bool" where
  "dead_id i rs q \<longleftrightarrow> i < subIds q \<and> i \<notin> set (concat (map request_ids (rs @ mList (mListenerRequests q))))"

lemma requests_ok_push:
  assumes "requests_ok rs r n" "request_order x" "request_ids x = [n]"
  shows "requests_ok (rs @ [x]) r (n + 1)"
proof -
  let ?xs = "concat (map request_ids rs)"
  have eq: "concat (map request_ids (rs @ [x])) = ?xs @ [n]" by (simp add: assms(3))
  have old: "distinct ?xs" "list_all request_order rs" "\<And>i. i \<in> set ?xs \<Longrightarrow> r i = None \<and> i < n"
      "\<And>i. i \<in> dom r \<Longrightarrow> i < n" "0 \<le> n"
    using assms(1) unfolding requests_ok_def by blast+
  have n: "n \<notin> set ?xs" "r n = None" using old(3) [of n] old(4) [of n] by (blast, metis domIff less_irrefl)
  show ?thesis unfolding requests_ok_def eq
  proof (intro conjI ballI)
    show "distinct (?xs @ [n])" using old(1) n by simp
    show "list_all request_order (rs @ [x])" using old(2) assms(2) by simp
    show "r i = None" "i < n + 1" if "i \<in> set (?xs @ [n])" for i
    proof -
      have "i \<in> set ?xs \<or> i = n" using that by (metis Un_iff empty_iff list.set(1) set_ConsD set_append)
      then have "r i = None \<and> i \<le> n" using old(3) [of i] n(2) by (metis order.strict_implies_order order_refl)
      then show "r i = None" "i < n + 1" by auto
    qed
    show "i < n + 1" if "i \<in> dom r" for i using old(4) [OF that] by simp
    show "0 \<le> n + 1" using old(5) by simp
  qed
qed

lemma do_call_inv: "reqs_inv rs r q \<Longrightarrow> reqs_inv rs r (do_call c q)"
proof (cases rule: do_call_pushes [of q c])
  case (3 x)
  assume "reqs_inv rs r q"
  then have ok: "requests_ok (rs @ mList (mListenerRequests q)) r (subIds q)" by (simp add: reqs_inv_def)
  then have "subIds q \<noteq> SubId_null" by (auto simp: requests_ok_def SubId_null_def)
  with requests_ok_push [OF ok 3(3)] 3 show ?thesis by (simp add: reqs_inv_def pushes_def)
qed (auto simp: reqs_inv_def requests_ok_def pushes_def)

lemma do_call_dead: "dead_id i rs q \<Longrightarrow> dead_id i rs (do_call c q)"
  by (cases rule: do_call_pushes [of q c]) (auto simp: dead_id_def pushes_def split: if_splits)

lemma fold_do_call: "reqs_inv rs r q \<Longrightarrow> reqs_inv rs r (fold do_call cs q)"
  "dead_id i rs q \<Longrightarrow> dead_id i rs (fold do_call cs q)"
  by (induction cs arbitrary: q) (simp_all add: do_call_inv do_call_dead)

lemma em_inv_iff: "em_inv rs em \<longleftrightarrow> lists_ok (mListeners em) (mRemoveById em) \<and> reqs_inv rs (mRemoveById em) (queues em)"
  by (simp add: em_inv_def reqs_inv_def)

lemma dead_iff: "dead i rs em \<longleftrightarrow> i \<noteq> SubId_null \<and> mRemoveById em i = None \<and> dead_id i rs (queues em)"
  by (auto simp: dead_def dead_id_def)

lemma call_listener_ok:
  assumes "call_listener cl l i ev em = (r, em')"
  shows "mListeners em' = mListeners em" "mRemoveById em' = mRemoveById em" "trace em' = trace em @ [Called l i ev r]"
    "em_inv rs em \<Longrightarrow> em_inv rs em'" "dead j rs em \<Longrightarrow> dead j rs em'"
  using assms fold_do_call
  by (auto simp: call_listener_def em_inv_iff dead_iff split: prod.splits)

lemma call_completed_ok:
  shows "mListeners (call_completed cl ev h em) = mListeners em"
    "trace (call_completed cl ev h em) = trace em @ [Completed ev h]"
    "em_inv rs em \<Longrightarrow> em_inv rs (call_completed cl ev h em)" "dead j rs em \<Longrightarrow> dead j rs (call_completed cl ev h em)"
  using fold_do_call by (auto simp: call_completed_def em_inv_iff dead_iff split: prod.splits)

subsection \<open>Adding and removing nodes\<close>

lemma ids_of_simps [simp]:
  "ids_of [] = []" "ids_of ((l, i) # ls) = (if i = SubId_null then ids_of ls else i # ids_of ls)"
  "ids_of (xs @ ys) = ids_of xs @ ids_of ys"
  by (simp_all add: ids_of_def)

lemma lists_okD:
  assumes "lists_ok m r"
  shows "i \<in> set (ids_of (content m p)) \<longleftrightarrow> r i = Some p" "distinct (ids_of (content m p))"
    "at_order p = NUM_EVENTORDER \<Longrightarrow> content m p = []"
  using assms by (simp_all add: lists_ok_def)

lemma lists_ok_content: "(\<And>p. content m' p = content m p) \<Longrightarrow> lists_ok m r \<Longrightarrow> lists_ok m' r"
  by (simp add: lists_ok_def)

lemma requests_ok_remove: "requests_ok rs r n \<Longrightarrow> requests_ok rs (r(i := None)) n"
  by (auto simp: requests_ok_def)

lemma lists_ok_add:
  assumes ok: "lists_ok m r" and c: "\<And>p'. content m' p' = (if p' = p then (l, i) # content m p else content m p')"
    and i: "i \<noteq> SubId_null \<Longrightarrow> r i = None" and ord: "at_order p \<noteq> NUM_EVENTORDER"
  shows "lists_ok m' (if i = SubId_null then r else r(i \<mapsto> p))"
  unfolding lists_ok_def
proof (intro conjI allI impI)
  fix p' j
  show "j \<in> set (ids_of (content m' p')) \<longleftrightarrow> (if i = SubId_null then r else r(i \<mapsto> p)) j = Some p'"
    using lists_okD(1) [OF ok, of j p'] i by (auto simp: c)
  show "distinct (ids_of (content m' p'))"
    using lists_okD(2) [OF ok, of p'] lists_okD(1) [OF ok, of i p'] i by (auto simp: c)
  show "content m' p' = []" if "at_order p' = NUM_EVENTORDER"
    using that lists_okD(3) [OF ok, of p'] ord by (auto simp: c)
qed

lemma lists_ok_remove:
  assumes ok: "lists_ok m r" and c: "content m p = pre @ (l, i) # post"
    and c': "\<And>p'. content m' p' = (if p' = p then pre @ post else content m p')"
  shows "lists_ok m' (if i = SubId_null then r else r(i := None))"
  unfolding lists_ok_def
proof (intro conjI allI impI)
  fix p' j
  have d: "distinct (ids_of (content m p))" using lists_okD(2) [OF ok] .
  have ri: "r i = Some p" if "i \<noteq> SubId_null" using lists_okD(1) [OF ok, of i p] that by (simp add: c)
  show "j \<in> set (ids_of (content m' p')) \<longleftrightarrow> (if i = SubId_null then r else r(i := None)) j = Some p'"
    using lists_okD(1) [OF ok, of j p'] ri d by (cases "i = SubId_null") (auto simp: c' c)
  show "distinct (ids_of (content m' p'))"
    using lists_okD(2) [OF ok, of p'] by (auto simp: c' c split: if_splits)
  show "content m' p' = []" if "at_order p' = NUM_EVENTORDER"
    using that lists_okD(3) [OF ok, of p'] by (auto simp: c' c)
qed

lemma erase_at_append [simp]: "erase_at (length pre) (pre @ x # post) = pre @ post"
  by (simp add: erase_at_def)

lemma erase_node_first:
  "find (\<lambda>(l, j). j = i) ls = Some (l, j) \<Longrightarrow> \<exists>pre post. ls = pre @ (l, i) # post \<and> erase_node i ls = pre @ post"
proof (induction ls)
  case (Cons x ls)
  show ?case
  proof (cases "snd x = i")
    case True
    then have "x # ls = [] @ (l, i) # ls \<and> erase_node i (x # ls) = [] @ ls" using Cons.prems by (cases x) auto
    then show ?thesis by blast
  next
    case False
    then obtain pre post where "ls = pre @ (l, i) # post" "erase_node i ls = pre @ post" using Cons by (cases x) auto
    then have "x # ls = (x # pre) @ (l, i) # post \<and> erase_node i (x # ls) = (x # pre) @ post"
      using False by (cases x) auto
    then show ?thesis by blast
  qed
qed simp

subsection \<open>Walking a list\<close>

definition walked :: "'l ListenerRequest list \<Rightarrow> place \<Rightarrow> ('l, 'e, 'c) event_manager \<Rightarrow> ('l, 'e, 'c) event_manager \<Rightarrow> bool" where
  "walked rs p em em' \<longleftrightarrow> em_inv rs em' \<and> (\<forall>p'. p' \<noteq> p \<longrightarrow> content (mListeners em') p' = content (mListeners em) p')
     \<and> (\<forall>p'. list_at (mListeners em') p' = None \<longleftrightarrow> list_at (mListeners em) p' = None)
     \<and> (\<forall>i. dead i rs em \<longrightarrow> dead i rs em')"

lemma walked_trans: "walked rs p em em' \<Longrightarrow> walked rs p em' em'' \<Longrightarrow> walked rs p em em''"
  by (simp add: walked_def)

lemma delete_current_ok:
  assumes inv: "em_inv rs em" and c: "content (mListeners em) p = pre @ (l, i) # rest"
  defines "em1 \<equiv> (if i \<noteq> SubId_null then clearRemoveId i em else em)"
  defines "em' \<equiv> em1\<lparr>mListeners := change_list (mListeners em1) p (erase_at (length pre))\<rparr>"
  shows "walked rs p em em' \<and> content (mListeners em') p = pre @ rest \<and> trace em' = trace em"
proof -
  have ok: "lists_ok (mListeners em) (mRemoveById em)" and q: "reqs_inv rs (mRemoveById em) (queues em)"
    using inv by (simp_all add: em_inv_iff)
  have m1: "mListeners em1 = mListeners em" "queues em1 = queues em" "trace em1 = trace em"
    by (simp_all add: em1_def clearRemoveId_def split: option.splits)
  have "mRemoveById em i = Some p" if "i \<noteq> SubId_null" using lists_okD(1) [OF ok, of i p] that by (simp add: c)
  then have r: "mRemoveById em1 = (if i = SubId_null then mRemoveById em else (mRemoveById em)(i := None))"
    by (simp add: em1_def clearRemoveId_def)
  have la: "list_at (mListeners em) p \<noteq> None" using list_at_content [of "mListeners em" p] c by simp
  have c': "content (mListeners em') p' = (if p' = p then pre @ rest else content (mListeners em) p')" for p'
    using la by (simp add: em'_def m1 content_change c)
  have "lists_ok (mListeners em') (mRemoveById em')"
    using lists_ok_remove [OF ok c c'] r by (simp add: em'_def)
  moreover have "reqs_inv rs (mRemoveById em') (queues em')"
    using q requests_ok_remove [of _ "mRemoveById em"] by (auto simp: em'_def m1 r reqs_inv_def)
  moreover have "list_at (mListeners em') p' = None \<longleftrightarrow> list_at (mListeners em) p' = None" for p'
    by (auto simp: em'_def m1 list_at_change)
  moreover have "dead j rs em \<Longrightarrow> dead j rs em'" for j
    by (auto simp: dead_iff em'_def m1 r)
  ultimately show ?thesis using c' by (simp add: walked_def em_inv_iff em'_def m1)
qed

text \<open>The calls of one walk, which of them cancel the event, and the listeners that stay.\<close>

definition calls_to :: "'e \<Rightarrow> 'l listener_list \<Rightarrow> ('l, 'e) em_call_trace list \<Rightarrow> bool" where
  "calls_to ev ls cs \<longleftrightarrow> list_all2 (\<lambda>(l, i) c. \<exists>r. c = Called l i (Some ev) r) ls cs"

fun call_cancels :: "('l, 'e) em_call_trace \<Rightarrow> bool" where
  "call_cancels (Called l i ev r) \<longleftrightarrow> cancels r"
| "call_cancels (Completed ev h) \<longleftrightarrow> False"

fun call_deletes :: "('l, 'e) em_call_trace \<Rightarrow> bool" where
  "call_deletes (Called l i ev r) \<longleftrightarrow> deletes r"
| "call_deletes (Completed ev h) \<longleftrightarrow> False"

definition survivors :: "'l listener_list \<Rightarrow> ('l, 'e) em_call_trace list \<Rightarrow> 'l listener_list" where
  "survivors ls cs = map fst (filter (\<lambda>(x, c). \<not> call_deletes c) (zip ls cs))"

lemma calls_to_member: "calls_to ev ls cs \<Longrightarrow> c \<in> set cs \<Longrightarrow> \<exists>l i r. (l, i) \<in> set ls \<and> c = Called l i (Some ev) r"
  unfolding calls_to_def by (induction rule: list_all2_induct) auto

lemma calls_to_append: "calls_to ev xs as \<Longrightarrow> calls_to ev ys bs \<Longrightarrow> calls_to ev (xs @ ys) (as @ bs)"
  by (simp add: calls_to_def list_all2_appendI)

lemma call_all_ok:
  assumes "em_inv rs em" "content (mListeners em) p = pre @ todo"
  shows "\<exists>em' cs. call_all cl ev p (length pre) todo em = (list_ex call_cancels cs, em') \<and> walked rs p em em'
    \<and> content (mListeners em') p = pre @ survivors todo cs \<and> calls_to ev todo cs \<and> trace em' = trace em @ cs"
  using assms
proof (induction todo arbitrary: pre em)
  case Nil
  then have "call_all cl ev p (length pre) [] em = (list_ex call_cancels [], em) \<and> walked rs p em em
    \<and> content (mListeners em) p = pre @ survivors [] [] \<and> calls_to ev [] [] \<and> trace em = trace em @ []"
    by (simp add: walked_def survivors_def calls_to_def)
  then show ?case by blast
next
  case (Cons x rest)
  obtain l i where x: "x = (l, i)" by (cases x)
  obtain r em1 where r: "call_listener cl l i (Some ev) em = (r, em1)" by (cases "call_listener cl l i (Some ev) em")
  note c1 = call_listener_ok [OF r]
  let ?c = "Called l i (Some ev) r"
  have inv1: "em_inv rs em1" using c1(4) Cons.prems(1) .
  have w1: "walked rs p em em1" using c1(1,5) inv1 by (simp add: walked_def)
  have step: ?case if IH: "call_all cl ev p (length pre) (x # rest) em = (cancels r \<or> list_ex call_cancels cs, em')"
      "walked rs p em em'" "content (mListeners em') p = pre @ (if deletes r then [] else [x]) @ survivors rest cs"
      "calls_to ev rest cs" "trace em' = trace em1 @ cs" for em' cs
  proof -
    have "call_all cl ev p (length pre) (x # rest) em = (list_ex call_cancels (?c # cs), em')
      \<and> content (mListeners em') p = pre @ survivors (x # rest) (?c # cs)
      \<and> calls_to ev (x # rest) (?c # cs) \<and> trace em' = trace em @ (?c # cs)"
      using IH c1(3) by (simp add: x survivors_def calls_to_def)
    then show ?thesis using IH(2) by blast
  qed
  show ?case
  proof (cases "deletes r")
    case True
    define em2 where "em2 = (let em = (if i \<noteq> SubId_null then clearRemoveId i em1 else em1)
      in em\<lparr>mListeners := change_list (mListeners em) p (erase_at (length pre))\<rparr>)"
    have "content (mListeners em1) p = pre @ (l, i) # rest" using Cons.prems(2) x c1(1) by simp
    from delete_current_ok [OF inv1 this]
    have w2: "walked rs p em1 em2" "content (mListeners em2) p = pre @ rest" "trace em2 = trace em1"
      by (simp_all add: em2_def Let_def)
    have "em_inv rs em2" using w2(1) by (simp add: walked_def)
    from Cons.IH [OF this w2(2)] obtain em' cs where IH:
      "call_all cl ev p (length pre) rest em2 = (list_ex call_cancels cs, em')" "walked rs p em2 em'"
      "content (mListeners em') p = pre @ survivors rest cs" "calls_to ev rest cs" "trace em' = trace em2 @ cs" by blast
    have "call_all cl ev p (length pre) (x # rest) em = (cancels r \<or> list_ex call_cancels cs, em')"
      using r True IH(1) by (simp add: x em2_def Let_def)
    moreover have "walked rs p em em'" using w1 w2(1) IH(2) walked_trans by blast
    ultimately show ?thesis using step [of cs em'] IH True w2(3) by simp
  next
    case False
    have "content (mListeners em1) p = (pre @ [x]) @ rest" using Cons.prems(2) c1(1) by simp
    from Cons.IH [OF inv1 this] obtain em' cs where IH:
      "call_all cl ev p (length (pre @ [x])) rest em1 = (list_ex call_cancels cs, em')" "walked rs p em1 em'"
      "content (mListeners em') p = (pre @ [x]) @ survivors rest cs" "calls_to ev rest cs" "trace em' = trace em1 @ cs" by blast
    have "call_all cl ev p (length pre) (x # rest) em = (cancels r \<or> list_ex call_cancels cs, em')"
      using r False IH(1) by (simp add: x)
    moreover have "walked rs p em em'" using w1 IH(2) walked_trans by blast
    ultimately show ?thesis using step [of cs em'] IH False by simp
  qed
qed

lemma callAllListeners_ok:
  assumes "em_inv rs em"
  shows "\<exists>em' cs. callAllListeners cl ev p em = (list_ex call_cancels cs, em') \<and> walked rs p em em'
    \<and> content (mListeners em') p = survivors (content (mListeners em) p) cs
    \<and> calls_to ev (content (mListeners em) p) cs \<and> trace em' = trace em @ cs"
proof (cases "list_at (mListeners em) p")
  case None
  then have c: "content (mListeners em) p = []" by (simp add: content_def)
  from call_all_ok [OF assms, of p "[]" "[]"] None c show ?thesis
    by (auto simp: callAllListeners_def)
next
  case (Some ls)
  then have c: "content (mListeners em) p = [] @ ls" by (simp add: content_def)
  from call_all_ok [OF assms c, of cl ev] Some c show ?thesis
    by (auto simp: callAllListeners_def)
qed

subsection \<open>Events\<close>

definition pri_place :: "id_pair \<Rightarrow> EventOrder \<Rightarrow> place" where
  "pri_place i ord = \<lparr>at_primary = mPriId i, at_secondary = None, at_order = ord\<rparr>"

definition sec_place :: "id_pair \<Rightarrow> EventOrder \<Rightarrow> place" where
  "sec_place i ord = \<lparr>at_primary = mPriId i, at_secondary = Some (mSecId i), at_order = ord\<rparr>"

text \<open>The listeners of an order, in the order they are called.\<close>

definition order_listeners :: "(int \<rightharpoonup> 'l primary_info) \<Rightarrow> id_pair \<Rightarrow> EventOrder \<Rightarrow> 'l listener_list" where
  "order_listeners m i ord = content m (pri_place i ord) @ content m (sec_place i ord)"

lemma places_distinct: "pri_place i o1 \<noteq> sec_place i o2" "o1 \<noteq> o2 \<Longrightarrow> pri_place i o1 \<noteq> pri_place i o2"
  "o1 \<noteq> o2 \<Longrightarrow> sec_place i o1 \<noteq> sec_place i o2" "sec_place i o1 \<noteq> pri_place i o2"
  by (simp_all add: pri_place_def sec_place_def)

definition fired :: "'l ListenerRequest list \<Rightarrow> ('l, 'e, 'c) event_manager \<Rightarrow> ('l, 'e, 'c) event_manager \<Rightarrow> bool" where
  "fired rs em em' \<longleftrightarrow> em_inv rs em' \<and> (\<forall>i. dead i rs em \<longrightarrow> dead i rs em')
     \<and> (\<forall>p'. list_at (mListeners em') p' = None \<longleftrightarrow> list_at (mListeners em) p' = None)"

lemma fired_trans: "fired rs em em' \<Longrightarrow> fired rs em' em'' \<Longrightarrow> fired rs em em''"
  by (simp add: fired_def)

lemma fire_order_ok:
  assumes inv: "em_inv rs em"
  shows "\<exists>em' cs. fire_order cl ev ord em
      = (list_ex call_cancels cs, order_listeners (mListeners em) (getId cl ev) ord \<noteq> [], em')
    \<and> fired rs em em' \<and> calls_to ev (order_listeners (mListeners em) (getId cl ev) ord) cs \<and> trace em' = trace em @ cs
    \<and> (\<forall>o'. o' \<noteq> ord \<longrightarrow> order_listeners (mListeners em') (getId cl ev) o' = order_listeners (mListeners em) (getId cl ev) o')"
proof -
  let ?i = "getId cl ev" let ?pp = "pri_place ?i ord" let ?ps = "sec_place ?i ord"
  obtain em1 c1 where w1: "callAllListeners cl ev ?pp em = (list_ex call_cancels c1, em1)" "walked rs ?pp em em1"
      "calls_to ev (content (mListeners em) ?pp) c1" "trace em1 = trace em @ c1"
    using callAllListeners_ok [OF inv] by blast
  have inv1: "em_inv rs em1" using w1(2) by (simp add: walked_def)
  have c1: "content (mListeners em1) p = content (mListeners em) p" if "p \<noteq> ?pp" for p using w1(2) that by (simp add: walked_def)
  have ne: "nonempty_at m p \<longleftrightarrow> content m p \<noteq> []" for m :: "int \<rightharpoonup> 'l primary_info" and p
    by (simp add: nonempty_at_def content_def split: option.splits)
  have ps: "content (mListeners em1) ?ps = content (mListeners em) ?ps" using c1 places_distinct(1) by metis
  show ?thesis
  proof (cases "content (mListeners em) ?ps = []")
    case True
    then have "fire_order cl ev ord em = (list_ex call_cancels c1, content (mListeners em) ?pp \<noteq> [], em1)"
      using w1(1) ps by (simp add: fire_order_def pri_place_def [symmetric] sec_place_def [symmetric] ne)
    moreover have "fired rs em em1" using w1(2) by (simp add: fired_def walked_def)
    ultimately show ?thesis
      using True w1(3,4) c1 places_distinct [where i = "?i"] by (auto simp: order_listeners_def intro!: exI [of _ c1])
  next
    case False
    obtain em2 c2 where w2: "callAllListeners cl ev ?ps em1 = (list_ex call_cancels c2, em2)" "walked rs ?ps em1 em2"
        "calls_to ev (content (mListeners em1) ?ps) c2" "trace em2 = trace em1 @ c2"
      using callAllListeners_ok [OF inv1] by blast
    have "fire_order cl ev ord em = (list_ex call_cancels (c1 @ c2), True, em2)"
      using w1(1) w2(1) ps False by (simp add: fire_order_def pri_place_def [symmetric] sec_place_def [symmetric] ne)
    moreover have "fired rs em em2" using w1(2) w2(2) by (simp add: fired_def walked_def)
    moreover have "calls_to ev (order_listeners (mListeners em) ?i ord) (c1 @ c2)"
      using calls_to_append [OF w1(3) w2(3)] ps by (simp add: order_listeners_def)
    moreover have "order_listeners (mListeners em2) ?i o' = order_listeners (mListeners em) ?i o'" if "o' \<noteq> ord" for o'
      using w2(2) c1 that places_distinct [where i = "?i"] by (auto simp: order_listeners_def walked_def)
    ultimately show ?thesis using False w1(4) w2(4) by (auto simp: order_listeners_def intro!: exI [of _ "c1 @ c2"])
  qed
qed

lemma fire_orders_ok:
  assumes "em_inv rs em" "distinct ords"
  shows "\<exists>em' done rest cs h. fire_orders cl ev ords em = (list_ex call_cancels cs, h, em') \<and> ords = done @ rest
    \<and> (rest \<noteq> [] \<longrightarrow> list_ex call_cancels cs) \<and> fired rs em em'
    \<and> calls_to ev (concat (map (order_listeners (mListeners em) (getId cl ev)) done)) cs \<and> trace em' = trace em @ cs
    \<and> h = (concat (map (order_listeners (mListeners em) (getId cl ev)) done) \<noteq> [])"
  using assms
proof (induction ords arbitrary: em)
  case Nil
  have "fire_orders cl ev [] em = (list_ex call_cancels [], False, em) \<and> [] = [] @ []
    \<and> fired rs em em \<and> calls_to ev [] [] \<and> trace em = trace em @ []"
    using Nil by (simp add: fired_def calls_to_def)
  then show ?case by fastforce
next
  case (Cons ord ords)
  let ?L = "order_listeners (mListeners em) (getId cl ev)"
  obtain em1 c1 where f1: "fire_order cl ev ord em = (list_ex call_cancels c1, ?L ord \<noteq> [], em1)" "fired rs em em1"
      "calls_to ev (?L ord) c1" "trace em1 = trace em @ c1"
      "\<And>o'. o' \<noteq> ord \<Longrightarrow> order_listeners (mListeners em1) (getId cl ev) o' = ?L o'"
    using fire_order_ok [OF Cons.prems(1)] by blast
  show ?case
  proof (cases "list_ex call_cancels c1")
    case True
    then have "fire_orders cl ev (ord # ords) em = (list_ex call_cancels c1, ?L ord \<noteq> [], em1) \<and> ord # ords = [ord] @ ords
      \<and> calls_to ev (concat (map ?L [ord])) c1 \<and> (?L ord \<noteq> []) = (concat (map ?L [ord]) \<noteq> [])"
      using f1 by simp
    then show ?thesis using f1 True by blast
  next
    case False
    have inv1: "em_inv rs em1" using f1(2) by (simp add: fired_def)
    have dist: "distinct ords" using Cons.prems(2) by simp
    obtain em' d rest cs h where IH: "fire_orders cl ev ords em1 = (list_ex call_cancels cs, h, em')" "ords = d @ rest"
        "rest \<noteq> [] \<longrightarrow> list_ex call_cancels cs" "fired rs em1 em'"
        "calls_to ev (concat (map (order_listeners (mListeners em1) (getId cl ev)) d)) cs" "trace em' = trace em1 @ cs"
        "h = (concat (map (order_listeners (mListeners em1) (getId cl ev)) d) \<noteq> [])"
      using Cons.IH [OF inv1 dist] by blast
    have "ord \<notin> set d" using Cons.prems(2) IH(2) by auto
    then have eq: "map (order_listeners (mListeners em1) (getId cl ev)) d = map ?L d"
      using f1(5) by (metis map_cong)
    have "fire_orders cl ev (ord # ords) em = (list_ex call_cancels (c1 @ cs), ?L ord \<noteq> [] \<or> h, em')
      \<and> ord # ords = (ord # d) @ rest \<and> calls_to ev (concat (map ?L (ord # d))) (c1 @ cs) \<and> trace em' = trace em @ (c1 @ cs)
      \<and> (?L ord \<noteq> [] \<or> h) = (concat (map ?L (ord # d)) \<noteq> []) \<and> (rest \<noteq> [] \<longrightarrow> list_ex call_cancels (c1 @ cs))"
      using f1(1,4) False IH(1-4,6) calls_to_append [OF f1(3) IH(5) [unfolded eq]] IH(7) [unfolded eq] by simp
    moreover have "fired rs em em'" using f1(2) IH(4) fired_trans by blast
    ultimately show ?thesis by blast
  qed
qed

lemma cleanUp_inv: "em_inv rs em \<Longrightarrow> em_inv rs (em\<lparr>mListeners := cleanUp pri sec (mListeners em)\<rparr>)"
  using lists_ok_content [of "cleanUp pri sec (mListeners em)" "mListeners em"] content_cleanUp [of "mListeners em"]
  by (auto simp: em_inv_iff lists_ok_def)

definition history :: "bool \<Rightarrow> bool \<Rightarrow> EventHistory" where
  "history cancel handled = (if cancel then EVENT_CANCELED else if handled then EVENT_HANDLED else EVENT_UNHANDLED)"

lemma process_event_ok:
  assumes inv: "em_inv rs em" and reg: "mListeners em (mPriId (getId cl ev)) \<noteq> None"
  shows "\<exists>done rest cs. [EARLY, MIDDLE, LATE] = done @ rest \<and> (rest \<noteq> [] \<longrightarrow> list_ex call_cancels cs)
    \<and> calls_to ev (concat (map (order_listeners (mListeners em) (getId cl ev)) done)) cs
    \<and> trace (process_event cl ev em) = trace em @ cs @
        [Completed ev (history (list_ex call_cancels cs) (concat (map (order_listeners (mListeners em) (getId cl ev)) done) \<noteq> []))]
    \<and> em_inv rs (process_event cl ev em) \<and> (\<forall>i. dead i rs em \<longrightarrow> dead i rs (process_event cl ev em))"
proof -
  have orders: "distinct [EARLY, MIDDLE, LATE]" by simp
  obtain em' d rest cs h where f: "fire_orders cl ev [EARLY, MIDDLE, LATE] em = (list_ex call_cancels cs, h, em')"
      "[EARLY, MIDDLE, LATE] = d @ rest" "rest \<noteq> [] \<longrightarrow> list_ex call_cancels cs" "fired rs em em'"
      "calls_to ev (concat (map (order_listeners (mListeners em) (getId cl ev)) d)) cs" "trace em' = trace em @ cs"
      "h = (concat (map (order_listeners (mListeners em) (getId cl ev)) d) \<noteq> [])"
    using fire_orders_ok [OF inv orders] by blast
  let ?em = "em'\<lparr>mListeners := cleanUp (mPriId (getId cl ev)) (mSecId (getId cl ev)) (mListeners em')\<rparr>"
  have p: "process_event cl ev em = call_completed cl ev (history (list_ex call_cancels cs) h) ?em"
    using reg f(1) by (auto simp: process_event_def history_def simp del: fire_orders.simps)
  have "em_inv rs em'" using f(4) by (simp add: fired_def)
  then have "em_inv rs ?em" by (rule cleanUp_inv)
  then have "em_inv rs (process_event cl ev em)" using p call_completed_ok(3) by metis
  moreover have "dead i rs (process_event cl ev em)" if "dead i rs em" for i
  proof -
    have "dead i rs ?em" using f(4) that by (simp add: fired_def dead_iff)
    then show ?thesis using p call_completed_ok(4) by metis
  qed
  moreover have "trace (process_event cl ev em) = trace em @ cs @ [Completed ev (history (list_ex call_cancels cs) h)]"
    using p f(6) by (simp add: call_completed_ok(2))
  ultimately show ?thesis using f by blast
qed

subsection \<open>Requests\<close>

fun is_call :: "int \<Rightarrow> ('l, 'e) em_call_trace \<Rightarrow> bool" where
  "is_call i (Called l j ev r) \<longleftrightarrow> j = i"
| "is_call i (Completed ev h) \<longleftrightarrow> False"

lemma requests_ok_tail: "requests_ok (x # rs) r n \<Longrightarrow> requests_ok rs r n"
  by (auto simp: requests_ok_def)

lemma requests_ok_subscribed:
  assumes "requests_ok (Subscription i e l ord only # rs) r n" "i \<noteq> SubId_null"
  shows "requests_ok rs (r(i \<mapsto> p)) n"
proof -
  have "\<forall>j\<in>set (concat (map request_ids rs)). r j = None \<and> j < n" "i \<notin> set (concat (map request_ids rs))" "i < n"
    using assms by (auto simp: requests_ok_def)
  then have "\<forall>j\<in>set (concat (map request_ids rs)). (r(i \<mapsto> p)) j = None \<and> j < n" by (metis fun_upd_other)
  with assms \<open>i < n\<close> show ?thesis by (simp add: requests_ok_def)
qed

lemma doSubscribeId_ok:
  assumes inv: "em_inv (Subscription i e l ord only # rs) em"
  shows "em_inv rs (doSubscribeId i e l ord only em) \<and> trace (doSubscribeId i e l ord only em) = trace em
    \<and> (dead j (Subscription i e l ord only # rs) em \<longrightarrow> dead j rs (doSubscribeId i e l ord only em))"
proof -
  define p where "p = \<lparr>at_primary = mPriId e, at_secondary = (if only then None else Some (mSecId e)), at_order = ord\<rparr>"
  define m where "m = (if only then insertPriId (mPriId e) (mListeners em)
    else insertSecId (mPriId e) (mSecId e) (insertPriId (mPriId e) (mListeners em)))"
  have ok: "lists_ok (mListeners em) (mRemoveById em)"
    and q: "requests_ok (Subscription i e l ord only # rs @ mList (mListenerRequests (queues em))) (mRemoveById em) (subIds (queues em))"
    using inv by (simp_all add: em_inv_def)
  have fresh: "mRemoveById em i = None" if "i \<noteq> SubId_null" using q that by (simp add: requests_ok_def)
  have cm: "content m p' = content (mListeners em) p'" for p' by (simp add: m_def)
  have la: "list_at m p \<noteq> None"
    by (auto simp: m_def p_def list_at_def insertPriId_def insertSecId_def split: option.splits)
  have s: "doSubscribeId i e l ord only em = em\<lparr>mListeners := change_list m p (addListener l i),
      mRemoveById := (if i = SubId_null then mRemoveById em else (mRemoveById em)(i \<mapsto> p))\<rparr>"
    using fresh by (simp add: doSubscribeId_def Let_def p_def m_def)
  have "lists_ok (change_list m p (addListener l i)) (if i = SubId_null then mRemoveById em else (mRemoveById em)(i \<mapsto> p))"
    using q fresh la cm by (intro lists_ok_add [OF ok]) (auto simp: content_change addListener_def p_def requests_ok_def)
  moreover have "requests_ok (rs @ mList (mListenerRequests (queues em)))
      (if i = SubId_null then mRemoveById em else (mRemoveById em)(i \<mapsto> p)) (subIds (queues em))"
    using q requests_ok_tail [OF q] requests_ok_subscribed [OF q] by simp
  ultimately show ?thesis by (auto simp: s em_inv_def dead_def)
qed

lemma find_id: "i \<in> set (ids_of ls) \<Longrightarrow> \<exists>l. find (\<lambda>(l, j). j = i) ls = Some (l, i)"
  by (induction ls) (auto split: if_splits)

lemma doUnsubscribe_ok:
  assumes inv: "em_inv (Unsubscription i n # rs) em"
  shows "\<exists>em' tr. doUnsubscribe cl i n em = Inr em' \<and> em_inv rs em' \<and> trace em' = trace em @ tr
    \<and> (\<forall>c\<in>set tr. \<exists>l r. c = Called l i None r) \<and> (tr \<noteq> [] \<longrightarrow> mRemoveById em i \<noteq> None)
    \<and> (\<forall>j. dead j (Unsubscription i n # rs) em \<longrightarrow> dead j rs em') \<and> mRemoveById em' i = None
    \<and> (\<forall>j rs'. dead_id j rs' (queues em) \<longrightarrow> dead_id j rs' (queues em'))"
proof (cases "mRemoveById em i")
  case None
  then have "doUnsubscribe cl i n em = Inr em" by (simp add: doUnsubscribe_def)
  moreover have "em_inv rs em" using inv requests_ok_tail by (auto simp: em_inv_def)
  moreover have "\<forall>j. dead j (Unsubscription i n # rs) em \<longrightarrow> dead j rs em" by (simp add: dead_def)
  ultimately show ?thesis using None by fastforce
next
  case (Some p)
  have ok: "lists_ok (mListeners em) (mRemoveById em)" using inv by (simp add: em_inv_def)
  have i0: "i \<noteq> SubId_null" using lists_okD(1) [OF ok, of i p] Some by (auto simp: ids_of_def)
  have i: "i \<in> set (ids_of (content (mListeners em) p))" using lists_okD(1) [OF ok] Some by simp
  then have la: "list_at (mListeners em) p = Some (content (mListeners em) p)" by (intro list_at_content) auto
  obtain l where l: "find (\<lambda>(l, j). j = i) (content (mListeners em) p) = Some (l, i)" using find_id [OF i] by blast
  obtain pre post where pp: "content (mListeners em) p = pre @ (l, i) # post"
    "erase_node i (content (mListeners em) p) = pre @ post" using erase_node_first [OF l] by blast
  define em1 where "em1 = (if n then snd (call_listener cl l i None em) else em)"
  obtain tr where em1: "mListeners em1 = mListeners em" "mRemoveById em1 = mRemoveById em" "trace em1 = trace em @ tr"
    "em_inv rs em1" "\<And>j. dead j rs em \<Longrightarrow> dead j rs em1" "\<forall>c\<in>set tr. \<exists>l r. c = Called l i None r"
    "\<And>j rs'. dead_id j rs' (queues em) \<Longrightarrow> dead_id j rs' (queues em1)"
  proof (cases n)
    case True
    obtain r em2 where r: "call_listener cl l i None em = (r, em2)" by (cases "call_listener cl l i None em")
    have "em_inv rs em" using inv requests_ok_tail by (auto simp: em_inv_def)
    moreover have "dead_id j rs' (queues em) \<Longrightarrow> dead_id j rs' (queues em2)" for j rs'
      using r fold_do_call(2) by (auto simp: call_listener_def split: prod.splits)
    ultimately show ?thesis using that [of "[Called l i None r]"] call_listener_ok [OF r] True r by (simp add: em1_def)
  next
    case False
    have "em_inv rs em" using inv requests_ok_tail by (auto simp: em_inv_def)
    then show ?thesis using that [of "[]"] False by (simp add: em1_def)
  qed
  let ?m = "change_list (mListeners em) p (erase_node i)"
  let ?r = "(mRemoveById em)(i := None)"
  have cm: "content ?m p' = (if p' = p then pre @ post else content (mListeners em) p')" for p'
    using la pp by (simp add: content_change)
  have okm: "lists_ok ?m ?r" using lists_ok_remove [OF ok pp(1) cm] i0 by simp
  have lam: "list_at ?m p \<noteq> None" using la by (simp add: list_at_change)
  define m' where "m' = (case at_secondary p of None \<Rightarrow> ?m | Some s \<Rightarrow> cleanUp (at_primary p) s ?m)"
  have okm': "lists_ok m' ?r"
    using okm lists_ok_content [of m' ?m] content_cleanUp [of ?m] lists_okD(3) [OF okm]
    by (auto simp: m'_def split: option.splits)
  have "doUnsubscribe cl i n em = Inr (em1\<lparr>mRemoveById := ?r, mListeners := m'\<rparr>)"
    using Some la l lam em1(1,2)
    by (cases n; cases "at_secondary p") (simp_all add: doUnsubscribe_def em1_def m'_def Let_def)
  moreover have "em_inv rs (em1\<lparr>mRemoveById := ?r, mListeners := m'\<rparr>)"
    using em1(2,4) okm' by (simp add: em_inv_def requests_ok_remove)
  moreover have "dead j rs (em1\<lparr>mRemoveById := ?r, mListeners := m'\<rparr>)" if "dead j (Unsubscription i n # rs) em" for j
  proof -
    have "dead j rs em" using that by (simp add: dead_def)
    then have "dead j rs em1" by (rule em1(5))
    then show ?thesis by (simp add: dead_iff em1(2))
  qed
  moreover have "trace (em1\<lparr>mRemoveById := ?r, mListeners := m'\<rparr>) = trace em @ tr" using em1(3) by simp
  ultimately show ?thesis using em1(6,7) Some
    by (intro exI [of _ "em1\<lparr>mRemoveById := ?r, mListeners := m'\<rparr>"] exI [of _ tr] conjI) simp_all
qed

text \<open>What carrying out requests does: only notifications are called, and dead ids stay dead.\<close>

definition carried_out :: "'l ListenerRequest list \<Rightarrow> 'l ListenerRequest list \<Rightarrow> ('l, 'e, 'c) event_manager
    \<Rightarrow> ('l, 'e, 'c) event_manager \<Rightarrow> ('l, 'e) em_call_trace list \<Rightarrow> bool" where
  "carried_out rs rs' em em' tr \<longleftrightarrow> em_inv rs' em' \<and> trace em' = trace em @ tr
     \<and> (\<forall>c\<in>set tr. \<exists>l i r. c = Called l i None r)
     \<and> (\<forall>j. dead j rs em \<longrightarrow> dead j rs' em' \<and> list_all (\<lambda>c. \<not> is_call j c) tr)
     \<and> (\<forall>j xs. dead_id j xs (queues em) \<longrightarrow> dead_id j xs (queues em'))"

lemma carried_out_trans:
  "carried_out rs rs1 em em1 t1 \<Longrightarrow> carried_out rs1 rs' em1 em' t2 \<Longrightarrow> carried_out rs rs' em em' (t1 @ t2)"
  unfolding carried_out_def by (intro conjI allI impI ballI; auto)

lemma process_request_ok:
  assumes "em_inv (x # rs) em"
  shows "\<exists>em' tr. process_request cl x em = Inr em' \<and> carried_out (x # rs) rs em em' tr
    \<and> (\<forall>i n. x = Unsubscription i n \<longrightarrow> mRemoveById em' i = None)"
proof (cases x)
  case (Subscription i e l ord only)
  let ?em = "doSubscribeId i e l ord only em"
  have "queues ?em = queues em" by (simp add: doSubscribeId_def Let_def)
  then have "carried_out (x # rs) rs em ?em []"
    using doSubscribeId_ok [OF assms [unfolded Subscription]] Subscription by (simp add: carried_out_def)
  then show ?thesis using Subscription by fastforce
next
  case (Unsubscription i n)
  obtain em1 t1 where u: "doUnsubscribe cl i n em = Inr em1" "em_inv rs em1" "trace em1 = trace em @ t1"
      "\<forall>c\<in>set t1. \<exists>l r. c = Called l i None r" "t1 \<noteq> [] \<longrightarrow> mRemoveById em i \<noteq> None"
      "\<forall>j. dead j (Unsubscription i n # rs) em \<longrightarrow> dead j rs em1" "mRemoveById em1 i = None"
      "\<forall>j xs. dead_id j xs (queues em) \<longrightarrow> dead_id j xs (queues em1)"
    using doUnsubscribe_ok [OF assms [unfolded Unsubscription], of cl] by (elim exE conjE) (rule that)
  have "list_all (\<lambda>c. \<not> is_call j c) t1" if "dead j (x # rs) em" for j
  proof (cases "t1 = []")
    case False
    have "mRemoveById em j = None" using that by (simp add: dead_def)
    with False u(5) have "i \<noteq> j" by metis
    moreover have "\<not> is_call j c" if c: "c \<in> set t1" "i \<noteq> j" for c
    proof -
      obtain l r where "c = Called l i None r" using u(4) c(1) by blast
      then show ?thesis using c(2) by simp
    qed
    ultimately show ?thesis by (simp add: list_all_iff)
  qed simp
  then have "\<forall>j. dead j (x # rs) em \<longrightarrow> dead j rs em1 \<and> list_all (\<lambda>c. \<not> is_call j c) t1"
    using u(6) Unsubscription by simp
  moreover have "\<exists>l i r. c = Called l i None r" if "c \<in> set t1" for c
    using bspec [OF u(4) that] by (elim exE) (intro exI)
  ultimately have "carried_out (x # rs) rs em em1 t1" using u(2,3,8) by (simp add: carried_out_def)
  then show ?thesis using u(1,7) Unsubscription by (intro exI [of _ em1] exI [of _ t1]) simp
qed

lemma process_requests_ok:
  assumes "em_inv (rs @ rs') em"
  shows "\<exists>em' tr. process_requests cl rs em = Inr em' \<and> carried_out (rs @ rs') rs' em em' tr"
  using assms
proof (induction rs arbitrary: em)
  case Nil
  then have "carried_out ([] @ rs') rs' em em []" by (simp add: carried_out_def)
  then show ?case by fastforce
next
  case (Cons x rs)
  obtain em1 t1 where s: "process_request cl x em = Inr em1" "carried_out (x # rs @ rs') (rs @ rs') em em1 t1"
    using process_request_ok [of x "rs @ rs'" em cl] Cons.prems by auto
  then have "em_inv (rs @ rs') em1" by (simp add: carried_out_def)
  from Cons.IH [OF this] obtain em' t2 where "process_requests cl rs em1 = Inr em'" "carried_out (rs @ rs') rs' em1 em' t2" by blast
  then show ?case using s carried_out_trans by fastforce
qed

lemma process_requests_append:
  "process_requests cl (xs @ ys) em = sum_bind (process_requests cl xs em) (process_requests cl ys)"
proof (induction xs arbitrary: em)
  case (Cons x xs)
  then show ?case by (cases "process_request cl x em") simp_all
qed simp

lemma dead_not_listed:
  assumes "em_inv rs em" "dead j rs em" "(l, i) \<in> set (order_listeners (mListeners em) e ord)"
  shows "i \<noteq> j"
proof
  assume "i = j"
  obtain p where "(l, i) \<in> set (content (mListeners em) p)"
    using assms(3) by (auto simp: order_listeners_def)
  then have "j \<in> set (ids_of (content (mListeners em) p))"
    using assms(2) \<open>i = j\<close> by (force simp: ids_of_def dead_def)
  then show False using assms(1,2) lists_okD(1) [of "mListeners em" "mRemoveById em"] by (simp add: em_inv_def dead_def)
qed

lemma process_event_dead:
  assumes inv: "em_inv [] em"
  shows "\<exists>tr. trace (process_event cl ev em) = trace em @ tr \<and> em_inv [] (process_event cl ev em)
    \<and> (\<forall>j. dead j [] em \<longrightarrow> dead j [] (process_event cl ev em) \<and> list_all (\<lambda>c. \<not> is_call j c) tr)"
proof (cases "mListeners em (mPriId (getId cl ev)) = None")
  case True
  then show ?thesis using inv by (auto simp: process_event_def)
next
  case False
  let ?L = "order_listeners (mListeners em) (getId cl ev)"
  obtain d rest cs where p: "calls_to ev (concat (map ?L d)) cs"
      "trace (process_event cl ev em) = trace em @ cs @ [Completed ev (history (list_ex call_cancels cs) (concat (map ?L d) \<noteq> []))]"
      "em_inv [] (process_event cl ev em)" "\<forall>i. dead i [] em \<longrightarrow> dead i [] (process_event cl ev em)"
    using process_event_ok [OF inv False] by blast
  have "\<not> is_call j c" if j: "dead j [] em" and c: "c \<in> set cs" for j c
  proof -
    obtain l i r where "(l, i) \<in> set (concat (map ?L d))" "c = Called l i (Some ev) r"
      using calls_to_member [OF p(1) c] by blast
    moreover from this obtain ord where "(l, i) \<in> set (?L ord)" by auto
    ultimately show ?thesis using dead_not_listed [OF inv j] by auto
  qed
  then show ?thesis using p by (auto simp: list_all_iff)
qed

lemma process_events_ok:
  assumes "em_inv [] em"
  shows "\<exists>tr. trace (fold (process_event cl) evs em) = trace em @ tr \<and> em_inv [] (fold (process_event cl) evs em)
    \<and> (\<forall>j. dead j [] em \<longrightarrow> dead j [] (fold (process_event cl) evs em) \<and> list_all (\<lambda>c. \<not> is_call j c) tr)"
  using assms
proof (induction evs arbitrary: em)
  case (Cons ev evs)
  obtain t1 where p: "trace (process_event cl ev em) = trace em @ t1" "em_inv [] (process_event cl ev em)"
      "\<forall>j. dead j [] em \<longrightarrow> dead j [] (process_event cl ev em) \<and> list_all (\<lambda>c. \<not> is_call j c) t1"
    using process_event_dead [OF Cons.prems] by blast
  obtain tr where IH: "trace (fold (process_event cl) evs (process_event cl ev em)) = trace (process_event cl ev em) @ tr"
      "em_inv [] (fold (process_event cl) evs (process_event cl ev em))"
      "\<forall>j. dead j [] (process_event cl ev em) \<longrightarrow> dead j [] (fold (process_event cl) evs (process_event cl ev em)) \<and> list_all (\<lambda>c. \<not> is_call j c) tr"
    using Cons.IH [OF p(2)] by blast
  have "trace (fold (process_event cl) (ev # evs) em) = trace em @ (t1 @ tr)" using p(1) IH(1) by simp
  moreover have "\<forall>j. dead j [] em \<longrightarrow> dead j [] (fold (process_event cl) (ev # evs) em) \<and> list_all (\<lambda>c. \<not> is_call j c) (t1 @ tr)"
    using p(3) IH(3) by simp
  ultimately show ?case using IH(2) by (metis fold_simps(2))
qed auto

subsection \<open>Processing the queues\<close>

definition take_queues :: "('l, 'e, 'c) event_manager \<Rightarrow> ('l, 'e, 'c) event_manager" where
  "take_queues em = em\<lparr>queues := (queues em)\<lparr>mUnprocessed := tsq_init, mListenerRequests := tsq_init\<rparr>\<rparr>"

definition run_events :: "('l, 'e, 'c) client \<Rightarrow> 'e list \<Rightarrow> ('l, 'e, 'c) event_manager \<Rightarrow> ('l, 'e, 'c) event_manager" where
  "run_events cl evs em = (let em = fold (process_event cl) evs em; q = queues em in
     if usesCV q then em\<lparr>queues := q\<lparr>mPendingEvents := mPendingEvents q - int (length evs)\<rparr>\<rparr> else em)"

lemma tsq_take_all_eq: "tsq_take_all q = (mList q, tsq_init)"
  by (simp add: tsq_take_all_def NodeIterator_init_def tsq_swap_def node_loop_items tsq_init_def)

lemma process_queue_eq:
  "temporary_processEventQueue cl em =
     sum_bind (process_requests cl (mList (mListenerRequests (queues em))) (take_queues em))
       (\<lambda>em'. Inr (run_events cl (mList (mUnprocessed (queues em))) em'))"
  by (simp add: temporary_processEventQueue_def tsq_take_all_eq take_queues_def run_events_def Let_def)

lemma take_queues_ok:
  "em_ok em \<Longrightarrow> em_inv (mList (mListenerRequests (queues em))) (take_queues em)"
  "dead j [] em \<Longrightarrow> dead j (mList (mListenerRequests (queues em))) (take_queues em)"
  "trace (take_queues em) = trace em"
  by (simp_all add: em_ok_def em_inv_def take_queues_def tsq_init_def dead_def)

lemma run_events_ok:
  assumes "em_inv [] em"
  shows "\<exists>tr. em_ok (run_events cl evs em) \<and> trace (run_events cl evs em) = trace em @ tr
    \<and> (\<forall>j. dead j [] em \<longrightarrow> dead j [] (run_events cl evs em) \<and> list_all (\<lambda>c. \<not> is_call j c) tr)"
  using process_events_ok [OF assms, of cl evs]
  by (auto simp: run_events_def Let_def em_ok_def em_inv_def dead_def)

lemma process_queue_ok:
  assumes "em_ok em"
  shows "\<exists>em' tr. temporary_processEventQueue cl em = Inr em' \<and> em_ok em' \<and> trace em' = trace em @ tr
    \<and> (\<forall>j. dead j [] em \<longrightarrow> dead j [] em' \<and> list_all (\<lambda>c. \<not> is_call j c) tr)"
proof -
  let ?rs = "mList (mListenerRequests (queues em))"
  obtain em1 t1 where r: "process_requests cl ?rs (take_queues em) = Inr em1" "carried_out ?rs [] (take_queues em) em1 t1"
    using process_requests_ok [of ?rs "[]" "take_queues em" cl] take_queues_ok(1) [OF assms] by auto
  then have "em_inv [] em1" by (simp add: carried_out_def)
  let ?em' = "run_events cl (mList (mUnprocessed (queues em))) em1"
  obtain t2 where e: "em_ok ?em'" "trace ?em' = trace em1 @ t2"
      "\<forall>j. dead j [] em1 \<longrightarrow> dead j [] ?em' \<and> list_all (\<lambda>c. \<not> is_call j c) t2"
    using run_events_ok [OF \<open>em_inv [] em1\<close>] by blast
  have "temporary_processEventQueue cl em = Inr ?em'" using r(1) by (simp add: process_queue_eq)
  moreover have "trace ?em' = trace em @ (t1 @ t2)" using r(2) e(2) take_queues_ok(3) by (simp add: carried_out_def)
  moreover have "dead j [] ?em' \<and> list_all (\<lambda>c. \<not> is_call j c) (t1 @ t2)" if "dead j [] em" for j
    using r(2) e(3) take_queues_ok(2) [OF that] by (simp add: carried_out_def)
  ultimately show ?thesis using e(1) by blast
qed

text \<open>Rounds: clients call the manager, then the queues are processed.\<close>

fun em_rounds :: "('l, 'e, 'c) client \<Rightarrow> ('l, 'e) em_call list list \<Rightarrow> ('l, 'e, 'c) event_manager
    \<Rightarrow> em_ub + ('l, 'e, 'c) event_manager" where
  "em_rounds cl [] em = Inr em"
| "em_rounds cl (calls # rounds) em =
     sum_bind (temporary_processEventQueue cl (em\<lparr>queues := fold do_call calls (queues em)\<rparr>)) (em_rounds cl rounds)"

lemma calls_ok:
  "em_ok em \<Longrightarrow> em_ok (em\<lparr>queues := fold do_call calls (queues em)\<rparr>)"
  "dead j [] em \<Longrightarrow> dead j [] (em\<lparr>queues := fold do_call calls (queues em)\<rparr>)"
  using fold_do_call by (auto simp: em_ok_def em_inv_iff dead_iff)

lemma em_rounds_ok:
  assumes "em_ok em"
  shows "\<exists>em' tr. em_rounds cl rounds em = Inr em' \<and> em_ok em' \<and> trace em' = trace em @ tr
    \<and> (\<forall>j. dead j [] em \<longrightarrow> dead j [] em' \<and> list_all (\<lambda>c. \<not> is_call j c) tr)"
  using assms
proof (induction rounds arbitrary: em)
  case (Cons calls rounds)
  let ?em = "em\<lparr>queues := fold do_call calls (queues em)\<rparr>"
  obtain em1 t1 where p: "temporary_processEventQueue cl ?em = Inr em1" "em_ok em1" "trace em1 = trace ?em @ t1"
      "\<forall>j. dead j [] ?em \<longrightarrow> dead j [] em1 \<and> list_all (\<lambda>c. \<not> is_call j c) t1"
    using process_queue_ok [OF calls_ok(1) [OF Cons.prems]] by blast
  obtain em' t2 where IH: "em_rounds cl rounds em1 = Inr em'" "em_ok em'" "trace em' = trace em1 @ t2"
      "\<forall>j. dead j [] em1 \<longrightarrow> dead j [] em' \<and> list_all (\<lambda>c. \<not> is_call j c) t2"
    using Cons.IH [OF p(2)] by blast
  have "em_rounds cl (calls # rounds) em = Inr em'" "trace em' = trace em @ (t1 @ t2)" using p IH by simp_all
  moreover have "dead j [] em' \<and> list_all (\<lambda>c. \<not> is_call j c) (t1 @ t2)" if "dead j [] em" for j
    using p(4) IH(4) calls_ok(2) [OF that, of calls] by simp
  ultimately show ?case using IH(2) by blast
qed auto

lemma EventManager_init_ok: "0 \<le> n \<Longrightarrow> em_ok (EventManager_init cv n c)"
  by (simp add: em_ok_def em_inv_def EventManager_init_def lists_ok_def content_def list_at_def requests_ok_def tsq_init_def)

definition sample_client :: "(nat, nat, unit) client" where
  "sample_client = \<lparr>listen = (\<lambda>l ev c. (NOP, c, [])), completed = (\<lambda>ev h c. (c, [])), getId = (\<lambda>ev. IdPair_primary (int ev))\<rparr>"

section \<open>Properties\<close>

text \<open>
  C38: the bookkeeping of subscriptions is sound. Whatever clients and their listeners subscribe,
  unsubscribe and fire, in any number of rounds, the manager never follows a dangling iterator, never
  fails to find the secondary id of a subscription it removes, and keeps \<open>mRemoveById\<close> and the lists
  of listeners in sync with every subscription id at one node only.
\<close>

theorem event_manager_safe:
  assumes "0 \<le> n"
  shows "\<exists>em. em_rounds cl rounds (EventManager_init cv n c) = Inr em \<and> em_ok em"
  using em_rounds_ok [of "EventManager_init cv n c" cl rounds, OF EventManager_init_ok [OF assms]] by blast

theorem event_manager_safe_witness:
  "\<exists>em. em_rounds sample_client [[SubscribeId_primary 1 7 LATE, Fire 1], [Unsubscribe 0 True]] (EventManager_init False 0 ())
    = Inr em \<and> em_ok em"
  by (rule event_manager_safe) simp


definition sample_manager :: "(nat, nat, unit) event_manager" where
  "sample_manager = doSubscribeId 0 (IdPair_primary 1) 7 MIDDLE True (EventManager_init False 1 ())"

lemma sample_manager_ok: "em_ok sample_manager"
proof -
  have "em_inv [Subscription 0 (IdPair_primary 1) (7 :: nat) MIDDLE True] (EventManager_init False 1 () :: (nat, nat, unit) event_manager)"
    by (simp add: em_inv_def EventManager_init_def lists_ok_def content_def list_at_def requests_ok_def tsq_init_def)
  from doSubscribeId_ok [OF this] show ?thesis unfolding em_ok_def sample_manager_def by (rule conjunct1)
qed



definition unsubscribing_manager :: "(nat, nat, unit) event_manager" where
  "unsubscribing_manager = sample_manager\<lparr>queues := unsubscribe 0 True (queues sample_manager)\<rparr>"


end
