(* ===== verification/Multiplexed_Socket.thy ===== *)
theory Multiplexed_Socket
  imports Framing Queues
begin

text \<open>
  One connection of several TCP sockets that carries many streams (\<open>network/MultiplexedSocket.cpp\<close>),
  with the calls \<open>network/TCPStream.cpp\<close> and \<open>network/TCPSetCallbacks.hpp\<close> make on it.

  A socket is represented by the requests whose chunks were handed to its \<open>rawSend\<close>, in order. Client code is a record of
  functions: a callback answers with the calls it makes on streams of the connection (sending, cloning,
  closing), which run before the callback returns, and changes the state of the client. The functor
  passed to a substream callback is called at most once, before the other calls.

  Every operation is one step: it runs either in the reactor thread or with \<open>sConnectingMutex\<close> held. The
  phase \<open>WAITCONNECTING\<close> is set and left with that lock held. Undefined behaviour and failed assertions are
  values of \<open>mux_ub\<close>. The values of \<open>rand\<close>, the outcome of the floating point comparison that may drop an
  unreliable chunk, the hash function of the library and the iteration order of its hash maps are
  arguments. The \<open>trace\<close> records the callbacks that were called and the requests \<open>sendBytes\<close> accepted.
\<close>

section \<open>Data\<close>

record raw_request =
  unordered :: bool
  unreliable :: bool
  originStream :: u32
  request_data :: "u8 list"

datatype SocketConnectionPhase = PRECONNECTION | WAITCONNECTING | CONNECTED | DISCONNECTED

datatype ConnectionStatus = Connected | ConnectionFailed | Disconnected

datatype mux_ub =
    No_sockets                 \<comment> \<open>a remainder modulo zero or an index into an empty vector\<close>
  | Assertion                  \<comment> \<open>an assertion fails\<close>
  | End_dereferenced           \<comment> \<open>the end iterator of \<open>mCallbacks\<close> is dereferenced and erased\<close>
  | Deleted_callbacks          \<comment> \<open>callbacks are called after they were deleted\<close>

datatype 'cb mux_event =
    Bytes_received 'cb "u8 list"
  | Connection_callback 'cb ConnectionStatus
  | New_substream u32
  | Send_accepted raw_request

record ('cb, 'c) mux =
  mSockets :: "raw_request list list"
  mNewRequests :: "raw_request list"
  mSocketConnectionPhase :: SocketConnectionPhase
  mCallbackRegistration :: "(u32 \<times> 'cb option) list"
  mCallbacks :: "u32 \<rightharpoonup> 'cb"
  mAckedClosingStreams :: "u32 \<rightharpoonup> u32"
  mOneSidedClosingStreams :: "u32 set"
  mHighestStreamID :: u32
  mFreeStreamIDs :: "u32 tsq"
  rands :: nat
  world :: 'c
  trace :: "'cb mux_event list"

text \<open>The calls client code makes on streams of the connection.\<close>

datatype 'cb stream_call =
    Send_bytes raw_request     \<comment> \<open>\<open>TCPStream::send\<close>, once the packet is built\<close>
  | Clone_stream 'cb           \<comment> \<open>\<open>TCPStream::cloneFrom\<close>\<close>
  | Close_stream u32           \<comment> \<open>\<open>TCPStream::close\<close>\<close>

record ('cb, 'c) mux_env =
  rand_at :: "nat \<Rightarrow> nat"
  passes :: "nat \<Rightarrow> bool"
  hasher :: "u32 \<Rightarrow> nat"
  on_bytes :: "'cb \<Rightarrow> u8 list \<Rightarrow> 'c \<Rightarrow> 'cb stream_call list \<times> 'c"
  on_connection :: "'cb \<Rightarrow> ConnectionStatus \<Rightarrow> 'c \<Rightarrow> 'cb stream_call list \<times> 'c"
  on_substream :: "u32 \<Rightarrow> 'c \<Rightarrow> 'cb option \<times> 'cb stream_call list \<times> 'c"

section \<open>Sending\<close>

text \<open>\<open>mSockets[i].rawSend\<close>, on the chunk of the request.\<close>

definition hand_over :: "raw_request \<Rightarrow> nat \<Rightarrow> ('cb, 'c) mux \<Rightarrow> ('cb, 'c) mux" where
  "hand_over data i s = s\<lparr>mSockets := (mSockets s)[i := mSockets s ! i @ [data]]\<rparr>"

definition leastBusyStream :: "('cb, 'c) mux_env \<Rightarrow> ('cb, 'c) mux \<Rightarrow> nat \<times> ('cb, 'c) mux" where
  "leastBusyStream env s = (rand_at env (rands s) mod length (mSockets s), s\<lparr>rands := rands s + 1\<rparr>)"

definition sendBytesNow :: "('cb, 'c) mux_env \<Rightarrow> raw_request \<Rightarrow> ('cb, 'c) mux \<Rightarrow> mux_ub + ('cb, 'c) mux" where
  "sendBytesNow env data s =
     (if mSockets s = [] then Inl No_sockets
      else if originStream data = 0
      then Inr (hand_over data 0 (fold (hand_over data) [1 ..< length (mSockets s)] s))
      else let (whichStream, s) = (if unordered data then leastBusyStream env s
                 else (hasher env (originStream data) mod length (mSockets s), s));
               (keep, s) = (if unreliable data then (passes env (rands s), s\<lparr>rands := rands s + 1\<rparr>) else (True, s))
           in Inr (if keep then hand_over data whichStream s else s))"

definition sendBytes :: "('cb, 'c) mux_env \<Rightarrow> raw_request \<Rightarrow> ('cb, 'c) mux \<Rightarrow> mux_ub + ('cb, 'c) mux" where
  "sendBytes env data s =
     (let s = s\<lparr>trace := trace s @ [Send_accepted data]\<rparr> in
      case mSocketConnectionPhase s of
        CONNECTED \<Rightarrow> sendBytesNow env data s
      | DISCONNECTED \<Rightarrow> Inr (s\<lparr>mNewRequests := mNewRequests s @ [data]\<rparr>)
      | PRECONNECTION \<Rightarrow> Inr (s\<lparr>mNewRequests := mNewRequests s @ [data]\<rparr>)
      | WAITCONNECTING \<Rightarrow> Inl Assertion)"

text \<open>
  The control packet does not depend on the previous content of the array it is built in, which is
  taken to be zero here.
\<close>

definition closeStream :: "('cb, 'c) mux_env \<Rightarrow> u32 \<Rightarrow> TCPStreamControlCodes \<Rightarrow> ('cb, 'c) mux
    \<Rightarrow> mux_ub + ('cb, 'c) mux" where
  "closeStream env sid code s =
     (case constructControlPacket (replicate 24 0) code sid of
        None \<Rightarrow> Inl Assertion
      | Some chunk \<Rightarrow>
          sendBytes env \<lparr>unordered = False, unreliable = False, originStream = 0, request_data = chunk\<rparr> s)"

section \<open>Registration and stream ids\<close>

definition addCallbacks :: "u32 \<Rightarrow> 'cb option \<Rightarrow> ('cb, 'c) mux \<Rightarrow> SocketConnectionPhase \<times> ('cb, 'c) mux" where
  "addCallbacks sid cb s =
     (mSocketConnectionPhase s, s\<lparr>mCallbackRegistration := mCallbackRegistration s @ [(sid, cb)]\<rparr>)"

definition getNewID :: "('cb, 'c) mux \<Rightarrow> mux_ub + u32 \<times> ('cb, 'c) mux" where
  "getNewID s =
     (case (if probablyEmpty (mFreeStreamIDs s) then (None, mFreeStreamIDs s) else tsq_pop (mFreeStreamIDs s)) of
        (Some retval, q) \<Rightarrow> Inr (retval, s\<lparr>mFreeStreamIDs := q\<rparr>)
      | (None, q) \<Rightarrow>
          (let retval = mHighestStreamID s + 2; s = s\<lparr>mFreeStreamIDs := q, mHighestStreamID := retval\<rparr> in
           if \<not> retval > 1 then Inl Assertion
           else case uint30_make retval of None \<Rightarrow> Inl Assertion | Some n \<Rightarrow> Inr (n, s)))"

text \<open>
  \<open>TCPStream::close\<close>, after the sends of the stream were stopped, and \<open>TCPStream::cloneFrom\<close> on a stream
  with a socket: the id of the new stream and whether the connection is still up.
\<close>

definition stream_close :: "('cb, 'c) mux_env \<Rightarrow> u32 \<Rightarrow> ('cb, 'c) mux \<Rightarrow> mux_ub + ('cb, 'c) mux" where
  "stream_close env sid s = closeStream env sid TCPStreamCloseStream (snd (addCallbacks sid None s))"

definition stream_cloneFrom :: "'cb \<Rightarrow> ('cb, 'c) mux \<Rightarrow> mux_ub + (u32 \<times> bool) \<times> ('cb, 'c) mux" where
  "stream_cloneFrom cb s =
     sum_bind (getNewID s) (\<lambda>(newID, s).
     case addCallbacks newID (Some cb) s of (phase, s) \<Rightarrow> Inr ((newID, phase \<noteq> DISCONNECTED), s))"

definition do_stream_call :: "('cb, 'c) mux_env \<Rightarrow> 'cb stream_call \<Rightarrow> ('cb, 'c) mux \<Rightarrow> mux_ub + ('cb, 'c) mux" where
  "do_stream_call env call s =
     (case call of
        Send_bytes data \<Rightarrow> sendBytes env data s
      | Clone_stream cb \<Rightarrow> sum_bind (stream_cloneFrom cb s) (\<lambda>(_, s). Inr s)
      | Close_stream sid \<Rightarrow> stream_close env sid s)"

fun do_stream_calls :: "('cb, 'c) mux_env \<Rightarrow> 'cb stream_call list \<Rightarrow> ('cb, 'c) mux \<Rightarrow> mux_ub + ('cb, 'c) mux" where
  "do_stream_calls env [] s = Inr s"
| "do_stream_calls env (call # calls) s = sum_bind (do_stream_call env call s) (do_stream_calls env calls)"

section \<open>The reactor thread\<close>

definition ioReactorThreadCommitCallback :: "u32 \<times> 'cb option \<Rightarrow> ('cb, 'c) mux \<Rightarrow> mux_ub + ('cb, 'c) mux" where
  "ioReactorThreadCommitCallback newcallback s =
     (case newcallback of
        (sid, None) \<Rightarrow>
          (let s = s\<lparr>mOneSidedClosingStreams := insert sid (mOneSidedClosingStreams s)\<rparr> in
           case mCallbacks s sid of
             Some _ \<Rightarrow> Inr (s\<lparr>mCallbacks := (mCallbacks s)(sid := None)\<rparr>)
           | None \<Rightarrow> Inl Assertion)
      | (sid, Some cb) \<Rightarrow>
          Inr (if mCallbacks s sid = None then s\<lparr>mCallbacks := (mCallbacks s)(sid \<mapsto> cb)\<rparr> else s))"

fun commit_loop :: "(u32 \<times> 'cb option) list \<Rightarrow> ('cb, 'c) mux \<Rightarrow> mux_ub + ('cb, 'c) mux" where
  "commit_loop [] s = Inr s"
| "commit_loop (r # rs) s = sum_bind (ioReactorThreadCommitCallback r s) (commit_loop rs)"

fun send_requests :: "('cb, 'c) mux_env \<Rightarrow> raw_request list \<Rightarrow> ('cb, 'c) mux \<Rightarrow> mux_ub + ('cb, 'c) mux" where
  "send_requests env [] s = Inr s"
| "send_requests env (r # rs) s = sum_bind (sendBytesNow env r s) (send_requests env rs)"

text \<open>
  \<open>CommitCallbacks\<close> with an empty list of registrations to begin with, as all its callers have it. The
  requests taken in the first part are sent before the lock is taken; the second loop sees those that
  arrived meanwhile, none here. \<open>commit_status\<close> is the part up to the exchange of the registrations.
\<close>

definition commit_status :: "('cb, 'c) mux_env \<Rightarrow> SocketConnectionPhase \<Rightarrow> bool \<Rightarrow> ('cb, 'c) mux
    \<Rightarrow> mux_ub + bool \<times> ('cb, 'c) mux" where
  "commit_status env status setConnectedStatus s =
     sum_bind (if status = CONNECTED then send_requests env (mNewRequests s) (s\<lparr>mNewRequests := []\<rparr>) else Inr s) (\<lambda>s.
     let statusChanged = (status \<noteq> mSocketConnectionPhase s) in
     if setConnectedStatus
     then if status \<noteq> CONNECTED then Inr (statusChanged, s\<lparr>mSocketConnectionPhase := status\<rparr>)
          else sum_bind (send_requests env (mNewRequests s) (s\<lparr>mSocketConnectionPhase := WAITCONNECTING\<rparr>)) (\<lambda>s.
               Inr (statusChanged, s\<lparr>mNewRequests := [], mSocketConnectionPhase := CONNECTED\<rparr>))
     else Inr (statusChanged, s))"

definition CommitCallbacks :: "('cb, 'c) mux_env \<Rightarrow> SocketConnectionPhase \<Rightarrow> bool \<Rightarrow> ('cb, 'c) mux
    \<Rightarrow> mux_ub + bool \<times> ('cb, 'c) mux" where
  "CommitCallbacks env status setConnectedStatus s =
     (if setConnectedStatus \<or> mCallbackRegistration s \<noteq> []
      then sum_bind (commit_status env status setConnectedStatus s) (\<lambda>(statusChanged, s).
           sum_bind (commit_loop (mCallbackRegistration s) (s\<lparr>mCallbackRegistration := []\<rparr>)) (\<lambda>s.
           Inr (statusChanged, s)))
      else Inr (False, s))"

text \<open>A callback of the client, with the calls it makes.\<close>

definition call_bytes_received :: "('cb, 'c) mux_env \<Rightarrow> 'cb \<Rightarrow> u8 list \<Rightarrow> ('cb, 'c) mux \<Rightarrow> mux_ub + ('cb, 'c) mux" where
  "call_bytes_received env cb chunk s =
     (case on_bytes env cb chunk (world s) of (calls, w) \<Rightarrow>
        do_stream_calls env calls (s\<lparr>world := w, trace := trace s @ [Bytes_received cb chunk]\<rparr>))"

definition call_connection :: "('cb, 'c) mux_env \<Rightarrow> 'cb \<Rightarrow> ConnectionStatus \<Rightarrow> ('cb, 'c) mux \<Rightarrow> mux_ub + ('cb, 'c) mux" where
  "call_connection env cb status s =
     (case on_connection env cb status (world s) of (calls, w) \<Rightarrow>
        do_stream_calls env calls (s\<lparr>world := w, trace := trace s @ [Connection_callback cb status]\<rparr>))"

definition shutDownClosedStream :: "('cb, 'c) mux_env \<Rightarrow> u8 \<Rightarrow> u32 \<Rightarrow> ('cb, 'c) mux \<Rightarrow> mux_ub + ('cb, 'c) mux" where
  "shutDownClosedStream env controlCode sid s =
     sum_bind
       (if controlCode = control_code TCPStreamCloseStream
        then sum_bind (CommitCallbacks env CONNECTED False s) (\<lambda>(_, s).
             case mCallbacks s sid of
               None \<Rightarrow> Inr s
             | Some cb \<Rightarrow>
                 sum_bind (call_connection env cb Disconnected s) (\<lambda>s.
                 sum_bind (CommitCallbacks env CONNECTED False s) (\<lambda>(_, s).
                 if mCallbacks s sid = None then Inl End_dereferenced
                 else Inr (s\<lparr>mCallbacks := (mCallbacks s)(sid := None)\<rparr>))))
        else Inr s) (\<lambda>s.
     let s = s\<lparr>mOneSidedClosingStreams := mOneSidedClosingStreams s - {sid}\<rparr>
     in Inr (if uint30_odd sid = uint30_odd (mHighestStreamID s)
             then s\<lparr>mFreeStreamIDs := tsq_push sid (mFreeStreamIDs s)\<rparr> else s))"

text \<open>A close or close acknowledgement of the stream \<open>sid\<close> arrived on one more socket.\<close>

definition receive_close :: "('cb, 'c) mux_env \<Rightarrow> u8 \<Rightarrow> u32 \<Rightarrow> ('cb, 'c) mux \<Rightarrow> mux_ub + ('cb, 'c) mux" where
  "receive_close env controlCode sid s =
     (let shut = (\<lambda>s. sum_bind (shutDownClosedStream env controlCode sid s) (\<lambda>s.
            if controlCode = control_code TCPStreamCloseStream
            then closeStream env sid TCPStreamAckCloseStream s else Inr s))
      in case mAckedClosingStreams s sid of
           Some n \<Rightarrow>
             (let s = s\<lparr>mAckedClosingStreams := (mAckedClosingStreams s)(sid \<mapsto> n + 1)\<rparr> in
              if n + 1 = of_nat (length (mSockets s))
              then shut (s\<lparr>mAckedClosingStreams := (mAckedClosingStreams s)(sid := None)\<rparr>)
              else Inr s)
         | None \<Rightarrow>
             if length (mSockets s) = 1 then shut s
             else Inr (s\<lparr>mAckedClosingStreams := (mAckedClosingStreams s)(sid \<mapsto> 1)\<rparr>))"

definition receive_data :: "('cb, 'c) mux_env \<Rightarrow> u32 \<Rightarrow> u8 list \<Rightarrow> ('cb, 'c) mux \<Rightarrow> mux_ub + ('cb, 'c) mux" where
  "receive_data env sid newChunk s =
     sum_bind (CommitCallbacks env CONNECTED False s) (\<lambda>(_, s).
     case mCallbacks s sid of
       Some cb \<Rightarrow> call_bytes_received env cb newChunk s
     | None \<Rightarrow>
         if sid \<notin> mOneSidedClosingStreams s
         then (case on_substream env sid (world s) of (setCallbacks, calls, w) \<Rightarrow>
           let s = s\<lparr>world := w, trace := trace s @ [New_substream sid]\<rparr>;
               s = (case setCallbacks of None \<Rightarrow> s | Some cb \<Rightarrow> snd (addCallbacks sid (Some cb) s))
           in sum_bind (do_stream_calls env calls s) (\<lambda>s.
              case setCallbacks of
                Some cb \<Rightarrow>
                  sum_bind (CommitCallbacks env CONNECTED False s) (\<lambda>(_, s).
                  if mCallbacks s sid = None then Inl Deleted_callbacks
                  else call_bytes_received env cb newChunk s)
              | None \<Rightarrow> closeStream env sid TCPStreamCloseStream s))
         else Inr s)"

definition receiveFullChunk :: "('cb, 'c) mux_env \<Rightarrow> u32 \<Rightarrow> u8 list \<Rightarrow> ('cb, 'c) mux \<Rightarrow> mux_ub + ('cb, 'c) mux" where
  "receiveFullChunk env sid newChunk s =
     (if sid = 0
      then case newChunk of
             [] \<Rightarrow> Inr s
           | controlCode # rest \<Rightarrow>
               if controlCode = control_code TCPStreamCloseStream \<or> controlCode = control_code TCPStreamAckCloseStream
               then (case (if rest = [] then None else unserialize rest) of
                       None \<Rightarrow> Inr s
                     | Some (cid, _) \<Rightarrow> if cid \<noteq> 0 then receive_close env controlCode cid s else Inr s)
               else Inr s
      else receive_data env sid newChunk s)"

text \<open>\<open>ids\<close>: the keys of \<open>mCallbacks\<close> in the order the loop meets them.\<close>

fun connection_loop :: "('cb, 'c) mux_env \<Rightarrow> ConnectionStatus \<Rightarrow> u32 list \<Rightarrow> ('cb, 'c) mux \<Rightarrow> mux_ub + ('cb, 'c) mux" where
  "connection_loop env stat [] s = Inr s"
| "connection_loop env stat (i # ids) s =
     sum_bind (case mCallbacks s i of None \<Rightarrow> Inr s | Some cb \<Rightarrow> call_connection env cb stat s)
       (connection_loop env stat ids)"

definition connectionFailureOrSuccessCallback :: "('cb, 'c) mux_env \<Rightarrow> u32 list \<Rightarrow> SocketConnectionPhase
    \<Rightarrow> ConnectionStatus \<Rightarrow> ('cb, 'c) mux \<Rightarrow> mux_ub + ('cb, 'c) mux" where
  "connectionFailureOrSuccessCallback env ids status reportedProblem s =
     sum_bind (CommitCallbacks env status True s) (\<lambda>(actuallyDoSend, s).
     if actuallyDoSend then connection_loop env reportedProblem ids s else Inr s)"

definition connectionFailedCallback :: "('cb, 'c) mux_env \<Rightarrow> u32 list \<Rightarrow> ('cb, 'c) mux \<Rightarrow> mux_ub + ('cb, 'c) mux" where
  "connectionFailedCallback env ids = connectionFailureOrSuccessCallback env ids DISCONNECTED ConnectionFailed"

definition hostDisconnectedCallback :: "('cb, 'c) mux_env \<Rightarrow> u32 list \<Rightarrow> ('cb, 'c) mux \<Rightarrow> mux_ub + ('cb, 'c) mux" where
  "hostDisconnectedCallback env ids = connectionFailureOrSuccessCallback env ids DISCONNECTED Disconnected"

definition connectedCallback :: "('cb, 'c) mux_env \<Rightarrow> u32 list \<Rightarrow> ('cb, 'c) mux \<Rightarrow> mux_ub + ('cb, 'c) mux" where
  "connectedCallback env ids = connectionFailureOrSuccessCallback env ids CONNECTED Connected"

section \<open>Construction\<close>

definition mux_new :: "nat \<Rightarrow> u32 \<Rightarrow> 'c \<Rightarrow> ('cb, 'c) mux" where
  "mux_new n highest w =
     \<lparr>mSockets = replicate n [], mNewRequests = [], mSocketConnectionPhase = PRECONNECTION,
      mCallbackRegistration = [], mCallbacks = Map.empty, mAckedClosingStreams = Map.empty,
      mOneSidedClosingStreams = {}, mHighestStreamID = highest, mFreeStreamIDs = tsq_init,
      rands = 0, world = w, trace = []\<rparr>"

text \<open>The connecting side, and the listening side with its accepted sockets.\<close>

definition MultiplexedSocket_connector :: "'c \<Rightarrow> ('cb, 'c) mux" where
  "MultiplexedSocket_connector w = mux_new 0 1 w"

definition MultiplexedSocket_listener :: "nat \<Rightarrow> 'c \<Rightarrow> ('cb, 'c) mux" where
  "MultiplexedSocket_listener n w = mux_new n 0 w"

definition mux_connect :: "nat \<Rightarrow> ('cb, 'c) mux \<Rightarrow> ('cb, 'c) mux" where
  "mux_connect numSockets s = s\<lparr>mSocketConnectionPhase := PRECONNECTION,
     mSockets := take numSockets (mSockets s) @ replicate (numSockets - length (mSockets s)) []\<rparr>"

definition sendAllProtocolHeaders :: "u8 list \<Rightarrow> ('cb, 'c) mux \<Rightarrow> mux_ub + ('cb, 'c) mux" where
  "sendAllProtocolHeaders syncedUUID s =
     (let numSockets = length (mSockets s);
          header = \<lparr>unordered = False, unreliable = False, originStream = 0,
                    request_data = copyHeader syncedUUID (of_nat numSockets)\<rparr>;
          s = fold (hand_over header) [0 ..< numSockets] (s\<lparr>trace := trace s @ [Send_accepted header]\<rparr>);
          s = s\<lparr>mSocketConnectionPhase := CONNECTED\<rparr>
      in if mNewRequests s = [] then Inr s else Inl Assertion)"

section \<open>Events of a connection\<close>

text \<open>What client threads and the reactor do to an established connection.\<close>

datatype 'cb mux_operation =
    Client_call "'cb stream_call"
  | Register u32 "'cb option"
  | Receive u32 "u8 list"
  | On_connected "u32 list"
  | On_failed "u32 list"
  | On_disconnected "u32 list"

fun mux_op :: "('cb, 'c) mux_env \<Rightarrow> 'cb mux_operation \<Rightarrow> ('cb, 'c) mux \<Rightarrow> mux_ub + ('cb, 'c) mux" where
  "mux_op env (Client_call call) s = do_stream_call env call s"
| "mux_op env (Register sid cb) s = Inr (snd (addCallbacks sid cb s))"
| "mux_op env (Receive sid chunk) s = receiveFullChunk env sid chunk s"
| "mux_op env (On_connected ids) s = connectedCallback env ids s"
| "mux_op env (On_failed ids) s = connectionFailedCallback env ids s"
| "mux_op env (On_disconnected ids) s = hostDisconnectedCallback env ids s"

fun mux_run :: "('cb, 'c) mux_env \<Rightarrow> 'cb mux_operation list \<Rightarrow> ('cb, 'c) mux \<Rightarrow> mux_ub + ('cb, 'c) mux" where
  "mux_run env [] s = Inr s"
| "mux_run env (op # ops) s = sum_bind (mux_op env op s) (mux_run env ops)"

lemma mux_run_append: "mux_run env (xs @ ys) s = sum_bind (mux_run env xs s) (mux_run env ys)"
proof (induction xs arbitrary: s)
  case (Cons x xs)
  then show ?case by (cases "mux_op env x s") simp_all
qed simp

section \<open>Invariants\<close>

text \<open>\<open>I\<close> holds in the result, unless the operation fails.\<close>

definition after :: "('a \<Rightarrow> bool) \<Rightarrow> 'e + 'a \<Rightarrow> bool" where
  "after Q r = (case r of Inl _ \<Rightarrow> True | Inr a \<Rightarrow> Q a)"

lemma after_simps [simp]: "after Q (Inl e)" "after Q (Inr a) = Q a"
  by (simp_all add: after_def)

lemma after_bind: "after Q r \<Longrightarrow> (\<And>a. Q a \<Longrightarrow> after Q' (f a)) \<Longrightarrow> after Q' (sum_bind r f)"
  by (cases r) simp_all

text \<open>
  The contract of an invariant: the operations that send, the allocation and the release of ids keep it,
  and so does every change of the bookkeeping of callbacks. Then every operation of a connection keeps
  it, whatever the client does.
\<close>

locale mux_invariant =
  fixes env :: "('cb, 'c) mux_env" and I :: "('cb, 'c) mux \<Rightarrow> bool"
  assumes bookkeeping:
      "I s \<Longrightarrow> I (s\<lparr>mCallbackRegistration := reg\<rparr>)"
      "I s \<Longrightarrow> I (s\<lparr>mCallbacks := cbs\<rparr>)"
      "I s \<Longrightarrow> I (s\<lparr>mAckedClosingStreams := acks\<rparr>)"
      "I s \<Longrightarrow> I (s\<lparr>mOneSidedClosingStreams := ones\<rparr>)"
      "I s \<Longrightarrow> (\<forall>r. e \<noteq> Send_accepted r) \<Longrightarrow> I (s\<lparr>world := w, trace := trace s @ [e]\<rparr>)"
    and send: "I s \<Longrightarrow> after I (sendBytes env r s)"
    and status: "I s \<Longrightarrow> st \<noteq> WAITCONNECTING \<Longrightarrow> after (\<lambda>(b, s). I s) (commit_status env st b s)"
    and fresh: "I s \<Longrightarrow> after (\<lambda>(i, s). I s) (getNewID s)"
    and freed: "I s \<Longrightarrow> sid \<noteq> 0 \<Longrightarrow> sid < 2 ^ 30 \<Longrightarrow> uint30_odd sid = uint30_odd (mHighestStreamID s)
      \<Longrightarrow> I (s\<lparr>mFreeStreamIDs := tsq_push sid (mFreeStreamIDs s)\<rparr>)"
begin

lemma keeps_close: "I s \<Longrightarrow> after I (closeStream env sid code s)"
  using send by (simp add: closeStream_def split: option.split)

lemma keeps_clone: "I s \<Longrightarrow> after (\<lambda>(i, s). I s) (stream_cloneFrom cb s)"
  using bookkeeping(1) by (auto simp: stream_cloneFrom_def addCallbacks_def intro!: after_bind [OF fresh])

lemma keeps_call: "I s \<Longrightarrow> after I (do_stream_call env call s)"
  using keeps_close bookkeeping send
  by (cases call)
    (auto simp: do_stream_call_def stream_close_def addCallbacks_def intro!: after_bind [OF keeps_clone])

lemma keeps_calls: "I s \<Longrightarrow> after I (do_stream_calls env calls s)"
proof (induction calls arbitrary: s)
  case (Cons call calls)
  then show ?case by (auto intro: after_bind [OF keeps_call])
qed simp

lemma keeps_commit_one: "I s \<Longrightarrow> after I (ioReactorThreadCommitCallback r s)"
  using bookkeeping by (auto simp: ioReactorThreadCommitCallback_def Let_def split: option.split prod.split)

lemma keeps_commit_loop: "I s \<Longrightarrow> after I (commit_loop rs s)"
proof (induction rs arbitrary: s)
  case (Cons r rs)
  then show ?case by (auto intro: after_bind [OF keeps_commit_one])
qed simp

lemma keeps_commit: "I s \<Longrightarrow> st \<noteq> WAITCONNECTING \<Longrightarrow> after (\<lambda>(b, s). I s) (CommitCallbacks env st b s)"
  by (auto simp: CommitCallbacks_def intro!: after_bind [OF status] after_bind [OF keeps_commit_loop] bookkeeping)

lemma keeps_bytes_received: "I s \<Longrightarrow> after I (call_bytes_received env cb chunk s)"
  using bookkeeping(5) by (auto simp: call_bytes_received_def intro!: keeps_calls split: prod.split)

lemma keeps_connection: "I s \<Longrightarrow> after I (call_connection env cb st s)"
  using bookkeeping(5) by (auto simp: call_connection_def intro!: keeps_calls split: prod.split)

lemma keeps_shutdown:
  assumes "I s" "sid \<noteq> 0" "sid < 2 ^ 30"
  shows "after I (shutDownClosedStream env code sid s)"
proof -
  have freed': "I (if uint30_odd sid = uint30_odd (mHighestStreamID s)
      then s\<lparr>mFreeStreamIDs := tsq_push sid (mFreeStreamIDs s)\<rparr> else s)" if "I s" for s :: "('cb, 'c) mux"
    using freed [OF that assms(2,3)] that by simp
  have commit: "after I (sum_bind (CommitCallbacks env CONNECTED False s) (\<lambda>(_, s). f s))"
    if "I s" "\<And>s. I s \<Longrightarrow> after I (f s)" for s :: "('cb, 'c) mux" and f
    using that(2) by (intro after_bind [OF keeps_commit [OF that(1)]]) auto
  show ?thesis
    unfolding shutDownClosedStream_def Let_def
  proof (rule after_bind [where Q = I])
    show "after I (if code = control_code TCPStreamCloseStream
      then sum_bind (CommitCallbacks env CONNECTED False s) (\<lambda>(_, s).
             case mCallbacks s sid of
               None \<Rightarrow> Inr s
             | Some cb \<Rightarrow>
                 sum_bind (call_connection env cb Disconnected s) (\<lambda>s.
                 sum_bind (CommitCallbacks env CONNECTED False s) (\<lambda>(_, s).
                 if mCallbacks s sid = None then Inl End_dereferenced
                 else Inr (s\<lparr>mCallbacks := (mCallbacks s)(sid := None)\<rparr>))))
      else Inr s)"
      using assms(1) bookkeeping(2)
      by (auto intro!: commit after_bind [OF keeps_connection] split: option.split)
  next
    fix a assume "I a"
    then show "after I (Inr (if uint30_odd sid = uint30_odd (mHighestStreamID (a\<lparr>mOneSidedClosingStreams := mOneSidedClosingStreams a - {sid}\<rparr>))
        then a\<lparr>mOneSidedClosingStreams := mOneSidedClosingStreams a - {sid},
               mFreeStreamIDs := tsq_push sid (mFreeStreamIDs (a\<lparr>mOneSidedClosingStreams := mOneSidedClosingStreams a - {sid}\<rparr>))\<rparr>
        else a\<lparr>mOneSidedClosingStreams := mOneSidedClosingStreams a - {sid}\<rparr>))"
      unfolding after_simps by (intro freed' bookkeeping(4))
  qed
qed

lemma keeps_receive_close:
  assumes "I s" "sid \<noteq> 0" "sid < 2 ^ 30"
  shows "after I (receive_close env code sid s)"
proof -
  have shut: "after I (sum_bind (shutDownClosedStream env code sid s) (\<lambda>s.
      if code = control_code TCPStreamCloseStream then closeStream env sid TCPStreamAckCloseStream s else Inr s))"
    if "I s" for s
    using keeps_close by (auto intro!: after_bind [OF keeps_shutdown [OF that assms(2,3)]])
  show ?thesis
    using assms(1) shut bookkeeping(3) by (auto simp: receive_close_def Let_def split: option.split)
qed

lemma keeps_receive_data:
  assumes "I s"
  shows "after I (receive_data env sid chunk s)"
proof -
  have commit: "after I (sum_bind (CommitCallbacks env CONNECTED False s) (\<lambda>(_, s). f s))"
    if "I s" "\<And>s. I s \<Longrightarrow> after I (f s)" for s :: "('cb, 'c) mux" and f
    using that(2) by (intro after_bind [OF keeps_commit [OF that(1)]]) auto
  show ?thesis
    unfolding receive_data_def
  proof (rule commit [OF assms], goal_cases)
    case (1 s)
    then show ?case
      using bookkeeping(1,5) keeps_close keeps_bytes_received
      by (auto simp: Let_def addCallbacks_def intro!: commit after_bind [OF keeps_calls]
          split: option.split prod.split)
  qed
qed

lemma keeps_receive: "I s \<Longrightarrow> after I (receiveFullChunk env sid chunk s)"
  using keeps_receive_data keeps_receive_close unserialize_bounds
  by (auto simp: receiveFullChunk_def word_less_nat_alt split: list.split option.split)

lemma keeps_connection_loop: "I s \<Longrightarrow> after I (connection_loop env st ids s)"
proof (induction ids arbitrary: s)
  case (Cons i ids)
  have "after I (case mCallbacks s i of None \<Rightarrow> Inr s | Some cb \<Rightarrow> call_connection env cb st s)"
    using Cons.prems keeps_connection by (auto split: option.split)
  then show ?case using Cons.IH by (auto intro: after_bind)
qed simp

lemma keeps_connection_change: "I s \<Longrightarrow> status \<noteq> WAITCONNECTING \<Longrightarrow> after I (connectionFailureOrSuccessCallback env ids status st s)"
  unfolding connectionFailureOrSuccessCallback_def
  using keeps_connection_loop by (intro after_bind [OF keeps_commit]) auto

lemma keeps_op: "I s \<Longrightarrow> after I (mux_op env op s)"
  using keeps_call keeps_receive keeps_connection_change bookkeeping(1)
  by (cases op) (auto simp: addCallbacks_def connectedCallback_def connectionFailedCallback_def hostDisconnectedCallback_def)

lemma keeps_run: "I s \<Longrightarrow> after I (mux_run env ops s)"
proof (induction ops arbitrary: s)
  case (Cons op ops)
  then show ?case by (auto intro: after_bind [OF keeps_op])
qed simp

end

section \<open>What sending changes\<close>

text \<open>The fields a send leaves alone.\<close>

definition same_but_sockets :: "('cb, 'c) mux \<Rightarrow> ('cb, 'c) mux \<Rightarrow> bool" where
  "same_but_sockets s s' \<longleftrightarrow> (\<exists>q n. s' = s\<lparr>mSockets := q, rands := n\<rparr> \<and> length q = length (mSockets s))"

lemma same_but_sockets_fields:
  assumes "same_but_sockets s s'"
  shows "mNewRequests s' = mNewRequests s" "mSocketConnectionPhase s' = mSocketConnectionPhase s"
    "mCallbackRegistration s' = mCallbackRegistration s" "mCallbacks s' = mCallbacks s"
    "mAckedClosingStreams s' = mAckedClosingStreams s" "mOneSidedClosingStreams s' = mOneSidedClosingStreams s"
    "mHighestStreamID s' = mHighestStreamID s" "mFreeStreamIDs s' = mFreeStreamIDs s" "trace s' = trace s"
    "world s' = world s" "length (mSockets s') = length (mSockets s)"
  using assms by (auto simp: same_but_sockets_def)

lemma same_but_sockets_refl: "same_but_sockets s s"
  unfolding same_but_sockets_def by (rule exI [of _ "mSockets s"], rule exI [of _ "rands s"]) simp

lemma same_but_sockets_trans: "same_but_sockets s s' \<Longrightarrow> same_but_sockets s' s'' \<Longrightarrow> same_but_sockets s s''"
proof -
  assume "same_but_sockets s s'" "same_but_sockets s' s''"
  then obtain q n where "s'' = s\<lparr>mSockets := q, rands := n\<rparr>" "length q = length (mSockets s)"
    by (auto simp: same_but_sockets_def)
  then show ?thesis unfolding same_but_sockets_def by blast
qed

lemma fold_hand_over:
  "set is \<subseteq> {..< length (mSockets s)} \<Longrightarrow> distinct is \<Longrightarrow>
     fold (hand_over r) is s = s\<lparr>mSockets := map (\<lambda>k. mSockets s ! k @ (if k \<in> set is then [r] else [])) [0 ..< length (mSockets s)]\<rparr>"
proof (induction "is" arbitrary: s)
  case Nil
  then show ?case by (simp add: map_nth)
next
  case (Cons i "is")
  then show ?case
    by (auto simp: hand_over_def nth_list_update intro!: map_cong)
qed

lemma broadcast_sockets:
  assumes "mSockets s \<noteq> []"
  shows "hand_over r 0 (fold (hand_over r) [1 ..< length (mSockets s)] s) = s\<lparr>mSockets := map (\<lambda>q. q @ [r]) (mSockets s)\<rparr>"
proof -
  have "hand_over r 0 (fold (hand_over r) [1 ..< length (mSockets s)] s)
      = fold (hand_over r) ([1 ..< length (mSockets s)] @ [0]) s" by simp
  also have "\<dots> = s\<lparr>mSockets := map (\<lambda>k. mSockets s ! k @ (if k \<in> set ([1 ..< length (mSockets s)] @ [0]) then [r] else []))
      [0 ..< length (mSockets s)]\<rparr>"
    using assms by (intro fold_hand_over) auto
  also have "map (\<lambda>k. mSockets s ! k @ (if k \<in> set ([1 ..< length (mSockets s)] @ [0]) then [r] else []))
      [0 ..< length (mSockets s)] = map (\<lambda>q. q @ [r]) (mSockets s)"
    by (rule nth_equalityI) auto
  finally show ?thesis .
qed

text \<open>The requests whose order is kept, and the socket each of them goes to.\<close>

definition in_order :: "raw_request \<Rightarrow> bool" where
  "in_order r \<longleftrightarrow> originStream r = 0 \<or> \<not> unordered r \<and> \<not> unreliable r"

definition goes_to :: "('cb, 'c) mux_env \<Rightarrow> nat \<Rightarrow> nat \<Rightarrow> raw_request \<Rightarrow> bool" where
  "goes_to env n k r \<longleftrightarrow> originStream r = 0
     \<or> \<not> unordered r \<and> \<not> unreliable r \<and> hasher env (originStream r) mod n = k"

lemma sendBytesNow_sends:
  assumes "mSockets s \<noteq> []"
  shows "\<exists>s'. sendBytesNow env r s = Inr s' \<and> same_but_sockets s s' \<and> (\<forall>k<length (mSockets s).
    filter in_order (mSockets s' ! k) = filter in_order (mSockets s ! k) @ filter (goes_to env (length (mSockets s)) k) [r])"
proof (cases "originStream r = 0")
  case True
  let ?s = "s\<lparr>mSockets := map (\<lambda>q. q @ [r]) (mSockets s)\<rparr>"
  have "sendBytesNow env r s = Inr ?s"
    using True assms broadcast_sockets [OF assms] by (simp add: sendBytesNow_def)
  moreover have "same_but_sockets s ?s"
    unfolding same_but_sockets_def
    by (rule exI [of _ "map (\<lambda>q. q @ [r]) (mSockets s)"], rule exI [of _ "rands s"]) simp
  ultimately show ?thesis using True by (auto simp: in_order_def goes_to_def)
next
  case False
  define which where "which = (if unordered r then rand_at env (rands s) else hasher env (originStream r)) mod length (mSockets s)"
  define u where "u = (if unordered r then rands s + 1 else rands s)"
  define keep where "keep = (unreliable r \<longrightarrow> passes env u)"
  let ?s = "s\<lparr>rands := (if unreliable r then u + 1 else u),
      mSockets := (if keep then (mSockets s)[which := mSockets s ! which @ [r]] else mSockets s)\<rparr>"
  have eq: "sendBytesNow env r s = Inr ?s"
    using False assms by (simp add: sendBytesNow_def leastBusyStream_def hand_over_def which_def u_def keep_def Let_def)
  have "same_but_sockets s ?s"
    unfolding same_but_sockets_def
    by (rule exI [of _ "if keep then (mSockets s)[which := mSockets s ! which @ [r]] else mSockets s"],
        rule exI [of _ "if unreliable r then u + 1 else u"]) simp
  moreover have "filter in_order (mSockets ?s ! k)
      = filter in_order (mSockets s ! k) @ filter (goes_to env (length (mSockets s)) k) [r]"
    if "k < length (mSockets s)" for k
  proof -
    have "which < length (mSockets s)" using assms by (simp add: which_def)
    moreover have "goes_to env (length (mSockets s)) k r \<longleftrightarrow> in_order r \<and> keep \<and> k = which"
      using False by (auto simp: in_order_def goes_to_def which_def keep_def)
    ultimately show ?thesis by (cases "k = which") (auto simp: in_order_def)
  qed
  ultimately show ?thesis using eq by blast
qed

lemma send_requests_sends:
  assumes "mSockets s \<noteq> []"
  shows "\<exists>s'. send_requests env rs s = Inr s' \<and> same_but_sockets s s' \<and> (\<forall>k<length (mSockets s).
    filter in_order (mSockets s' ! k) = filter in_order (mSockets s ! k) @ filter (goes_to env (length (mSockets s)) k) rs)"
  using assms
proof (induction rs arbitrary: s)
  case Nil
  then show ?case by (simp add: same_but_sockets_refl)
next
  case (Cons r rs)
  obtain s\<^sub>1 where s1: "sendBytesNow env r s = Inr s\<^sub>1" "same_but_sockets s s\<^sub>1" "\<forall>k<length (mSockets s).
      filter in_order (mSockets s\<^sub>1 ! k) = filter in_order (mSockets s ! k) @ filter (goes_to env (length (mSockets s)) k) [r]"
    using sendBytesNow_sends [OF Cons.prems, of env r] by blast
  have len: "length (mSockets s\<^sub>1) = length (mSockets s)" using s1(2) by (rule same_but_sockets_fields)
  then have "mSockets s\<^sub>1 \<noteq> []" using Cons.prems by auto
  from Cons.IH [OF this] obtain s' where s': "send_requests env rs s\<^sub>1 = Inr s'" "same_but_sockets s\<^sub>1 s'"
      "\<forall>k<length (mSockets s). filter in_order (mSockets s' ! k)
        = filter in_order (mSockets s\<^sub>1 ! k) @ filter (goes_to env (length (mSockets s)) k) rs"
    unfolding len by blast
  show ?case
    using s1 s' same_but_sockets_trans [OF s1(2) s'(2)] by (intro exI [of _ s']) simp
qed

section \<open>The invariants of a connection\<close>

text \<open>
  The ids this side may hand out have its parity: odd on the connecting side, even on the listening
  side.
\<close>

definition ids_ok :: "bool \<Rightarrow> ('cb, 'c) mux \<Rightarrow> bool" where
  "ids_ok parity s \<longleftrightarrow> uint30_odd (mHighestStreamID s) = parity
     \<and> (\<forall>i \<in> set (mList (mFreeStreamIDs s)). i \<noteq> 0 \<and> i < 2 ^ 30 \<and> uint30_odd i = parity)"

lemma uint30_odd_bit: "uint30_odd i \<longleftrightarrow> odd i"
  by (simp add: uint30_odd_def and_one_eq odd_iff_mod_2_eq_one)

lemma ids_ok_cong:
  "ids_ok p s \<Longrightarrow> mHighestStreamID s' = mHighestStreamID s \<Longrightarrow> mFreeStreamIDs s' = mFreeStreamIDs s \<Longrightarrow> ids_ok p s'"
  by (simp add: ids_ok_def)

lemma getNewID_ids:
  assumes "ids_ok p s"
  shows "after (\<lambda>(i, s). ids_ok p s \<and> i \<noteq> 0 \<and> i < 2 ^ 30 \<and> uint30_odd i = p) (getNewID s)"
proof (cases "mList (mFreeStreamIDs s)")
  case Nil
  have "(2 :: u32) \<noteq> 0" by simp
  then show ?thesis
    using assms Nil
    by (auto simp: getNewID_def probablyEmpty_def Let_def uint30_make_def ids_ok_def uint30_odd_bit split: option.split)
next
  case (Cons i rest)
  then show ?thesis using assms by (simp add: getNewID_def probablyEmpty_def tsq_pop_def ids_ok_def)
qed

text \<open>
  The requests that keep their order were handed to their sockets, or wait, in the order in which
  they were accepted.
\<close>

fun accepted :: "'cb mux_event list \<Rightarrow> raw_request list" where
  "accepted [] = []"
| "accepted (Send_accepted r # es) = r # accepted es"
| "accepted (_ # es) = accepted es"

lemma accepted_append [simp]: "accepted (es @ es') = accepted es @ accepted es'"
  by (induction es rule: accepted.induct) simp_all

definition order_ok :: "('cb, 'c) mux_env \<Rightarrow> nat \<Rightarrow> ('cb, 'c) mux \<Rightarrow> bool" where
  "order_ok env n s \<longleftrightarrow> length (mSockets s) = n \<and> mSocketConnectionPhase s \<noteq> WAITCONNECTING
     \<and> (mSocketConnectionPhase s = CONNECTED \<longrightarrow> mNewRequests s = [])
     \<and> (\<forall>k<n. filter in_order (mSockets s ! k) @ filter (goes_to env n k) (mNewRequests s)
            = filter (goes_to env n k) (accepted (trace s)))"

lemma sendBytes_result:
  assumes "mSockets s \<noteq> []"
  shows "after (\<lambda>s'. \<exists>s\<^sub>1. s\<^sub>1 = s\<lparr>trace := trace s @ [Send_accepted r]\<rparr> \<and>
     (mSocketConnectionPhase s = CONNECTED \<and> same_but_sockets s\<^sub>1 s' \<and> (\<forall>k<length (mSockets s).
        filter in_order (mSockets s' ! k) = filter in_order (mSockets s ! k) @ filter (goes_to env (length (mSockets s)) k) [r])
      \<or> mSocketConnectionPhase s \<noteq> CONNECTED \<and> s' = s\<^sub>1\<lparr>mNewRequests := mNewRequests s @ [r]\<rparr>)) (sendBytes env r s)"
  using sendBytesNow_sends [of "s\<lparr>trace := trace s @ [Send_accepted r]\<rparr>" env r] assms
  by (auto simp: sendBytes_def Let_def split: SocketConnectionPhase.split)

lemma sendBytes_order:
  assumes "0 < n" "order_ok env n s"
  shows "after (order_ok env n) (sendBytes env r s)"
proof (cases "sendBytes env r s")
  case (Inr s')
  have "mSockets s \<noteq> []" using assms by (auto simp: order_ok_def)
  from sendBytes_result [OF this, where env = env and r = r] consider
    (sent) "mSocketConnectionPhase s = CONNECTED" "same_but_sockets (s\<lparr>trace := trace s @ [Send_accepted r]\<rparr>) s'"
      "\<forall>k<length (mSockets s). filter in_order (mSockets s' ! k)
        = filter in_order (mSockets s ! k) @ filter (goes_to env (length (mSockets s)) k) [r]"
    | (queued) "mSocketConnectionPhase s \<noteq> CONNECTED"
      "s' = s\<lparr>trace := trace s @ [Send_accepted r], mNewRequests := mNewRequests s @ [r]\<rparr>"
    unfolding Inr by auto
  then show ?thesis
  proof cases
    case sent
    note same_but_sockets_fields [OF sent(2), simplified]
    with sent assms(2) show ?thesis unfolding Inr by (auto simp: order_ok_def)
  next
    case queued
    with assms(2) show ?thesis unfolding Inr by (simp add: order_ok_def)
  qed
qed simp

lemma commit_status_order:
  assumes "0 < n" "order_ok env n s" "st \<noteq> WAITCONNECTING"
  shows "after (\<lambda>(b, s). order_ok env n s) (commit_status env st b s)"
proof (cases "st = CONNECTED")
  case True
  have ne: "mSockets s \<noteq> []" using assms by (auto simp: order_ok_def)
  then obtain s' where s': "send_requests env (mNewRequests s) (s\<lparr>mNewRequests := []\<rparr>) = Inr s'"
      "same_but_sockets (s\<lparr>mNewRequests := []\<rparr>) s'" "\<forall>k<length (mSockets s).
        filter in_order (mSockets s' ! k) = filter in_order (mSockets s ! k) @ filter (goes_to env (length (mSockets s)) k) (mNewRequests s)"
    using send_requests_sends [of "s\<lparr>mNewRequests := []\<rparr>" env "mNewRequests s"] by auto
  note f = same_but_sockets_fields [OF s'(2), simplified]
  have "commit_status env st b s = Inr (st \<noteq> mSocketConnectionPhase s', if b then s'\<lparr>mSocketConnectionPhase := CONNECTED\<rparr> else s')"
    using True s'(1) f(1) by (simp add: commit_status_def Let_def)
  then show ?thesis using assms(2) s'(3) f by (simp add: order_ok_def)
next
  case False
  then show ?thesis
    using assms by (cases st) (simp_all add: commit_status_def Let_def order_ok_def)
qed

lemma commit_status_same_ids:
  fixes env :: "('cb, 'c) mux_env"
  assumes "ids_ok p s"
  shows "after (\<lambda>(b, s). ids_ok p s) (commit_status env st b s)"
proof -
  have reqs: "after (ids_ok p) (send_requests env rs s)" if "ids_ok p s" for rs and s :: "('cb, 'c) mux"
  proof (cases "mSockets s = []")
    case True
    then show ?thesis using that by (cases rs) (simp_all add: sendBytesNow_def)
  next
    case False
    then show ?thesis
      using send_requests_sends [OF False, of env rs] that by (auto dest: same_but_sockets_fields elim!: ids_ok_cong)
  qed
  have upd: "ids_ok p (s\<lparr>mNewRequests := x\<rparr>)" "ids_ok p (s\<lparr>mSocketConnectionPhase := y\<rparr>)"
    "ids_ok p (s\<lparr>mNewRequests := x, mSocketConnectionPhase := y\<rparr>)"
    if "ids_ok p s" for s :: "('cb, 'c) mux" and x y
    using that by (simp_all add: ids_ok_def)
  have first: "after (ids_ok p) (if st = CONNECTED then send_requests env (mNewRequests s) (s\<lparr>mNewRequests := []\<rparr>) else Inr s)"
    using assms reqs [OF upd(1)] by simp
  show ?thesis
    unfolding commit_status_def Let_def
    by (rule after_bind [OF first]) (auto intro!: upd after_bind [OF reqs])
qed

lemma sendBytes_same_ids: "ids_ok p s \<Longrightarrow> after (ids_ok p) (sendBytes env r s)"
proof (cases "mSockets s = []")
  case True
  assume "ids_ok p s"
  then show ?thesis
    using True by (auto simp: sendBytes_def Let_def sendBytesNow_def ids_ok_def split: SocketConnectionPhase.split)
next
  case False
  assume "ids_ok p s"
  with sendBytes_result [OF False, where env = env and r = r] show ?thesis
    by (cases "sendBytes env r s") (auto simp: ids_ok_def same_but_sockets_def)
qed

interpretation stream_ids: mux_invariant env "ids_ok p" for env p
proof (unfold_locales, goal_cases)
  case (6 s r)
  then show ?case by (rule sendBytes_same_ids)
next
  case (7 s st b)
  from 7(1) show ?case by (rule commit_status_same_ids)
next
  case (8 s)
  have "after (\<lambda>(i, s). ids_ok p s \<and> i \<noteq> 0 \<and> i < 2 ^ 30 \<and> uint30_odd i = p) (getNewID s)"
    using 8 by (rule getNewID_ids)
  then show ?case by (cases "getNewID s") auto
qed (auto simp: ids_ok_def tsq_push_def)

interpretation send_order: mux_invariant env "order_ok env (Suc n)" for env n
proof (unfold_locales, goal_cases)
  case (5 s e w)
  then show ?case by (cases e) (auto simp: order_ok_def)
next
  case (6 s r)
  then show ?case by (intro sendBytes_order) simp_all
next
  case (7 s st b)
  then show ?case by (intro commit_status_order) simp_all
next
  case (8 s)
  then show ?case
    by (auto simp: getNewID_def Let_def order_ok_def split: option.split prod.split)
qed (auto simp: order_ok_def)

section \<open>Closing a stream\<close>

text \<open>The content of the control packet for a stream, after its length and the id of stream 0.\<close>

definition close_chunk :: "TCPStreamControlCodes \<Rightarrow> u32 \<Rightarrow> u8 list" where
  "close_chunk code sid = control_code code # (case serialize sid MAX_SERIALIZED_LENGTH of None \<Rightarrow> [] | Some bs \<Rightarrow> bs)"

lemma receive_control:
  assumes "sid \<noteq> 0" "sid < 2 ^ 30"
  shows "receiveFullChunk env 0 (close_chunk code sid) s = receive_close env (control_code code) sid s"
proof -
  obtain bs where bs: "serialize sid MAX_SERIALIZED_LENGTH = Some bs"
    using assms(2) serialize_Some_iff [of sid 4] by (auto simp: MAX_SERIALIZED_LENGTH_def)
  then have "bs \<noteq> []" using serialize_length by fastforce
  moreover have "unserialize bs = Some (sid, length bs)"
    using unserialize_serialize [OF bs, of "[]"] by simp
  ultimately show ?thesis
    using assms(1) by (cases code) (simp_all add: receiveFullChunk_def close_chunk_def bs control_code_def)
qed

definition close_request :: "TCPStreamControlCodes \<Rightarrow> u32 \<Rightarrow> raw_request" where
  "close_request code sid = \<lparr>unordered = False, unreliable = False, originStream = 0,
     request_data = the (constructControlPacket (replicate 24 0) code sid)\<rparr>"

lemma closeStream_sends:
  assumes "sid < 2 ^ 30"
  shows "closeStream env sid code s = sendBytes env (close_request code sid) s"
proof -
  obtain c where "constructControlPacket (replicate 24 0) code sid = Some c"
    using constructControlPacket_packet [of sid "replicate 24 0" code] assms by auto
  then show ?thesis by (simp add: closeStream_def close_request_def)
qed

text \<open>On an established connection a control packet goes to every socket at once.\<close>

lemma closeStream_connected:
  assumes "sid < 2 ^ 30" "mSocketConnectionPhase s = CONNECTED" "mSockets s \<noteq> []"
  shows "closeStream env sid code s = Inr (s\<lparr>trace := trace s @ [Send_accepted (close_request code sid)],
     mSockets := map (\<lambda>q. q @ [close_request code sid]) (mSockets s)\<rparr>)"
proof -
  have "originStream (close_request code sid) = 0" by (simp add: close_request_def)
  then show ?thesis
    using assms broadcast_sockets [of "s\<lparr>trace := trace s @ [Send_accepted (close_request code sid)]\<rparr>"]
    by (simp add: closeStream_sends sendBytes_def Let_def sendBytesNow_def)
qed

lemma CommitCallbacks_nothing: "mCallbackRegistration s = [] \<Longrightarrow> CommitCallbacks env st False s = Inr (False, s)"
  by (simp add: CommitCallbacks_def)

text \<open>A connected state with nothing waiting, in which the stream \<open>sid\<close> has callbacks.\<close>

definition established :: "u32 \<Rightarrow> ('cb, 'c) mux \<Rightarrow> bool" where
  "established sid s \<longleftrightarrow> mSocketConnectionPhase s = CONNECTED \<and> mSockets s \<noteq> [] \<and> mNewRequests s = []
     \<and> mCallbackRegistration s = [] \<and> mAckedClosingStreams s sid = None \<and> sid \<noteq> 0 \<and> sid < 2 ^ 30"

lemma commit_close:
  assumes "mSocketConnectionPhase s = CONNECTED" "mNewRequests s = []" "mCallbackRegistration s = [(sid, None)]"
    "mCallbacks s sid = Some cb"
  shows "CommitCallbacks env CONNECTED False s = Inr (False, s\<lparr>mCallbackRegistration := [],
     mOneSidedClosingStreams := insert sid (mOneSidedClosingStreams s), mCallbacks := (mCallbacks s)(sid := None)\<rparr>)"
  using assms by (simp add: CommitCallbacks_def commit_status_def ioReactorThreadCommitCallback_def Let_def)

text \<open>
  Packets of one stream as they arrive on the sockets of the connection: the socket, and the data or
  the close of the stream.
\<close>

type_synonym arrival = "nat \<times> u8 list option"

fun arrival_op :: "u32 \<Rightarrow> arrival \<Rightarrow> 'cb mux_operation" where
  "arrival_op sid (k, Some d) = Receive sid d"
| "arrival_op sid (k, None) = Receive 0 (close_chunk TCPStreamCloseStream sid)"

definition arrived_data :: "arrival list \<Rightarrow> u8 list list" where
  "arrived_data xs = concat (map (\<lambda>(k, x). case x of None \<Rightarrow> [] | Some d \<Rightarrow> [d]) xs)"

definition closes :: "arrival list \<Rightarrow> nat" where
  "closes xs = length (filter (\<lambda>p. snd p = None) xs)"

text \<open>The packets of each socket end with the close of the stream, which is its only one.\<close>

definition closed_on_all :: "nat \<Rightarrow> arrival list \<Rightarrow> bool" where
  "closed_on_all n xs \<longleftrightarrow> (\<forall>p\<in>set xs. fst p < n)
     \<and> (\<forall>k<n. \<exists>ds. map snd (filter (\<lambda>p. fst p = k) xs) = map Some ds @ [None])"

lemma sum_lengths_filter: "\<forall>p\<in>set xs. fst p < (n :: nat) \<Longrightarrow> (\<Sum>k<n. length (filter (\<lambda>p. fst p = k) xs)) = length xs"
proof (induction xs)
  case (Cons x xs)
  have "length (filter (\<lambda>p. fst p = k) (x # xs)) = length (filter (\<lambda>p. fst p = k) xs) + (if k = fst x then 1 else 0)" for k
    by simp
  moreover have "(\<Sum>k<n. if k = fst x then 1 else 0) = (1 :: nat)"
    using Cons.prems by (subst sum.delta) simp_all
  ultimately show ?case using Cons by (simp only: sum.distrib) simp
qed simp

lemma closed_on_all_counts:
  assumes "closed_on_all n xs" "0 < n"
  shows "\<exists>ys k. xs = ys @ [(k, None)] \<and> Suc (closes ys) = n"
proof -
  have one: "length (filter (\<lambda>p. fst p = k) (filter (\<lambda>p. snd p = None) xs)) = 1" if "k < n" for k
  proof -
    obtain ds where ds: "map snd (filter (\<lambda>p. fst p = k) xs) = map Some ds @ [None]"
      using assms(1) \<open>k < n\<close> unfolding closed_on_all_def by blast
    have "length (filter (\<lambda>p. snd p = None) (filter (\<lambda>p. fst p = k) xs))
        = length (filter (\<lambda>x. x = None) (map snd (filter (\<lambda>p. fst p = k) xs)))"
      by (simp add: filter_map comp_def)
    also have "\<dots> = 1" unfolding ds by (simp add: filter_map comp_def)
    finally show ?thesis by (simp add: conj_commute)
  qed
  have "\<forall>p\<in>set (filter (\<lambda>p. snd p = None) xs). fst p < n" using assms(1) by (auto simp: closed_on_all_def)
  from sum_lengths_filter [OF this] have total: "closes xs = n"
    using one by (simp add: closes_def del: filter_filter)
  then have "xs \<noteq> []" using assms(2) by (auto simp: closes_def)
  then obtain ys k x where xs: "xs = ys @ [(k, x)]" by (metis append_butlast_last_id surj_pair)
  then have "k < n" using assms(1) by (simp add: closed_on_all_def)
  then have "x = None" using assms(1) xs by (fastforce simp: closed_on_all_def)
  then show ?thesis using xs total by (auto simp: closes_def)
qed

text \<open>A client whose callbacks for the stream make no calls.\<close>

definition quiet :: "('cb, 'c) mux_env \<Rightarrow> 'cb \<Rightarrow> bool" where
  "quiet env cb \<longleftrightarrow> (\<forall>d w. fst (on_bytes env cb d w) = []) \<and> (\<forall>w. fst (on_connection env cb Disconnected w) = [])"

text \<open>The state while closes are still missing.\<close>

definition waiting :: "u32 \<Rightarrow> nat \<Rightarrow> 'c \<Rightarrow> 'cb mux_event list \<Rightarrow> ('cb, 'c) mux \<Rightarrow> ('cb, 'c) mux" where
  "waiting sid c w es s = s\<lparr>world := w, trace := trace s @ es,
     mAckedClosingStreams := (mAckedClosingStreams s)(sid := (if c = 0 then None else Some (of_nat c)))\<rparr>"

lemma receive_waiting_data:
  assumes "established sid s" "mCallbacks s sid = Some cb" "quiet env cb"
  shows "\<exists>w'. receiveFullChunk env sid d (waiting sid c w es s) = Inr (waiting sid c w' (es @ [Bytes_received cb d]) s)"
proof -
  obtain w' where "on_bytes env cb d w = ([], w')"
    using assms(3) by (metis quiet_def prod.collapse)
  then show ?thesis
    using assms
    by (intro exI [of _ w'])
      (simp add: receiveFullChunk_def receive_data_def waiting_def established_def CommitCallbacks_nothing
        call_bytes_received_def)
qed

lemma receive_waiting_close:
  assumes "established sid s" "Suc c < length (mSockets s)" "length (mSockets s) < 2 ^ 32"
  shows "receiveFullChunk env 0 (close_chunk TCPStreamCloseStream sid) (waiting sid c w es s)
    = Inr (waiting sid (Suc c) w es s)"
proof -
  have "unat (of_nat (Suc c) :: u32) = Suc c" "unat (of_nat (length (mSockets s)) :: u32) = length (mSockets s)"
    using assms(2,3) by (intro unat_of_nat_eq; simp)+
  then have "(of_nat (Suc c) :: u32) \<noteq> of_nat (length (mSockets s))" using assms(2) by (metis less_irrefl)
  then have "1 + of_nat c \<noteq> (of_nat (length (mSockets s)) :: u32)" by simp
  then show ?thesis
    using assms(1,2)
    by (simp add: established_def receive_control receive_close_def waiting_def Let_def add.commute)
qed

lemma run_waiting:
  assumes "established sid s" "mCallbacks s sid = Some cb" "quiet env cb" "length (mSockets s) < 2 ^ 32"
    and "c + closes xs < length (mSockets s)"
  shows "\<exists>w'. mux_run env (map (arrival_op sid) xs) (waiting sid c w es s)
    = Inr (waiting sid (c + closes xs) w' (es @ map (Bytes_received cb) (arrived_data xs)) s)"
  using assms(5)
proof (induction xs arbitrary: c w es)
  case Nil
  then show ?case by (auto simp: closes_def arrived_data_def)
next
  case (Cons x xs)
  obtain k y where x: "x = (k, y)" by force
  show ?case
  proof (cases y)
    case None
    then have "Suc c < length (mSockets s)" "Suc c + closes xs < length (mSockets s)"
      using Cons.prems by (simp_all add: x closes_def)
    then show ?thesis
      using Cons.IH [of "Suc c" w es] receive_waiting_close [OF assms(1) _ assms(4)]
      by (simp add: x None closes_def arrived_data_def)
  next
    case (Some d)
    obtain w' where "receiveFullChunk env sid d (waiting sid c w es s) = Inr (waiting sid c w' (es @ [Bytes_received cb d]) s)"
      using receive_waiting_data [OF assms(1-3)] by blast
    then show ?thesis
      using Cons.IH [of c w' "es @ [Bytes_received cb d]"] Cons.prems
      by (simp add: x Some closes_def arrived_data_def)
  qed
qed

lemma receive_last_close:
  assumes "established sid s" "mCallbacks s sid = Some cb" "quiet env cb" "Suc c = length (mSockets s)"
  shows "\<exists>s'. receiveFullChunk env 0 (close_chunk TCPStreamCloseStream sid) (waiting sid c w es s) = Inr s'
    \<and> trace s' = trace s @ es @ [Connection_callback cb Disconnected, Send_accepted (close_request TCPStreamAckCloseStream sid)]
    \<and> mCallbacks s' = (mCallbacks s)(sid := None)
    \<and> mSockets s' = map (\<lambda>q. q @ [close_request TCPStreamAckCloseStream sid]) (mSockets s)"
proof -
  note est = assms(1) [unfolded established_def]
  obtain w' where w': "on_connection env cb Disconnected w = ([], w')"
    using assms(3) by (metis quiet_def prod.collapse)
  let ?s = "s\<lparr>world := w, trace := trace s @ es\<rparr>"
  have erased: "(waiting sid c w es s)\<lparr>mAckedClosingStreams := (mAckedClosingStreams s)(sid := None)\<rparr> = ?s"
    using est by (auto simp: waiting_def intro!: mux.equality)
  let ?s1 = "?s\<lparr>world := w', trace := trace s @ es @ [Connection_callback cb Disconnected],
      mCallbacks := (mCallbacks s)(sid := None), mOneSidedClosingStreams := mOneSidedClosingStreams s - {sid},
      mFreeStreamIDs := (if uint30_odd sid = uint30_odd (mHighestStreamID s)
        then tsq_push sid (mFreeStreamIDs s) else mFreeStreamIDs s)\<rparr>"
  have shut: "shutDownClosedStream env 1 sid ?s = Inr ?s1"
    using est assms(2) w'
    by (simp add: shutDownClosedStream_def control_code_def CommitCallbacks_nothing call_connection_def)
  have "of_nat c + 1 = (of_nat (length (mSockets s)) :: u32)"
    using arg_cong [OF assms(4), of "of_nat :: nat \<Rightarrow> u32"] by (simp add: add.commute)
  then have "receive_close env 1 sid (waiting sid c w es s) = closeStream env sid TCPStreamAckCloseStream ?s1"
    using est assms(4) shut erased
    by (cases "c = 0") (simp_all add: receive_close_def waiting_def control_code_def Let_def)
  moreover have "closeStream env sid TCPStreamAckCloseStream ?s1
      = Inr (?s1\<lparr>trace := trace ?s1 @ [Send_accepted (close_request TCPStreamAckCloseStream sid)],
          mSockets := map (\<lambda>q. q @ [close_request TCPStreamAckCloseStream sid]) (mSockets ?s1)\<rparr>)"
    using est by (intro closeStream_connected) simp_all
  ultimately show ?thesis
    using est by (simp add: receive_control control_code_def)
qed

text \<open>A client for examples: it makes no calls, except that callback 7 closes stream 3 when disconnected.\<close>

definition sample_env :: "(nat, unit) mux_env" where
  "sample_env = \<lparr>rand_at = (\<lambda>_. 0), passes = (\<lambda>_. True), hasher = unat,
     on_bytes = (\<lambda>cb d w. ([], w)), on_connection = (\<lambda>cb st w. (if cb = 7 then [Close_stream 3] else [], w)),
     on_substream = (\<lambda>i w. (Some 1, [], w))\<rparr>"

definition sample_mux :: "nat \<Rightarrow> nat \<Rightarrow> (nat, unit) mux" where
  "sample_mux n cb = (mux_new n 3 ())\<lparr>mSocketConnectionPhase := CONNECTED, mCallbacks := [3 \<mapsto> cb]\<rparr>"

lemma sample_established: "0 < n \<Longrightarrow> established 3 (sample_mux n cb)" "mCallbacks (sample_mux n cb) 3 = Some cb"
  "length (mSockets (sample_mux n cb)) = n"
  by (simp_all add: established_def sample_mux_def mux_new_def)

section \<open>Properties\<close>

text \<open>
  C8: stream ids of the two sides never clash. Whatever clients do and whatever packets arrive, an id
  handed out by \<open>getNewID\<close> is not the id 0 of control packets, fits 30 bits, and is odd on the side that
  connected and even on the side that listened.
\<close>

theorem stream_ids_have_own_parity:
  assumes "mux_run env ops (mux_new n highest w) = Inr s" and "getNewID s = Inr (i, s')"
  shows "i \<noteq> 0 \<and> i < 2 ^ 30 \<and> (uint30_odd i \<longleftrightarrow> uint30_odd highest)"
proof -
  have "ids_ok (uint30_odd highest) (mux_new n highest w)"
    by (simp add: ids_ok_def mux_new_def tsq_init_def)
  from stream_ids.keeps_run [OF this, of env ops] have "ids_ok (uint30_odd highest) s" by (simp add: assms(1))
  from getNewID_ids [OF this] show ?thesis by (simp add: assms(2))
qed

theorem stream_ids_have_own_parity_witness:
  "\<exists>s s'. mux_run sample_env [Client_call (Clone_stream 2)] (mux_new 1 1 ()) = Inr s \<and> getNewID s = Inr (5, s')
     \<and> (5 :: u32) \<noteq> 0 \<and> (5 :: u32) < 2 ^ 30 \<and> (uint30_odd 5 \<longleftrightarrow> uint30_odd 1)"
proof -
  let ?s = "(mux_new 1 1 ())\<lparr>mHighestStreamID := 3, mCallbackRegistration := [(3, Some 2)]\<rparr>"
  have run: "mux_run sample_env [Client_call (Clone_stream 2)] (mux_new 1 1 ()) = Inr ?s"
    by (simp add: do_stream_call_def stream_cloneFrom_def getNewID_def addCallbacks_def mux_new_def tsq_init_def probablyEmpty_def uint30_make_def)
  have new: "getNewID ?s = Inr (5, ?s\<lparr>mHighestStreamID := 5\<rparr>)"
    by (simp add: getNewID_def mux_new_def tsq_init_def probablyEmpty_def uint30_make_def)
  show ?thesis using run new stream_ids_have_own_parity [OF run new] by blast
qed





text \<open>
  C18: an id can be handed out twice. When both sides close a stream at the same time, the side that
  allocated its id receives a close and an acknowledgement for it and puts the id on the free list for
  each of them: the next two new streams share the id.
\<close>

theorem simultaneous_close_duplicates_id:
  assumes "established sid s" "length (mSockets s) = 1" "mCallbacks s sid = Some cb"
    "uint30_odd sid = uint30_odd (mHighestStreamID s)" "mList (mFreeStreamIDs s) = []"
  shows "\<exists>s' s\<^sub>1 s\<^sub>2. mux_run env [Client_call (Close_stream sid), Receive 0 (close_chunk TCPStreamCloseStream sid),
      Receive 0 (close_chunk TCPStreamAckCloseStream sid)] s = Inr s'
    \<and> getNewID s' = Inr (sid, s\<^sub>1) \<and> getNewID s\<^sub>1 = Inr (sid, s\<^sub>2)"
proof -
  note est = assms(1) [unfolded established_def]
  let ?c = "close_request TCPStreamCloseStream sid" and ?a = "close_request TCPStreamAckCloseStream sid"
  let ?s1 = "s\<lparr>mCallbackRegistration := [(sid, None)], trace := trace s @ [Send_accepted ?c],
      mSockets := map (\<lambda>q. q @ [?c]) (mSockets s)\<rparr>"
  have one: "mux_op env (Client_call (Close_stream sid)) s = Inr ?s1"
    using est closeStream_connected [of sid "s\<lparr>mCallbackRegistration := [(sid, None)]\<rparr>" env TCPStreamCloseStream]
    by (simp add: do_stream_call_def stream_close_def addCallbacks_def)
  let ?s2 = "?s1\<lparr>mCallbackRegistration := [], mOneSidedClosingStreams := insert sid (mOneSidedClosingStreams s) - {sid},
      mCallbacks := (mCallbacks s)(sid := None), mFreeStreamIDs := tsq_push sid (mFreeStreamIDs s)\<rparr>"
  have shut: "shutDownClosedStream env 1 sid ?s1 = Inr ?s2"
    using est commit_close [of ?s1 sid cb env] assms(3,4)
    by (simp add: shutDownClosedStream_def control_code_def)
  let ?s3 = "?s2\<lparr>trace := trace ?s2 @ [Send_accepted ?a], mSockets := map (\<lambda>q. q @ [?a]) (mSockets ?s2)\<rparr>"
  have two: "receiveFullChunk env 0 (close_chunk TCPStreamCloseStream sid) ?s1 = Inr ?s3"
    using est assms(2) shut closeStream_connected [of sid ?s2 env TCPStreamAckCloseStream]
    by (simp add: receive_control receive_close_def control_code_def Let_def)
  have three: "receiveFullChunk env 0 (close_chunk TCPStreamAckCloseStream sid) ?s3
      = Inr (?s3\<lparr>mOneSidedClosingStreams := mOneSidedClosingStreams ?s3 - {sid},
          mFreeStreamIDs := tsq_push sid (mFreeStreamIDs ?s3)\<rparr>)"
    using est assms(2,4)
    by (simp add: receive_control receive_close_def control_code_def Let_def shutDownClosedStream_def)
  show ?thesis
    using one two three assms(5)
    by (simp add: getNewID_def probablyEmpty_def tsq_pop_def tsq_push_def)
qed

theorem simultaneous_close_duplicates_id_witness:
  "\<exists>s' s\<^sub>1 s\<^sub>2. mux_run sample_env [Client_call (Close_stream 3), Receive 0 (close_chunk TCPStreamCloseStream 3),
      Receive 0 (close_chunk TCPStreamAckCloseStream 3)] (sample_mux 1 2) = Inr s'
    \<and> getNewID s' = Inr (3, s\<^sub>1) \<and> getNewID s\<^sub>1 = Inr (3, s\<^sub>2)"
  by (rule simultaneous_close_duplicates_id [where cb = 2], simp_all add: sample_established)
    (simp_all add: sample_mux_def mux_new_def tsq_init_def)


text \<open>
  Closing a stream from its own disconnection callback is undefined behaviour. When the last close
  packet of a stream arrives and the client answers the \<open>Disconnected\<close> callback by closing the stream, the
  callbacks are erased by the second commit and the end iterator is dereferenced and erased.
\<close>

lemma close_in_disconnect_callback_undefined:
  assumes "established sid s" "length (mSockets s) = 1" "mCallbacks s sid = Some cb"
    "on_connection env cb Disconnected (world s) = ([Close_stream sid], w)"
  shows "mux_op env (Receive 0 (close_chunk TCPStreamCloseStream sid)) s = Inl End_dereferenced"
proof -
  note est = assms(1) [unfolded established_def]
  let ?c = "close_request TCPStreamCloseStream sid"
  let ?s0 = "s\<lparr>world := w, trace := trace s @ [Connection_callback cb Disconnected], mCallbackRegistration := [(sid, None)]\<rparr>"
  let ?s1 = "?s0\<lparr>trace := trace ?s0 @ [Send_accepted ?c], mSockets := map (\<lambda>q. q @ [?c]) (mSockets ?s0)\<rparr>"
  have "call_connection env cb Disconnected s = Inr ?s1"
    using est assms(4) closeStream_connected [of sid ?s0 env TCPStreamCloseStream]
    by (simp add: call_connection_def do_stream_call_def stream_close_def addCallbacks_def)
  then have "shutDownClosedStream env 1 sid s = Inl End_dereferenced"
    using est assms(3) commit_close [of ?s1 sid cb env]
    by (simp add: shutDownClosedStream_def control_code_def CommitCallbacks_nothing)
  then show ?thesis
    using est assms(2) by (simp add: receive_control receive_close_def control_code_def)
qed



end
