(* ===== verification/Send_Status.thy ===== *)
theory Send_Status
  imports Multiplexed_Socket
begin

text \<open>
  How the threads that send on one stream and the threads that close it agree on when the stream is
  closed (\<open>TCPStream::send\<close>, \<open>closeSendStatus\<close> and \<open>close\<close> in \<open>network/TCPStream.cpp\<close>).

  The atomic integer \<open>mSendStatus\<close> counts the sends in progress in its low 29 bits and the closers
  above them. Every access to it is one step, so that the steps of the threads interleave in any order; a
  call on the connection is one step of \<open>Multiplexed_Socket\<close>. Whatever else happens to the connection is
  an action of its own, which may replace the state of the connection as long as it sends neither data nor
  a close on this stream. The value is a signed 32 bit integer, kept as a word; it is shown to stay
  non-negative.
\<close>

unbundle bit_operations_syntax

section \<open>Data\<close>

datatype StreamReliability = Unreliable | ReliableOrdered | ReliableUnordered

definition SendStatusClosing :: u32 where
  "SendStatusClosing = push_bit 29 1"

text \<open>The request \<open>send\<close> builds; \<open>None\<close> where an assertion fails on a length or id of more than 30 bits.\<close>

definition send_request :: "StreamReliability \<Rightarrow> u32 \<Rightarrow> u8 list \<Rightarrow> raw_request option" where
  "send_request reliability sid data =
     (let (unord, unrel) = (case reliability of
        Unreliable \<Rightarrow> (True, True) | ReliableOrdered \<Rightarrow> (False, False) | ReliableUnordered \<Rightarrow> (True, False))
      in map_option (\<lambda>packet. \<lparr>unordered = unord, unreliable = unrel, originStream = sid, request_data = packet\<rparr>)
           (send_packet sid data))"

text \<open>Where a thread is in \<open>send\<close> and in \<open>closeSendStatus\<close> with the notification of the peer that follows it.\<close>

datatype send_pc =
    Send_idle
  | Send_enter raw_request         \<comment> \<open>before \<open>++(*mSendStatus)\<close>\<close>
  | Send_test raw_request u32      \<comment> \<open>before the test of the value it returned\<close>
  | Send_socket raw_request        \<comment> \<open>before \<open>sendBytes\<close>\<close>
  | Send_leave bool                \<comment> \<open>before \<open>--(*mSendStatus)\<close>, with \<open>didsend\<close>\<close>

datatype close_pc =
    Close_idle
  | Close_test TCPStreamControlCodes      \<comment> \<open>before the first read\<close>
  | Close_flag TCPStreamControlCodes      \<comment> \<open>before \<open>vSendStatus+=SendStatusClosing\<close>\<close>
  | Close_wait TCPStreamControlCodes      \<comment> \<open>in the loop\<close>
  | Close_notify TCPStreamControlCodes    \<comment> \<open>after \<open>closeSendStatus\<close> returned\<close>

record ('cb, 'c) stream_state =
  mSendStatus :: u32
  senders :: "send_pc list"
  closers :: "close_pc list"
  sock :: "('cb, 'c) mux"

section \<open>Steps\<close>

definition closing :: "u32 \<Rightarrow> bool" where
  "closing sendStatus \<longleftrightarrow> sendStatus AND (3 * SendStatusClosing) \<noteq> 0"

definition quiescent :: "u32 \<Rightarrow> bool" where
  "quiescent sendStatus \<longleftrightarrow> sendStatus = SendStatusClosing \<or> sendStatus = 2 * SendStatusClosing
     \<or> sendStatus = 3 * SendStatusClosing"

fun sender_turn :: "('cb, 'c) mux_env \<Rightarrow> send_pc \<Rightarrow> u32 \<Rightarrow> ('cb, 'c) mux \<Rightarrow> mux_ub + send_pc \<times> u32 \<times> ('cb, 'c) mux" where
  "sender_turn env Send_idle st m = Inr (Send_idle, st, m)"
| "sender_turn env (Send_enter r) st m = Inr (Send_test r (st + 1), st + 1, m)"
| "sender_turn env (Send_test r sendStatus) st m =
     Inr (if \<not> closing sendStatus then Send_socket r else Send_leave False, st, m)"
| "sender_turn env (Send_socket r) st m = sum_bind (sendBytes env r m) (\<lambda>m. Inr (Send_leave True, st, m))"
| "sender_turn env (Send_leave didsend) st m = Inr (Send_idle, st - 1, m)"

text \<open>
  A user thread sends a close after \<open>closeSendStatus\<close>, and first drops its callbacks; the thread that
  receives the close of the peer acknowledges it.
\<close>

fun notify_peer :: "('cb, 'c) mux_env \<Rightarrow> u32 \<Rightarrow> TCPStreamControlCodes \<Rightarrow> ('cb, 'c) mux \<Rightarrow> mux_ub + ('cb, 'c) mux" where
  "notify_peer env sid TCPStreamCloseStream m = stream_close env sid m"
| "notify_peer env sid TCPStreamAckCloseStream m = closeStream env sid TCPStreamAckCloseStream m"

fun closer_turn :: "('cb, 'c) mux_env \<Rightarrow> u32 \<Rightarrow> close_pc \<Rightarrow> u32 \<Rightarrow> ('cb, 'c) mux
    \<Rightarrow> mux_ub + close_pc \<times> u32 \<times> ('cb, 'c) mux" where
  "closer_turn env sid Close_idle st m = Inr (Close_idle, st, m)"
| "closer_turn env sid (Close_test code) st m =
     Inr (if \<not> closing st then Close_flag code else Close_wait code, st, m)"
| "closer_turn env sid (Close_flag code) st m = Inr (Close_wait code, st + SendStatusClosing, m)"
| "closer_turn env sid (Close_wait code) st m =
     Inr (if \<not> quiescent st then Close_wait code else Close_notify code, st, m)"
| "closer_turn env sid (Close_notify code) st m =
     sum_bind (notify_peer env sid code m) (\<lambda>m. Inr (Close_idle, st, m))"

datatype ('cb, 'c) stream_action =
    Call_send nat StreamReliability "u8 list"
  | Call_close nat TCPStreamControlCodes
  | Sender nat
  | Closer nat
  | Other "('cb, 'c) mux"

fun stream_act :: "('cb, 'c) mux_env \<Rightarrow> u32 \<Rightarrow> ('cb, 'c) stream_action \<Rightarrow> ('cb, 'c) stream_state
    \<Rightarrow> mux_ub + ('cb, 'c) stream_state" where
  "stream_act env sid (Call_send i reliability data) s =
     (if i < length (senders s) \<and> senders s ! i = Send_idle
      then (case send_request reliability sid data of
              None \<Rightarrow> Inl Assertion
            | Some r \<Rightarrow> Inr (s\<lparr>senders := (senders s)[i := Send_enter r]\<rparr>))
      else Inr s)"
| "stream_act env sid (Call_close c code) s =
     (if c < length (closers s) \<and> closers s ! c = Close_idle
      then Inr (s\<lparr>closers := (closers s)[c := Close_test code]\<rparr>) else Inr s)"
| "stream_act env sid (Sender i) s =
     (if i < length (senders s)
      then sum_bind (sender_turn env (senders s ! i) (mSendStatus s) (sock s)) (\<lambda>(pc, st, m).
             Inr (s\<lparr>senders := (senders s)[i := pc], mSendStatus := st, sock := m\<rparr>))
      else Inr s)"
| "stream_act env sid (Closer c) s =
     (if c < length (closers s)
      then sum_bind (closer_turn env sid (closers s ! c) (mSendStatus s) (sock s)) (\<lambda>(pc, st, m).
             Inr (s\<lparr>closers := (closers s)[c := pc], mSendStatus := st, sock := m\<rparr>))
      else Inr s)"
| "stream_act env sid (Other m) s = Inr (s\<lparr>sock := m\<rparr>)"

text \<open>The closes of a stream among the accepted requests, and what other parties may do.\<close>

definition is_close :: "u32 \<Rightarrow> raw_request \<Rightarrow> bool" where
  "is_close sid r \<longleftrightarrow> r = close_request TCPStreamCloseStream sid \<or> r = close_request TCPStreamAckCloseStream sid"

definition unrelated :: "u32 \<Rightarrow> raw_request \<Rightarrow> bool" where
  "unrelated sid r \<longleftrightarrow> originStream r \<noteq> sid \<and> \<not> is_close sid r"

fun allowed :: "u32 \<Rightarrow> ('cb, 'c) stream_action \<Rightarrow> ('cb, 'c) stream_state \<Rightarrow> bool" where
  "allowed sid (Other m) s \<longleftrightarrow>
     (let old = accepted (trace (sock s)); new = accepted (trace m) in
      take (length old) new = old \<and> list_all (unrelated sid) (drop (length old) new))"
| "allowed sid a s \<longleftrightarrow> True"

text \<open>A stream on which \<open>n\<close> threads may send and \<open>k\<close> threads may close, as \<open>connect\<close> leaves it.\<close>

definition stream_start :: "nat \<Rightarrow> nat \<Rightarrow> ('cb, 'c) mux \<Rightarrow> ('cb, 'c) stream_state" where
  "stream_start n k m = \<lparr>mSendStatus = 0, senders = replicate n Send_idle, closers = replicate k Close_idle, sock = m\<rparr>"

inductive stream_reachable :: "('cb, 'c) mux_env \<Rightarrow> u32 \<Rightarrow> nat \<Rightarrow> nat \<Rightarrow> ('cb, 'c) stream_state \<Rightarrow> bool"
  for env sid n k where
  start: "list_all (unrelated sid) (accepted (trace m)) \<Longrightarrow> stream_reachable env sid n k (stream_start n k m)"
| act: "stream_reachable env sid n k s \<Longrightarrow> allowed sid a s \<Longrightarrow> stream_act env sid a s = Inr t
    \<Longrightarrow> stream_reachable env sid n k t"

text \<open>No data of the stream follows a close of it.\<close>

fun no_data_after_close :: "u32 \<Rightarrow> raw_request list \<Rightarrow> bool" where
  "no_data_after_close sid [] \<longleftrightarrow> True"
| "no_data_after_close sid (r # rs) \<longleftrightarrow>
     (is_close sid r \<longrightarrow> list_all (\<lambda>r. originStream r \<noteq> sid) rs) \<and> no_data_after_close sid rs"

section \<open>The two fields of the status\<close>

text \<open>The number of closers that raised their flag.\<close>

definition raised :: "u32 \<Rightarrow> nat" where
  "raised st = unat st div 2 ^ 29"

lemma SendStatusClosing_eq: "SendStatusClosing = 536870912"
  by (simp add: SendStatusClosing_def)

lemma closing_iff: "closing st \<longleftrightarrow> raised st mod 4 \<noteq> 0"
proof -
  let ?f = "take_bit 2 (drop_bit 29 st)"
  have "unat st < 2 ^ 32" using unsigned_less [of st] by simp
  then have f: "unat ?f = raised st mod 4"
    unfolding raised_def unsigned_take_bit_eq unsigned_drop_bit_eq by (simp only: take_bit_eq_mod drop_bit_eq_div) simp
  have "3 * SendStatusClosing = push_bit 29 (mask 2)"
    by (simp add: SendStatusClosing_eq mask_eq_exp_minus_1 push_bit_eq_mult)
  then have "st AND (3 * SendStatusClosing) = push_bit 29 ?f"
    by (intro bit_word_eqI) (auto simp: bit_simps)
  moreover have "unat (push_bit 29 ?f) = take_bit 32 (push_bit 29 (unat ?f))"
    unfolding unsigned_push_bit_eq by simp
  ultimately have "unat (st AND (3 * SendStatusClosing)) = take_bit 32 ((raised st mod 4) * 2 ^ 29)"
    unfolding f push_bit_eq_mult [of _ "raised st mod 4"] by simp
  also have "\<dots> = (raised st mod 4) * 2 ^ 29" by (simp add: take_bit_nat_eq_self)
  finally have "unat (st AND (3 * SendStatusClosing)) = (raised st mod 4) * 2 ^ 29" .
  then show ?thesis by (simp add: closing_def unat_eq_0 [symmetric])
qed

text \<open>The status with \<open>e\<close> sends in progress and \<open>f\<close> flags raised.\<close>

definition status_of :: "nat \<Rightarrow> nat \<Rightarrow> u32 \<Rightarrow> bool" where
  "status_of e f st \<longleftrightarrow> unat st = e + f * 2 ^ 29 \<and> e < 2 ^ 29 \<and> f \<le> 3"

lemma status_of_reads:
  assumes "status_of e f st"
  shows "raised st = f" "closing st \<longleftrightarrow> f \<noteq> 0" "quiescent st \<longleftrightarrow> e = 0 \<and> f \<noteq> 0" "unat st < 2 ^ 31"
proof -
  show "raised st = f" using assms by (simp add: status_of_def raised_def)
  then show "closing st \<longleftrightarrow> f \<noteq> 0" using assms by (auto simp: closing_iff status_of_def)
  show "unat st < 2 ^ 31" using assms by (simp add: status_of_def)
  have "quiescent st \<longleftrightarrow> (\<exists>g\<in>{1, 2, 3}. unat st = g * 2 ^ 29)"
    unfolding quiescent_def SendStatusClosing_eq by (simp add: word_unat_eq_iff)
  also have "\<dots> \<longleftrightarrow> e = 0 \<and> f \<noteq> 0"
  proof -
    have "e = unat st mod 2 ^ 29" "f = unat st div 2 ^ 29" "f \<le> 3" using assms by (simp_all add: status_of_def)
    then show ?thesis using assms by (auto simp: status_of_def)
  qed
  finally show "quiescent st \<longleftrightarrow> e = 0 \<and> f \<noteq> 0" .
qed

lemma status_of_changes:
  shows "status_of e f st \<Longrightarrow> e + 1 < 2 ^ 29 \<Longrightarrow> status_of (e + 1) f (st + 1)"
    and "status_of (Suc e) f st \<Longrightarrow> status_of e f (st - 1)"
    and "status_of e f st \<Longrightarrow> f < 3 \<Longrightarrow> status_of e (f + 1) (st + SendStatusClosing)"
proof -
  assume "status_of e f st" "e + 1 < 2 ^ 29"
  then show "status_of (e + 1) f (st + 1)" by (simp add: status_of_def unat_word_ariths)
next
  assume "status_of (Suc e) f st"
  moreover from this have "1 \<le> st" by (simp add: status_of_def word_le_nat_alt)
  ultimately show "status_of e f (st - 1)" by (simp add: status_of_def unat_sub)
next
  assume "status_of e f st" "f < 3"
  then show "status_of e (f + 1) (st + SendStatusClosing)"
    by (simp add: status_of_def unat_word_ariths SendStatusClosing_eq)
qed

section \<open>The invariant\<close>

text \<open>A send is in progress, has been let through, carries a request.\<close>

fun in_progress :: "send_pc \<Rightarrow> bool" where
  "in_progress (Send_test r v) = True" | "in_progress (Send_socket r) = True"
| "in_progress (Send_leave b) = True" | "in_progress pc = False"

fun admitted :: "send_pc \<Rightarrow> bool" where
  "admitted (Send_test r v) = (\<not> closing v)" | "admitted (Send_socket r) = True" | "admitted pc = False"

fun requests_of :: "send_pc \<Rightarrow> raw_request list" where
  "requests_of (Send_enter r) = [r]" | "requests_of (Send_test r v) = [r]" | "requests_of (Send_socket r) = [r]"
| "requests_of pc = []"

fun is_flag :: "close_pc \<Rightarrow> bool" where "is_flag (Close_flag code) = True" | "is_flag pc = False"
fun is_wait :: "close_pc \<Rightarrow> bool" where "is_wait (Close_wait code) = True" | "is_wait pc = False"
fun is_notify :: "close_pc \<Rightarrow> bool" where "is_notify (Close_notify code) = True" | "is_notify pc = False"

definition entered :: "('cb, 'c) stream_state \<Rightarrow> nat" where
  "entered s = sum_list (map (of_bool \<circ> in_progress) (senders s))"

definition flagging :: "('cb, 'c) stream_state \<Rightarrow> nat" where
  "flagging s = sum_list (map (of_bool \<circ> is_flag) (closers s))"

definition sealed :: "('cb, 'c) stream_state \<Rightarrow> bool" where
  "sealed s \<longleftrightarrow> 0 < raised (mSendStatus s) \<and> (\<forall>pc\<in>set (senders s). \<not> admitted pc)"

abbreviation accepted_by :: "('cb, 'c) stream_state \<Rightarrow> raw_request list" where
  "accepted_by s \<equiv> accepted (trace (sock s))"

definition counters_inv :: "nat \<Rightarrow> nat \<Rightarrow> ('cb, 'c) stream_state \<Rightarrow> bool" where
  "counters_inv n k s \<longleftrightarrow> length (senders s) = n \<and> length (closers s) = k
     \<and> status_of (entered s) (raised (mSendStatus s)) (mSendStatus s)
     \<and> (0 < raised (mSendStatus s) \<longrightarrow> raised (mSendStatus s) + flagging s \<le> k)
     \<and> (\<forall>pc\<in>set (closers s). is_wait pc \<or> is_notify pc \<longrightarrow> 0 < raised (mSendStatus s))"

definition closing_inv :: "u32 \<Rightarrow> ('cb, 'c) stream_state \<Rightarrow> bool" where
  "closing_inv sid s \<longleftrightarrow>
     ((\<exists>pc\<in>set (closers s). is_notify pc) \<or> (\<exists>r\<in>set (accepted_by s). is_close sid r) \<longrightarrow> sealed s)
     \<and> (\<forall>pc\<in>set (senders s). \<forall>r\<in>set (requests_of pc). originStream r = sid)
     \<and> no_data_after_close sid (accepted_by s)"

lemma no_data_after_close_append [simp]:
  "no_data_after_close sid (xs @ ys) \<longleftrightarrow> no_data_after_close sid xs \<and> no_data_after_close sid ys
     \<and> ((\<exists>r\<in>set xs. is_close sid r) \<longrightarrow> (\<forall>r\<in>set ys. originStream r \<noteq> sid))"
  by (induction xs) (auto simp: list_all_iff)

lemma no_data_after_close_none: "\<forall>r\<in>set xs. \<not> is_close sid r \<Longrightarrow> no_data_after_close sid xs"
  by (induction xs) auto

lemma admitted_in_progress: "admitted pc \<Longrightarrow> in_progress pc"
  by (cases pc) simp_all

lemma sum_list_of_bool_le: "sum_list (map (of_bool \<circ> P) xs) \<le> length xs"
  by (induction xs) auto

lemma sum_list_of_bool_zero: "sum_list (map (of_bool \<circ> P) xs) = (0 :: nat) \<longleftrightarrow> (\<forall>x\<in>set xs. \<not> P x)"
  by (induction xs) auto

lemma update_set: "x \<in> set (xs[i := y]) \<Longrightarrow> x = y \<or> x \<in> set xs"
  using set_update_subset_insert [of xs i y] by auto

text \<open>What a step of a sender and of a closer has to respect.\<close>

lemma sender_step_inv:
  assumes inv: "counters_inv n k s" "closing_inv sid s" and i: "i < length (senders s)"
    and s': "s' = s\<lparr>senders := (senders s)[i := pc], mSendStatus := st, sock := m\<rparr>"
    and st: "status_of (entered s') (raised (mSendStatus s)) st"
    and adm: "sealed s \<Longrightarrow> \<not> admitted pc" and req: "\<forall>r\<in>set (requests_of pc). originStream r = sid"
    and acc: "accepted (trace m) = accepted_by s @ rs" "rs \<noteq> [] \<Longrightarrow> \<not> sealed s" "\<forall>r\<in>set rs. \<not> is_close sid r"
  shows "counters_inv n k s' \<and> closing_inv sid s'"
proof
  have raised: "raised st = raised (mSendStatus s)" using st by (rule status_of_reads)
  show "counters_inv n k s'"
    using inv(1) st by (simp add: counters_inv_def s' raised flagging_def)
  have sealed: "sealed s'" if "sealed s"
    using that adm i by (auto simp: sealed_def s' raised dest!: update_set)
  have "no_data_after_close sid (accepted_by s')"
    using inv(2) acc no_data_after_close_none [of rs sid] by (cases "rs = []") (auto simp: closing_inv_def s')
  then show "closing_inv sid s'"
    using inv(2) sealed i req acc by (auto simp: closing_inv_def s' dest!: update_set)
qed

lemma closer_step_inv:
  assumes inv: "counters_inv n k s" "closing_inv sid s" and i: "i < length (closers s)"
    and s': "s' = s\<lparr>closers := (closers s)[i := pc], mSendStatus := st, sock := m\<rparr>"
    and st: "status_of (entered s) (raised st) st" "raised (mSendStatus s) \<le> raised st"
      "0 < raised st \<longrightarrow> raised st + flagging s' \<le> k" "is_wait pc \<or> is_notify pc \<longrightarrow> 0 < raised st"
    and seal: "is_notify pc \<Longrightarrow> sealed s"
    and acc: "accepted (trace m) = accepted_by s @ rs" "rs \<noteq> [] \<Longrightarrow> sealed s" "\<forall>r\<in>set rs. originStream r \<noteq> sid"
  shows "counters_inv n k s' \<and> closing_inv sid s'"
proof
  show "counters_inv n k s'"
    using inv(1) st i by (auto simp: counters_inv_def s' entered_def dest!: update_set)
  have sealed: "sealed s'" if "sealed s"
    using that st(2) by (auto simp: sealed_def s')
  have notified: "sealed s" if "(\<exists>pc\<in>set (closers s'). is_notify pc) \<or> (\<exists>r\<in>set (accepted_by s'). is_close sid r)"
  proof (cases "is_notify pc \<or> rs \<noteq> []")
    case False
    with that inv(2) i acc(1) show ?thesis by (auto simp: closing_inv_def s' dest!: update_set)
  qed (use seal acc(2) in blast)
  have "no_data_after_close sid rs" using acc(3) by (induction rs) (auto simp: list_all_iff)
  then have "no_data_after_close sid (accepted_by s')"
    using inv(2) acc(1,3) by (simp add: closing_inv_def s')
  then show "closing_inv sid s'"
    using inv(2) sealed notified unfolding closing_inv_def by (auto simp: s')
qed

section \<open>Every action keeps the invariant\<close>

definition ready :: "('cb, 'c) mux \<Rightarrow> bool" where
  "ready m \<longleftrightarrow> mSocketConnectionPhase m \<noteq> WAITCONNECTING \<and> mSockets m \<noteq> []"

lemma sendBytes_accepts: "sendBytes env r m = Inr m' \<Longrightarrow> accepted (trace m') = accepted (trace m) @ [r]"
proof (cases "mSockets m = []")
  case True
  then show "sendBytes env r m = Inr m' \<Longrightarrow> ?thesis"
    by (auto simp: sendBytes_def sendBytesNow_def Let_def split: SocketConnectionPhase.splits)
next
  case False
  then show "sendBytes env r m = Inr m' \<Longrightarrow> ?thesis"
    using sendBytes_result [OF False, where env = env and r = r] by (auto dest: same_but_sockets_fields)
qed

lemma sendBytes_ready: "ready m \<Longrightarrow> \<exists>m'. sendBytes env r m = Inr m' \<and> ready m'"
proof -
  let ?m = "m\<lparr>trace := trace m @ [Send_accepted r]\<rparr>"
  assume m: "ready m"
  then obtain m' where "sendBytesNow env r ?m = Inr m'" "same_but_sockets ?m m'"
    using sendBytesNow_sends [of ?m env r] by (auto simp: ready_def)
  moreover from this(2) have "mSocketConnectionPhase m' = mSocketConnectionPhase m" "length (mSockets m') = length (mSockets m)"
    by (simp_all add: same_but_sockets_fields)
  moreover from this(2) m have "mSockets m' \<noteq> []" by (auto simp: ready_def)
  ultimately show ?thesis
    using m by (cases "mSocketConnectionPhase m") (simp_all add: sendBytes_def ready_def Let_def)
qed

lemma notify_peer_sends:
  assumes "sid < 2 ^ 30"
  obtains m\<^sub>1 where "notify_peer env sid code m = sendBytes env (close_request code sid) m\<^sub>1"
    "trace m\<^sub>1 = trace m" "ready m\<^sub>1 = ready m"
proof (cases code)
  case TCPStreamCloseStream
  show ?thesis by (rule that [of "snd (addCallbacks sid None m)"])
    (simp_all add: TCPStreamCloseStream stream_close_def closeStream_sends [OF assms] addCallbacks_def ready_def)
next
  case TCPStreamAckCloseStream
  show ?thesis by (rule that [of m]) (simp_all add: TCPStreamAckCloseStream closeStream_sends [OF assms])
qed

lemma close_request_origin [simp]: "originStream (close_request code sid) = 0"
  by (simp add: close_request_def)

lemma is_close_origin: "is_close sid r \<Longrightarrow> originStream r = 0"
  by (auto simp: is_close_def)

lemma counters_bounds:
  assumes "counters_inv n k s"
  shows "entered s \<le> n" "flagging s \<le> k" "raised (mSendStatus s) \<le> 3"
  using assms sum_list_of_bool_le [of in_progress "senders s"] sum_list_of_bool_le [of is_flag "closers s"]
  by (auto simp: counters_inv_def entered_def flagging_def status_of_def)

lemma entered_update:
  "i < length (senders s) \<Longrightarrow> entered (s\<lparr>senders := (senders s)[i := pc], mSendStatus := st, sock := m\<rparr>) + of_bool (in_progress (senders s ! i))
     = entered s + of_bool (in_progress pc)"
  using sum_list_update [of i "senders s" "of_bool \<circ> in_progress" pc] by (simp add: entered_def)

lemma flagging_update:
  "i < length (closers s) \<Longrightarrow> flagging (s\<lparr>closers := (closers s)[i := pc], mSendStatus := st, sock := m\<rparr>) + of_bool (is_flag (closers s ! i))
     = flagging s + of_bool (is_flag pc)"
  using sum_list_update [of i "closers s" "of_bool \<circ> is_flag" pc] by (simp add: flagging_def)

lemma sender_turn_inv:
  assumes inv: "counters_inv n k s" "closing_inv sid s" and n: "n < 2 ^ 29" and sid: "sid \<noteq> 0"
    and i: "i < length (senders s)" and turn: "sender_turn env (senders s ! i) (mSendStatus s) (sock s) = Inr (pc, st, m)"
    and s': "s' = s\<lparr>senders := (senders s)[i := pc], mSendStatus := st, sock := m\<rparr>"
  shows "counters_inv n k s' \<and> closing_inv sid s'"
proof -
  let ?f = "raised (mSendStatus s)"
  have st: "status_of (entered s) ?f (mSendStatus s)" and len: "length (senders s) = n"
    using inv(1) by (simp_all add: counters_inv_def)
  have req: "\<forall>r\<in>set (requests_of (senders s ! i)). originStream r = sid"
    and sealed: "sealed s \<Longrightarrow> \<not> admitted (senders s ! i)"
    using inv(2) i nth_mem [OF i] by (auto simp: closing_inv_def sealed_def)
  note ent = entered_update [OF i, where pc = pc and st = st and m = m, folded s']
  note step = sender_step_inv [OF inv i s']
  show ?thesis
  proof (cases "senders s ! i")
    case Send_idle
    with turn st ent show ?thesis by (intro step [where rs = "[]"]) auto
  next
    case (Send_enter r)
    have "entered s + 1 \<le> n"
      using ent counters_bounds(1) [OF inv(1)] sum_list_of_bool_le [of in_progress "senders s'"] turn len Send_enter
      by (auto simp: entered_def s')
    then have "status_of (entered s') ?f (mSendStatus s + 1)"
      using status_of_changes(1) [OF st] ent n turn Send_enter by auto
    moreover from this have "closing (mSendStatus s + 1)" if "sealed s"
      using that status_of_reads(2) by (auto simp: sealed_def)
    ultimately show ?thesis using turn req Send_enter by (intro step [where rs = "[]"]) auto
  next
    case (Send_test r v)
    with turn st ent sealed req show ?thesis by (intro step [where rs = "[]"]) (auto split: if_splits)
  next
    case (Send_socket r)
    then have "sendBytes env r (sock s) = Inr m" "pc = Send_leave True" "st = mSendStatus s"
      using turn by (cases "sendBytes env r (sock s)"; auto)+
    with st ent sealed req sid Send_socket show ?thesis
      by (intro step [where rs = "[r]"]) (auto simp: sendBytes_accepts dest: is_close_origin)
  next
    case (Send_leave b)
    with ent turn have e: "entered s = Suc (entered s')" by simp
    with status_of_changes(2) st turn Send_leave show ?thesis by (intro step [where rs = "[]"]) auto
  qed
qed

lemma closer_turn_inv:
  assumes inv: "counters_inv n k s" "closing_inv sid s" and k: "k \<le> 3" and sid: "sid \<noteq> 0" "sid < 2 ^ 30"
    and i: "i < length (closers s)" and turn: "closer_turn env sid (closers s ! i) (mSendStatus s) (sock s) = Inr (pc, st, m)"
    and s': "s' = s\<lparr>closers := (closers s)[i := pc], mSendStatus := st, sock := m\<rparr>"
  shows "counters_inv n k s' \<and> closing_inv sid s'"
proof -
  let ?f = "raised (mSendStatus s)"
  have st: "status_of (entered s) ?f (mSendStatus s)" and flags: "0 < ?f \<longrightarrow> ?f + flagging s \<le> k"
    and past: "is_wait (closers s ! i) \<or> is_notify (closers s ! i) \<longrightarrow> 0 < ?f"
    using inv(1) nth_mem [OF i] by (auto simp: counters_inv_def)
  have notify: "is_notify (closers s ! i) \<Longrightarrow> sealed s" using inv(2) i by (auto simp: closing_inv_def)
  note reads = status_of_reads [OF st]
  note fl = flagging_update [OF i, where pc = pc and st = st and m = m, folded s']
  note step = closer_step_inv [OF inv i s']
  show ?thesis
  proof (cases "closers s ! i")
    case Close_idle
    with turn st fl flags show ?thesis by (intro step [where rs = "[]"]) auto
  next
    case (Close_test code)
    with turn st fl flags reads show ?thesis by (intro step [where rs = "[]"]) (auto split: if_splits)
  next
    case (Close_flag code)
    with turn fl have "Suc (flagging s') = flagging s" by auto
    with counters_bounds(2) [OF inv(1)] k flags have f: "?f < 3" "?f + 1 + flagging s' \<le> k" by auto
    have "status_of (entered s) (?f + 1) (mSendStatus s + SendStatusClosing)"
      using status_of_changes(3) [OF st f(1)] .
    moreover from this have "raised (mSendStatus s + SendStatusClosing) = ?f + 1" by (rule status_of_reads)
    ultimately show ?thesis using turn f Close_flag by (intro step [where rs = "[]"]) auto
  next
    case (Close_wait code)
    have "sealed s" if "quiescent (mSendStatus s)"
      using that reads(3) sum_list_of_bool_zero [of in_progress "senders s"]
      by (auto simp: sealed_def entered_def dest: admitted_in_progress)
    moreover have "pc = (if quiescent (mSendStatus s) then Close_notify code else Close_wait code)"
        "st = mSendStatus s" "m = sock s"
      using turn Close_wait by auto
    moreover from this fl Close_wait have "flagging s' = flagging s" by simp
    moreover have "0 < ?f" using past Close_wait by simp
    ultimately show ?thesis using st flags by (intro step [where rs = "[]"]) (simp_all split: if_splits)
  next
    case (Close_notify code)
    obtain m\<^sub>1 where m1: "notify_peer env sid code (sock s) = sendBytes env (close_request code sid) m\<^sub>1"
      "trace m\<^sub>1 = trace (sock s)" using notify_peer_sends [OF sid(2), of env code "sock s"] by blast
    then have "sendBytes env (close_request code sid) m\<^sub>1 = Inr m" "pc = Close_idle" "st = mSendStatus s"
      using turn Close_notify by (cases "sendBytes env (close_request code sid) m\<^sub>1"; auto)+
    with st fl flags notify sid(1) m1(2) Close_notify show ?thesis
      by (intro step [where rs = "[close_request code sid]"]) (auto simp: sendBytes_accepts)
  qed
qed

lemma send_request_origin: "send_request reliability sid data = Some r \<Longrightarrow> originStream r = sid"
  by (auto simp: send_request_def split: prod.splits)

lemma stream_act_inv:
  assumes inv: "counters_inv n k s" "closing_inv sid s" and bounds: "n < 2 ^ 29" "k \<le> 3" "sid \<noteq> 0" "sid < 2 ^ 30"
    and a: "allowed sid a s" "stream_act env sid a s = Inr t"
  shows "counters_inv n k t \<and> closing_inv sid t"
proof (cases a)
  case (Call_send i reliability data)
  show ?thesis
  proof (cases "i < length (senders s) \<and> senders s ! i = Send_idle")
    case True
    then obtain r where r: "send_request reliability sid data = Some r" "t = s\<lparr>senders := (senders s)[i := Send_enter r]\<rparr>"
      using a(2) by (auto simp: Call_send split: option.splits)
    then have t: "t = s\<lparr>senders := (senders s)[i := Send_enter r], mSendStatus := mSendStatus s, sock := sock s\<rparr>" by simp
    have "status_of (entered t) (raised (mSendStatus s)) (mSendStatus s)"
      using inv(1) entered_update [of i s, where pc = "Send_enter r" and st = "mSendStatus s" and m = "sock s", folded t] True
      by (simp add: counters_inv_def)
    then show ?thesis
      using True send_request_origin [OF r(1)] by (intro sender_step_inv [OF inv _ t, where rs = "[]"]) auto
  qed (use a inv Call_send in auto)
next
  case (Call_close c code)
  show ?thesis
  proof (cases "c < length (closers s) \<and> closers s ! c = Close_idle")
    case True
    then have t: "t = s\<lparr>closers := (closers s)[c := Close_test code], mSendStatus := mSendStatus s, sock := sock s\<rparr>"
      using a(2) by (auto simp: Call_close)
    have "flagging t = flagging s"
      using flagging_update [of c s, where pc = "Close_test code" and st = "mSendStatus s" and m = "sock s", folded t] True by simp
    with True inv(1) show ?thesis
      by (intro closer_step_inv [OF inv _ t, where rs = "[]"]) (auto simp: counters_inv_def)
  qed (use a inv Call_close in auto)
next
  case (Sender i)
  then show ?thesis
    using a(2) inv sender_turn_inv [OF inv bounds(1,3)]
    by (cases "sender_turn env (senders s ! i) (mSendStatus s) (sock s)") (auto split: if_splits)
next
  case (Closer c)
  then show ?thesis
    using a(2) inv closer_turn_inv [OF inv bounds(2-4)]
    by (cases "closer_turn env sid (closers s ! c) (mSendStatus s) (sock s)") (auto split: if_splits)
next
  case (Other m)
  then obtain rs where rs: "accepted (trace m) = accepted_by s @ rs" "list_all (unrelated sid) rs"
    using a(1) by (simp add: Let_def) (metis append_take_drop_id)
  then have "\<forall>r\<in>set rs. \<not> is_close sid r \<and> originStream r \<noteq> sid" by (auto simp: list_all_iff unrelated_def)
  then have "closing_inv sid (s\<lparr>sock := m\<rparr>)"
    using inv(2) rs(1) no_data_after_close_none [of rs sid] by (auto simp: closing_inv_def sealed_def)
  then show ?thesis using a(2) inv(1) by (auto simp: Other counters_inv_def entered_def flagging_def)
qed

lemma stream_reachable_inv:
  assumes "stream_reachable env sid n k s" "n < 2 ^ 29" "k \<le> 3" "sid \<noteq> 0" "sid < 2 ^ 30"
  shows "counters_inv n k s \<and> closing_inv sid s"
  using assms(1)
proof induction
  case (start m)
  then have "\<forall>r\<in>set (accepted (trace m)). \<not> is_close sid r" by (auto simp: list_all_iff unrelated_def)
  then show ?case
    by (auto simp: stream_start_def counters_inv_def closing_inv_def entered_def flagging_def status_of_def raised_def
        no_data_after_close_none sum_list_replicate)
next
  case (act s a t)
  then show ?case using stream_act_inv assms(2-5) by blast
qed

section \<open>Fair schedules\<close>

fun run_all :: "('a \<Rightarrow> 's \<Rightarrow> 'e + 's) \<Rightarrow> 'a list \<Rightarrow> 's \<Rightarrow> 'e + 's" where
  "run_all step [] s = Inr s"
| "run_all step (a # as) s = sum_bind (step a s) (run_all step as)"

text \<open>The actions of a run are permitted where they happen.\<close>

fun along :: "('a \<Rightarrow> 's \<Rightarrow> bool) \<Rightarrow> ('a \<Rightarrow> 's \<Rightarrow> 'e + 's) \<Rightarrow> 'a list \<Rightarrow> 's \<Rightarrow> bool" where
  "along ok step [] s \<longleftrightarrow> True"
| "along ok step (a # as) s \<longleftrightarrow> ok a s \<and> (case step a s of Inl e \<Rightarrow> True | Inr t \<Rightarrow> along ok step as t)"

lemma run_all_append: "run_all step (as @ bs) s = sum_bind (run_all step as s) (run_all step bs)"
proof (induction as arbitrary: s)
  case (Cons a as)
  then show ?case by (cases "step a s") simp_all
qed simp

lemma along_append: "along ok step (as @ bs) s \<longleftrightarrow>
    along ok step as s \<and> (case run_all step as s of Inl e \<Rightarrow> True | Inr t \<Rightarrow> along ok step bs t)"
proof (induction as arbitrary: s)
  case (Cons a as)
  then show ?case by (cases "step a s") simp_all
qed simp

text \<open>
  A system whose permitted steps succeed and keep an invariant. What no step undoes and one
  action brings about holds at the end of every run in which that action occurs.
\<close>

locale fair_system =
  fixes step :: "'a \<Rightarrow> 's \<Rightarrow> 'e + 's" and ok :: "'a \<Rightarrow> 's \<Rightarrow> bool" and I :: "'s \<Rightarrow> bool"
  assumes step_total: "I s \<Longrightarrow> ok a s \<Longrightarrow> \<exists>t. step a s = Inr t \<and> I t"
begin

definition stable :: "('s \<Rightarrow> bool) \<Rightarrow> bool" where
  "stable P \<longleftrightarrow> (\<forall>a s t. I s \<longrightarrow> ok a s \<longrightarrow> step a s = Inr t \<longrightarrow> P s \<longrightarrow> P t)"

lemma run_total: "I s \<Longrightarrow> along ok step as s \<Longrightarrow> \<exists>t. run_all step as s = Inr t \<and> I t"
proof (induction as arbitrary: s)
  case (Cons a as)
  then obtain u where "step a s = Inr u" "I u" using step_total by fastforce
  with Cons show ?case by auto
qed simp

lemma run_keeps:
  "stable P \<Longrightarrow> I s \<Longrightarrow> along ok step as s \<Longrightarrow> run_all step as s = Inr t \<Longrightarrow> P s \<Longrightarrow> P t"
proof (induction as arbitrary: s)
  case (Cons a as)
  then obtain u where u: "step a s = Inr u" "I u" using step_total by fastforce
  moreover have "P u" using Cons.prems u unfolding stable_def by auto
  ultimately show ?case using Cons by auto
qed simp

lemma run_establishes:
  assumes "stable P" "stable Q" "\<And>s t. I s \<Longrightarrow> P s \<Longrightarrow> step b s = Inr t \<Longrightarrow> Q t"
  shows "I s \<Longrightarrow> P s \<Longrightarrow> along ok step as s \<Longrightarrow> run_all step as s = Inr t \<Longrightarrow> b \<in> set as \<Longrightarrow> Q t"
proof (induction as arbitrary: s)
  case (Cons a as)
  then obtain u where u: "step a s = Inr u" "I u" using step_total by fastforce
  have rest: "along ok step as u" "run_all step as u = Inr t" using Cons.prems u by auto
  show ?case
  proof (cases "a = b")
    case True
    then have "Q u" using assms(3) Cons.prems(1,2) u by blast
    then show ?thesis using run_keeps [OF assms(2)] u(2) rest by blast
  next
    case False
    moreover have "P u" using assms(1) Cons.prems(1-3) u unfolding stable_def by auto
    ultimately show ?thesis using Cons u rest by auto
  qed
qed simp

end

text \<open>How many turns a thread needs at most, the waiting of a closer counted once.\<close>

fun sender_rank :: "send_pc \<Rightarrow> nat" where
  "sender_rank Send_idle = 0" | "sender_rank (Send_leave b) = 1" | "sender_rank (Send_socket r) = 2"
| "sender_rank (Send_test r v) = 3" | "sender_rank (Send_enter r) = 4"

fun closer_rank :: "close_pc \<Rightarrow> nat" where
  "closer_rank Close_idle = 0" | "closer_rank (Close_notify code) = 1" | "closer_rank (Close_wait code) = 2"
| "closer_rank (Close_flag code) = 3" | "closer_rank (Close_test code) = 4"

lemma sender_rank_zero: "sender_rank pc = 0 \<longleftrightarrow> pc = Send_idle"
  by (cases pc) simp_all

lemma closer_rank_zero: "closer_rank pc = 0 \<longleftrightarrow> pc = Close_idle"
  by (cases pc) simp_all

text \<open>The threads run on, no new call is made and others keep the connection usable.\<close>

fun running :: "u32 \<Rightarrow> ('cb, 'c) stream_action \<Rightarrow> ('cb, 'c) stream_state \<Rightarrow> bool" where
  "running sid (Sender i) s \<longleftrightarrow> True"
| "running sid (Closer c) s \<longleftrightarrow> True"
| "running sid (Other m) s \<longleftrightarrow> allowed sid (Other m) s \<and> ready m"
| "running sid a s \<longleftrightarrow> False"

definition live_inv :: "nat \<Rightarrow> nat \<Rightarrow> u32 \<Rightarrow> ('cb, 'c) stream_state \<Rightarrow> bool" where
  "live_inv n k sid s \<longleftrightarrow> counters_inv n k s \<and> closing_inv sid s \<and> ready (sock s)
     \<and> n < 2 ^ 29 \<and> k \<le> 3 \<and> sid \<noteq> 0 \<and> sid < 2 ^ 30"

lemma sender_turn_total:
  "ready m \<Longrightarrow> \<exists>pc' st' m'. sender_turn env pc st m = Inr (pc', st', m') \<and> ready m' \<and> sender_rank pc' \<le> sender_rank pc - 1"
proof (cases pc)
  case (Send_socket r)
  assume "ready m"
  then obtain m' where "sendBytes env r m = Inr m'" "ready m'" using sendBytes_ready by blast
  then show ?thesis by (simp add: Send_socket)
qed auto

lemma closer_turn_total:
  assumes "ready m" "sid < 2 ^ 30"
  shows "\<exists>pc' st' m'. closer_turn env sid pc st m = Inr (pc', st', m') \<and> ready m' \<and> closer_rank pc' \<le> closer_rank pc
     \<and> (closer_rank pc \<noteq> 2 \<or> quiescent st \<longrightarrow> closer_rank pc' \<le> closer_rank pc - 1)"
proof (cases pc)
  case (Close_notify code)
  obtain m\<^sub>1 where m1: "notify_peer env sid code m = sendBytes env (close_request code sid) m\<^sub>1" "ready m\<^sub>1"
    using notify_peer_sends [OF assms(2), of env code m] assms(1) by metis
  then obtain m' where "sendBytes env (close_request code sid) m\<^sub>1 = Inr m'" "ready m'" using sendBytes_ready by blast
  with m1(1) show ?thesis by (simp add: Close_notify)
qed (use assms(1) in auto)

text \<open>The effect of a permitted action: ranks never grow, and the thread that moved gets nearer to its return.\<close>

definition senders_within :: "nat \<Rightarrow> ('cb, 'c) stream_state \<Rightarrow> bool" where
  "senders_within r s \<longleftrightarrow> (\<forall>pc\<in>set (senders s). sender_rank pc \<le> r)"

lemma running_total:
  assumes "live_inv n k sid s" "running sid a s"
  shows "\<exists>t. stream_act env sid a s = Inr t \<and> live_inv n k sid t"
proof -
  have m: "ready (sock s)" and sid: "sid < 2 ^ 30" using assms(1) by (simp_all add: live_inv_def)
  have "\<exists>t. stream_act env sid a s = Inr t \<and> ready (sock t)"
  proof (cases a)
    case (Sender i)
    with sender_turn_total [OF m, where env = env and pc = "senders s ! i" and st = "mSendStatus s"] m show ?thesis by auto
  next
    case (Closer c)
    with closer_turn_total [OF m sid, where env = env and pc = "closers s ! c" and st = "mSendStatus s"] m show ?thesis by auto
  qed (use assms(2) in auto)
  moreover have "allowed sid a s" using assms(2) by (cases a) auto
  ultimately show ?thesis
    using assms(1) stream_act_inv [of n k s sid a env] unfolding live_inv_def by blast
qed

lemma senders_ranks:
  assumes "live_inv n k sid s" "running sid a s" "stream_act env sid a s = Inr t" "i < n"
  shows "sender_rank (senders t ! i) \<le> sender_rank (senders s ! i) - (if a = Sender i then 1 else 0)"
proof (cases a)
  case (Sender j)
  have "ready (sock s)" "length (senders s) = n" using assms(1) by (simp_all add: live_inv_def counters_inv_def)
  with sender_turn_total [OF this(1), where env = env and pc = "senders s ! j" and st = "mSendStatus s"] assms(3,4)
  show ?thesis by (cases "j < n") (auto simp: Sender nth_list_update)
next
  case (Closer c)
  then show ?thesis
    using assms(3) by (cases "closer_turn env sid (closers s ! c) (mSendStatus s) (sock s)") (auto split: if_splits)
qed (use assms(2,3) in auto)

lemma closers_ranks:
  assumes inv: "live_inv n k sid s" and a: "running sid a s" "stream_act env sid a s = Inr t" and c: "c < k"
  shows "closer_rank (closers t ! c) \<le> closer_rank (closers s ! c)"
    "a = Closer c \<Longrightarrow> closer_rank (closers s ! c) \<noteq> 2 \<or> senders_within 0 s
       \<Longrightarrow> closer_rank (closers t ! c) \<le> closer_rank (closers s ! c) - 1"
proof -
  have m: "ready (sock s)" and sid: "sid < 2 ^ 30" and len: "length (closers s) = k"
    using inv by (simp_all add: live_inv_def counters_inv_def)
  note turn = closer_turn_total [OF m sid, where env = env and st = "mSendStatus s"]
  show "closer_rank (closers t ! c) \<le> closer_rank (closers s ! c)"
  proof (cases a)
    case (Sender i)
    then show ?thesis
      using a(2) by (cases "sender_turn env (senders s ! i) (mSendStatus s) (sock s)") (auto split: if_splits)
  next
    case (Closer d)
    with turn [of "closers s ! d"] a(2) c len show ?thesis by (cases "d < k"; cases "d = c") (auto simp: nth_list_update)
  qed (use a in auto)
  assume ac: "a = Closer c" "closer_rank (closers s ! c) \<noteq> 2 \<or> senders_within 0 s"
  have "quiescent (mSendStatus s)" if "closer_rank (closers s ! c) = 2"
  proof -
    have "\<forall>pc\<in>set (senders s). pc = Send_idle"
      using ac(2) that by (auto simp: senders_within_def sender_rank_zero)
    then have "entered s = 0" unfolding entered_def by (subst sum_list_of_bool_zero) auto
    moreover have "is_wait (closers s ! c)" using that by (cases "closers s ! c") simp_all
    then have "0 < raised (mSendStatus s)" using inv c nth_mem [of c "closers s"] by (auto simp: live_inv_def counters_inv_def)
    moreover have "status_of (entered s) (raised (mSendStatus s)) (mSendStatus s)"
      using inv by (simp add: live_inv_def counters_inv_def)
    ultimately show ?thesis using status_of_reads(3) by auto
  qed
  with turn [of "closers s ! c"] a(2) c len ac(1)
  show "closer_rank (closers t ! c) \<le> closer_rank (closers s ! c) - 1" by auto
qed

interpretation stream_run: fair_system "stream_act env sid" "running sid" "live_inv n k sid" for env sid n k
  by unfold_locales (rule running_total)

text \<open>A round in which every thread gets at least one turn, in any order.\<close>

definition fair_round :: "nat \<Rightarrow> nat \<Rightarrow> ('cb, 'c) stream_action list \<Rightarrow> bool" where
  "fair_round n k as \<longleftrightarrow> (\<forall>i<n. Sender i \<in> set as) \<and> (\<forall>c<k. Closer c \<in> set as)"

definition closers_within :: "nat \<Rightarrow> ('cb, 'c) stream_state \<Rightarrow> bool" where
  "closers_within r s \<longleftrightarrow> (\<forall>pc\<in>set (closers s). closer_rank pc \<le> r)"

fun decay :: "nat \<times> nat \<Rightarrow> nat \<times> nat" where
  "decay (p, q) = (p - 1, if 2 < q \<or> p = 0 then q - 1 else q)"

lemma within_nth:
  "live_inv n k sid s \<Longrightarrow> senders_within r s \<longleftrightarrow> (\<forall>i<n. sender_rank (senders s ! i) \<le> r)"
  "live_inv n k sid s \<Longrightarrow> closers_within r s \<longleftrightarrow> (\<forall>c<k. closer_rank (closers s ! c) \<le> r)"
proof -
  assume "live_inv n k sid s"
  then have "length (senders s) = n" "length (closers s) = k" by (simp_all add: live_inv_def counters_inv_def)
  then show "senders_within r s \<longleftrightarrow> (\<forall>i<n. sender_rank (senders s ! i) \<le> r)"
    "closers_within r s \<longleftrightarrow> (\<forall>c<k. closer_rank (closers s ! c) \<le> r)"
    by (auto simp: senders_within_def closers_within_def all_set_conv_all_nth)
qed

lemma ranks_stable:
  "i < n \<Longrightarrow> fair_system.stable (stream_act env sid) (running sid) (live_inv n k sid) (\<lambda>s. sender_rank (senders s ! i) \<le> r)"
  "c < k \<Longrightarrow> fair_system.stable (stream_act env sid) (running sid) (live_inv n k sid) (\<lambda>s. closer_rank (closers s ! c) \<le> r)"
  "fair_system.stable (stream_act env sid) (running sid) (live_inv n k sid) (senders_within r)"
proof -
  show "fair_system.stable (stream_act env sid) (running sid) (live_inv n k sid) (senders_within r)"
    unfolding stream_run.stable_def
  proof (intro allI impI)
    fix a s t
    assume a: "live_inv n k sid s" "running sid a s" "stream_act env sid a s = Inr t" "senders_within r s"
    have "live_inv n k sid t" using running_total [OF a(1,2), of env] a(3) by auto
    moreover have "sender_rank (senders t ! i) \<le> r" if "i < n" for i
      using senders_ranks [OF a(1-3) that] a(4) within_nth(1) [OF a(1)] that by fastforce
    ultimately show "senders_within r t" by (simp add: within_nth(1))
  qed
qed (fastforce simp: stream_run.stable_def dest: senders_ranks closers_ranks(1))+

lemma round_decay:
  assumes s: "live_inv n k sid s" "senders_within p s" "closers_within q s"
    and as: "fair_round n k as" "along (running sid) (stream_act env sid) as s" "run_all (stream_act env sid) as s = Inr t"
  shows "senders_within (fst (decay (p, q))) t \<and> closers_within (snd (decay (p, q))) t"
proof -
  have t: "live_inv n k sid t" using stream_run.run_total [OF s(1) as(2)] as(3) by auto
  have "sender_rank (senders t ! i) \<le> p - 1" if i: "i < n" for i
  proof (rule stream_run.run_establishes [OF ranks_stable(1) [OF i] ranks_stable(1) [OF i] _ s(1) _ as(2,3)])
    show "sender_rank (senders s ! i) \<le> p" using s(2) within_nth(1) [OF s(1)] i by blast
    show "Sender i \<in> set as" using as(1) i by (simp add: fair_round_def)
    show "sender_rank (senders v ! i) \<le> p - 1"
      if "live_inv n k sid u" "sender_rank (senders u ! i) \<le> p" "stream_act env sid (Sender i) u = Inr v" for u v
      using senders_ranks [OF that(1) _ that(3) i] that(2) by simp
  qed
  moreover have "closer_rank (closers t ! c) \<le> q - 1" if c: "c < k" and q: "2 < q \<or> p = 0" for c
  proof (rule stream_run.run_establishes [OF _ ranks_stable(2) [OF c] _ s(1) _ as(2,3)])
    let ?P = "\<lambda>s. closer_rank (closers s ! c) \<le> q \<and> senders_within p s"
    show "fair_system.stable (stream_act env sid) (running sid) (live_inv n k sid) ?P"
      using ranks_stable(2) [OF c, of env sid n q] ranks_stable(3) [of env sid n k p] unfolding stream_run.stable_def by blast
    show "?P s" using s(2,3) within_nth(2) [OF s(1)] c by blast
    show "Closer c \<in> set as" using as(1) c by (simp add: fair_round_def)
    show "closer_rank (closers v ! c) \<le> q - 1"
      if "live_inv n k sid u" "?P u" "stream_act env sid (Closer c) u = Inr v" for u v
      using closers_ranks(1,2) [OF that(1) _ that(3) c] that(2) q by (cases "closer_rank (closers u ! c) = 2") auto
  qed
  moreover have "closer_rank (closers t ! c) \<le> q" if "c < k" for c
    using stream_run.run_keeps [OF ranks_stable(2) [OF that] s(1) as(2,3)] s(3) within_nth(2) [OF s(1)] that by blast
  ultimately show ?thesis using within_nth [OF t] by auto
qed

lemma rounds_decay:
  assumes "live_inv n k sid s" "senders_within p s" "closers_within q s" "\<forall>as\<in>set rounds. fair_round n k as"
    "along (running sid) (stream_act env sid) (concat rounds) s" "run_all (stream_act env sid) (concat rounds) s = Inr t"
  shows "senders_within (fst ((decay ^^ length rounds) (p, q))) t \<and> closers_within (snd ((decay ^^ length rounds) (p, q))) t"
  using assms
proof (induction rounds arbitrary: s p q)
  case (Cons as rounds)
  have as: "along (running sid) (stream_act env sid) as s" using Cons.prems(5) by (simp add: along_append)
  then obtain u where u: "run_all (stream_act env sid) as s = Inr u" "live_inv n k sid u"
    using stream_run.run_total [OF Cons.prems(1)] by blast
  have "senders_within (fst (decay (p, q))) u" "closers_within (snd (decay (p, q))) u"
    using round_decay [OF Cons.prems(1-3) _ as u(1)] Cons.prems(4) by auto
  moreover have "along (running sid) (stream_act env sid) (concat rounds) u"
    "run_all (stream_act env sid) (concat rounds) u = Inr t"
    using Cons.prems(5,6) u(1) by (simp_all add: along_append run_all_append)
  ultimately show ?case
    using Cons.IH [of u "fst (decay (p, q))" "snd (decay (p, q))"] u(2) Cons.prems(4)
    by (simp add: funpow_swap1 del: funpow.simps decay.simps add: funpow_Suc_right)
qed simp

section \<open>Examples\<close>

lemma stream_reachable_run:
  "stream_reachable env sid n k s \<Longrightarrow> along (allowed sid) (stream_act env sid) as s
    \<Longrightarrow> run_all (stream_act env sid) as s = Inr t \<Longrightarrow> stream_reachable env sid n k t"
proof (induction as arbitrary: s)
  case (Cons a as)
  then show ?case by (cases "stream_act env sid a s") (auto intro: stream_reachable.act)
qed simp

text \<open>One thread sends and another closes the stream; the close overtakes the test of the send.\<close>

definition sample_stream :: "(nat, unit) stream_state" where
  "sample_stream = stream_start 1 1 (sample_mux 1 1)"

definition sample_calls :: "(nat, unit) stream_action list" where
  "sample_calls = [Call_send 0 ReliableOrdered [1, 2], Call_close 0 TCPStreamCloseStream, Sender 0, Closer 0]"

definition sample_close :: "(nat, unit) stream_action list" where
  "sample_close = sample_calls @ [Closer 0, Sender 0, Closer 0, Sender 0, Sender 0, Closer 0]"

lemma sample_stream_reachable: "stream_reachable sample_env 3 1 1 sample_stream"
  unfolding sample_stream_def by (rule stream_reachable.start) (simp add: sample_mux_def mux_new_def)

lemma sample_calls_run: "along (allowed 3) (stream_act sample_env 3) sample_calls sample_stream"
  "case run_all (stream_act sample_env 3) sample_calls sample_stream of Inl e \<Rightarrow> False
   | Inr t \<Rightarrow> ready (sock t) \<and> closers t = [Close_flag TCPStreamCloseStream]"
  by code_simp+

lemma sample_close_run: "along (allowed 3) (stream_act sample_env 3) sample_close sample_stream"
  "case run_all (stream_act sample_env 3) sample_close sample_stream of Inl e \<Rightarrow> False
   | Inr t \<Rightarrow> closers t = [Close_notify TCPStreamCloseStream] \<and> map originStream (accepted_by t) = [3]"
  by code_simp+

section \<open>Properties\<close>

text \<open>
  C5: closing waits for the sends in progress and stops later ones. With fewer than \<open>2 ^ 29\<close> threads that
  send and at most three that close, in any interleaving of their steps, \<open>mSendStatus\<close> never overflows; once a
  \<open>closeSendStatus\<close> has returned no thread is about to call \<open>sendBytes\<close>; and the connection accepts no data of
  the stream after the close, or the acknowledgement of a close, of that stream.
\<close>

theorem no_send_after_close:
  assumes "stream_reachable env sid n k s" "n < 2 ^ 29" "k \<le> 3" "sid \<noteq> 0" "sid < 2 ^ 30"
  shows "unat (mSendStatus s) < 2 ^ 31
    \<and> (Close_notify code \<in> set (closers s) \<longrightarrow> Send_socket r \<notin> set (senders s))
    \<and> no_data_after_close sid (accepted_by s)"
proof -
  from stream_reachable_inv [OF assms] have inv: "counters_inv n k s" "closing_inv sid s" by auto
  have "status_of (entered s) (raised (mSendStatus s)) (mSendStatus s)" using inv(1) by (simp add: counters_inv_def)
  then have "unat (mSendStatus s) < 2 ^ 31" by (rule status_of_reads)
  moreover have "Send_socket r \<notin> set (senders s)" if "Close_notify code \<in> set (closers s)"
    using inv(2) that unfolding closing_inv_def sealed_def by (metis admitted.simps(2) is_notify.simps(1))
  moreover have "no_data_after_close sid (accepted_by s)" using inv(2) by (simp add: closing_inv_def)
  ultimately show ?thesis by blast
qed

theorem no_send_after_close_witness:
  "case run_all (stream_act sample_env 3) sample_close sample_stream of Inl e \<Rightarrow> False
   | Inr t \<Rightarrow> (\<forall>r. Send_socket r \<notin> set (senders t)) \<and> no_data_after_close 3 (accepted_by t)"
proof -
  obtain t where t: "run_all (stream_act sample_env 3) sample_close sample_stream = Inr t"
      "closers t = [Close_notify TCPStreamCloseStream]"
    using sample_close_run(2) by (auto split: sum.splits)
  have "stream_reachable sample_env 3 1 1 t"
    using sample_stream_reachable sample_close_run(1) t(1) by (rule stream_reachable_run)
  from no_send_after_close [OF this, of TCPStreamCloseStream] t show ?thesis by simp
qed

text \<open>
  C6: calls on a stream return. From every state of the protocol, if no new calls are made and every thread gets
  a turn in each of six rounds, in whatever order and with whatever else happening to the connection, then
  every send in progress has returned and so has every close: the loop of \<open>closeSendStatus\<close> ends and the peer was
  told.
\<close>

theorem close_returns:
  assumes "stream_reachable env sid n k s" "n < 2 ^ 29" "k \<le> 3" "sid \<noteq> 0" "sid < 2 ^ 30" "ready (sock s)"
    and "length rounds = 6" "\<forall>as\<in>set rounds. fair_round n k as"
    and "along (running sid) (stream_act env sid) (concat rounds) s"
  shows "\<exists>t. run_all (stream_act env sid) (concat rounds) s = Inr t
    \<and> (\<forall>pc\<in>set (senders t). pc = Send_idle) \<and> (\<forall>pc\<in>set (closers t). pc = Close_idle)"
proof -
  have s: "live_inv n k sid s" using stream_reachable_inv [OF assms(1-5)] assms(2-6) by (simp add: live_inv_def)
  moreover have "sender_rank pc \<le> 4" "closer_rank pc' \<le> 4" for pc pc' by (cases pc; cases pc'; simp)+
  ultimately have within: "senders_within 4 s" "closers_within 4 s" by (auto simp: senders_within_def closers_within_def)
  obtain t where t: "run_all (stream_act env sid) (concat rounds) s = Inr t"
    using stream_run.run_total [OF s assms(9)] by blast
  have "(decay ^^ length rounds) (4, 4) = (0, 0)" by (simp add: assms(7) numeral_eq_Suc)
  with rounds_decay [OF s within assms(8,9) t] have "senders_within 0 t" "closers_within 0 t" by simp_all
  with t show ?thesis by (auto simp: senders_within_def closers_within_def sender_rank_zero closer_rank_zero)
qed

theorem close_returns_witness:
  "case run_all (stream_act sample_env 3) (sample_calls @ concat (replicate 6 [Sender 0, Closer 0])) sample_stream of
     Inl e \<Rightarrow> False | Inr t \<Rightarrow> (\<forall>pc\<in>set (closers t). pc = Close_idle)"
proof -
  obtain t where t: "run_all (stream_act sample_env 3) sample_calls sample_stream = Inr t" "ready (sock t)"
    using sample_calls_run(2) by (auto split: sum.splits)
  have s: "stream_reachable sample_env 3 1 1 t"
    using sample_stream_reachable sample_calls_run(1) t(1) by (rule stream_reachable_run)
  have run: "along (running 3) step (concat (replicate m [Sender 0, Closer 0])) u" for m u and step
    :: "(nat, unit) stream_action \<Rightarrow> (nat, unit) stream_state \<Rightarrow> mux_ub + (nat, unit) stream_state"
    by (induction m arbitrary: u) (auto split: sum.splits)
  have "\<exists>v. run_all (stream_act sample_env 3) (concat (replicate 6 [Sender 0, Closer 0])) t = Inr v
    \<and> (\<forall>pc\<in>set (senders v). pc = Send_idle) \<and> (\<forall>pc\<in>set (closers v). pc = Close_idle)"
    by (rule close_returns [OF s _ _ _ _ t(2) _ _ run]) (auto simp: fair_round_def)
  with t(1) show ?thesis by (auto simp: run_all_append)
qed

end
