(* ===== verification/Connection_Setup.thy ===== *)
theory Connection_Setup
  imports Multiplexed_Socket
begin

text \<open>
  How connections come about. On the listening side \<open>network/ASIOStreamBuilder.cpp\<close> groups the accepted
  sockets by the id in their headers until a connection is complete. On the connecting side
  \<open>network/ASIOConnectAndHandshake.cpp\<close> resolves the host, connects every socket to one of the addresses found,
  and waits until all of them have received the same header.

  Resolution, connection attempts and reads are asynchronous: each starts an operation, and an event is its
  completion. Accepted sockets and addresses are arbitrary values; ids are 16 bytes.
\<close>

section \<open>The listening side\<close>

record 'sock incomplete =
  mNumSockets :: int
  incompleteSockets :: "'sock list"

record 'sock builder =
  sStaleUUIDs :: "u8 list list"
  sIncompleteStreams :: "u8 list \<rightharpoonup> 'sock incomplete"

text \<open>The remainder of the language has the sign of the dividend; the digits are signed until they are stored.\<close>

definition rem10 :: "int \<Rightarrow> int" where
  "rem10 x = (if x < 0 then - (- x mod 10) else x mod 10)"

definition header_connections :: "u8 list \<Rightarrow> u32" where
  "header_connections buffer =
     (let n = length STRING_PREFIX;
          numConnections = word_of_int (rem10 (uint (buffer ! n) - 48) * 10 + rem10 (uint (buffer ! (n + 1)) - 48))
      in if numConnections > 99 then 99 else numConnections)"

text \<open>
  \<open>buildStream\<close> up to the point where a connection is complete: the sockets it is then made of are returned
  with their id.
\<close>

definition buildStream :: "bool \<Rightarrow> u8 list \<Rightarrow> 'sock \<Rightarrow> 'sock builder \<Rightarrow> 'sock builder \<times> (u8 list \<times> 'sock list) option" where
  "buildStream error buffer socket b =
     (if error \<or> take (length STRING_PREFIX) buffer \<noteq> STRING_PREFIX then (b, None)
      else
        let key = take 16 (drop (TcpSstHeaderSize - 16) buffer);
            numConnections = header_connections buffer;
            b = (case sIncompleteStreams b key of
                   None \<Rightarrow> b\<lparr>sIncompleteStreams := (sIncompleteStreams b)
                     (key \<mapsto> \<lparr>mNumSockets = uint numConnections, incompleteSockets = []\<rparr>)\<rparr>
                 | Some _ \<Rightarrow> b)
        in case sIncompleteStreams b key of
             None \<Rightarrow> (b, None)
           | Some inc \<Rightarrow>
               if sint numConnections \<noteq> mNumSockets inc
               then (b\<lparr>sIncompleteStreams := (sIncompleteStreams b)(key := None)\<rparr>, None)
               else
                 let socks = incompleteSockets inc @ [socket];
                     b = b\<lparr>sIncompleteStreams := (sIncompleteStreams b)(key \<mapsto> inc\<lparr>incompleteSockets := socks\<rparr>)\<rparr>
                 in if numConnections = of_nat (length socks)
                    then (b\<lparr>sIncompleteStreams := (sIncompleteStreams b)(key := None)\<rparr>, Some (key, socks))
                    else (b\<lparr>sStaleUUIDs := sStaleUUIDs b @ [key]\<rparr>, None))"

text \<open>
  The connection made of \<open>n\<close> sockets: headers with a random id are sent on all of them, then the callback is
  given a stream with the id 1.
\<close>

definition open_stream :: "('cb, 'c) mux_env \<Rightarrow> u8 list \<Rightarrow> nat \<Rightarrow> 'c \<Rightarrow> mux_ub + ('cb, 'c) mux" where
  "open_stream env randomUUID n w =
     sum_bind (sendAllProtocolHeaders randomUUID (MultiplexedSocket_listener n w)) (\<lambda>s.
     case on_substream env 1 (world s) of (setCallbacks, calls, w) \<Rightarrow>
       let s = s\<lparr>world := w, trace := trace s @ [New_substream 1]\<rparr>;
           s = (case setCallbacks of None \<Rightarrow> s | Some cb \<Rightarrow> snd (addCallbacks 1 (Some cb) s))
       in sum_bind (do_stream_calls env calls s) (\<lambda>s.
          if setCallbacks = None then closeStream env 1 TCPStreamCloseStream s else Inr s))"

definition builder_init :: "'sock builder" where
  "builder_init = \<lparr>sStaleUUIDs = [], sIncompleteStreams = Map.empty\<rparr>"

text \<open>The accepted sockets with the outcome of reading their headers, in the order of the reads.\<close>

type_synonym 'sock accept = "bool \<times> u8 list \<times> 'sock"

fun accept_all :: "'sock accept list \<Rightarrow> 'sock builder \<Rightarrow> 'sock builder \<times> (u8 list \<times> 'sock list) list" where
  "accept_all [] b = (b, [])"
| "accept_all ((error, buffer, socket) # as) b =
     (let (b, complete) = buildStream error buffer socket b; (b, later) = accept_all as b
      in (b, (case complete of None \<Rightarrow> later | Some c \<Rightarrow> c # later)))"

section \<open>The connecting side\<close>

text \<open>
  What a socket waits for: the outcome of a connection attempt, with the addresses left to try, or the header
  of the peer. At the end it has the header it received, or none.
\<close>

datatype 'ep socket_phase =
    Unstarted
  | Connecting "'ep list"
  | Awaiting_header
  | Finished "u8 list option"

text \<open>The calls made on the connection and its sockets.\<close>

datatype 'ep handshake_call =
    Async_connect nat 'ep
  | Send_header nat
  | Make_read_buffer nat
  | Connected_callback
  | Failed_callback "nat option"

record 'ep handshake =
  mFinishedCheckCount :: int
  mFirstReceivedHeader :: "u8 list"
  phases :: "'ep socket_phase list"
  alive :: bool
  calls :: "'ep handshake_call list"

abbreviation numSockets :: "'ep handshake \<Rightarrow> int" where
  "numSockets h \<equiv> int (length (phases h))"

definition call :: "'ep handshake_call \<Rightarrow> 'ep handshake \<Rightarrow> 'ep handshake" where
  "call c h = h\<lparr>calls := calls h @ [c]\<rparr>"

definition set_phase :: "nat \<Rightarrow> 'ep socket_phase \<Rightarrow> 'ep handshake \<Rightarrow> 'ep handshake" where
  "set_phase i p h = h\<lparr>phases := (phases h)[i := p]\<rparr>"

definition ASIOConnectAndHandshake :: "nat \<Rightarrow> 'ep handshake" where
  "ASIOConnectAndHandshake n = \<lparr>mFinishedCheckCount = int n, mFirstReceivedHeader = replicate TcpSstHeaderSize 0,
     phases = replicate n Unstarted, alive = True, calls = []\<rparr>"

definition checkHeaderContents :: "nat \<Rightarrow> u8 list \<Rightarrow> bool \<Rightarrow> 'ep handshake \<Rightarrow> 'ep handshake" where
  "checkHeaderContents whichSocket buffer error h =
     set_phase whichSocket (Finished (Some buffer))
      (if \<not> alive h then h
       else
         let h = (if mFinishedCheckCount h = numSockets h then h\<lparr>mFirstReceivedHeader := buffer\<rparr> else h) in
         if mFinishedCheckCount h \<ge> 1
         then if mFirstReceivedHeader h \<noteq> buffer
              then (call (Failed_callback (Some whichSocket)) h)
                     \<lparr>mFinishedCheckCount := mFinishedCheckCount h - numSockets h - 1\<rparr>
              else let h = h\<lparr>mFinishedCheckCount := mFinishedCheckCount h - 1\<rparr>;
                       h = (if mFinishedCheckCount h = 0 then call Connected_callback h else h)
                   in call (Make_read_buffer whichSocket) h
         else h\<lparr>mFinishedCheckCount := mFinishedCheckCount h - 1\<rparr>)"

definition connectToIPAddress :: "nat \<Rightarrow> 'ep list \<Rightarrow> bool \<Rightarrow> 'ep handshake \<Rightarrow> 'ep handshake" where
  "connectToIPAddress whichSocket it error h =
     (if \<not> alive h then h
      else if error
      then case it of
             [] \<Rightarrow> set_phase whichSocket (Finished None)
               (if mFinishedCheckCount h \<ge> 1
                then call (Failed_callback (Some whichSocket))
                       (h\<lparr>mFinishedCheckCount := mFinishedCheckCount h - numSockets h - 1\<rparr>)
                else h\<lparr>mFinishedCheckCount := mFinishedCheckCount h - 1\<rparr>)
           | endpoint # nextIterator \<Rightarrow>
               set_phase whichSocket (Connecting nextIterator) (call (Async_connect whichSocket endpoint) h)
      else set_phase whichSocket Awaiting_header (call (Send_header whichSocket) h))"

definition handleResolve :: "bool \<Rightarrow> 'ep list \<Rightarrow> 'ep handshake \<Rightarrow> 'ep handshake" where
  "handleResolve error it h =
     (if \<not> alive h then h
      else if error then call (Failed_callback None) h
      else fold (\<lambda>whichSocket. connectToIPAddress whichSocket it True) [0 ..< length (phases h)] h)"

text \<open>
  The completions of the operations in progress; an event of a socket that does not wait for it does
  not occur. \<open>Connection_gone\<close>: the last reference to the connection is dropped.
\<close>

datatype handshake_event =
    Connect_completed nat bool
  | Header_read nat "u8 list" bool
  | Connection_gone

fun handshake_step :: "handshake_event \<Rightarrow> 'ep handshake \<Rightarrow> 'ep handshake" where
  "handshake_step (Connect_completed i error) h =
     (if i < length (phases h)
      then (case phases h ! i of Connecting it \<Rightarrow> connectToIPAddress i it error h | _ \<Rightarrow> h) else h)"
| "handshake_step (Header_read i buffer error) h =
     (if i < length (phases h) \<and> phases h ! i = Awaiting_header then checkHeaderContents i buffer error h else h)"
| "handshake_step Connection_gone h = h\<lparr>alive := False\<rparr>"

definition handshake_run :: "nat \<Rightarrow> 'ep list \<Rightarrow> handshake_event list \<Rightarrow> 'ep handshake" where
  "handshake_run n it evs = fold handshake_step evs (handleResolve False it (ASIOConnectAndHandshake n))"

section \<open>Grouping of sockets\<close>

lemma STRING_PREFIX_length [simp]: "length STRING_PREFIX = 6"
  by (simp add: STRING_PREFIX_def)

text \<open>What the listening side reads in a header the connecting side has written.\<close>

lemma header_digit: "d < 10 \<Longrightarrow> rem10 (uint (ucast (48 + of_nat d :: u32) :: u8) - 48) = int d"
proof -
  assume d: "d < 10"
  have "unat (48 + of_nat d :: u32) = 48 + d" using d by (simp add: unat_word_ariths unat_of_nat)
  then have "unat (ucast (48 + of_nat d :: u32) :: u8) = 48 + d" using d by (simp add: unsigned_ucast_eq take_bit_eq_mod)
  then have "uint (ucast (48 + of_nat d :: u32) :: u8) = 48 + int d" by (simp add: uint_nat)
  then show ?thesis using d by (simp add: rem10_def)
qed

lemma header_connections_copyHeader:
  assumes "n \<le> 99"
  shows "header_connections (copyHeader key (of_nat n)) = of_nat n"
proof -
  have "n < 2 ^ 32" using assms by (rule le_less_trans) simp
  then have "(of_nat n :: u32) div 10 mod 10 = of_nat (n div 10 mod 10)" "(of_nat n :: u32) mod 10 = of_nat (n mod 10)"
    by (simp_all add: word_unat_eq_iff unat_div unat_mod unat_of_nat)
  then have "copyHeader key (of_nat n) ! 6 = ucast (48 + of_nat (n div 10 mod 10) :: u32)"
      "copyHeader key (of_nat n) ! 7 = ucast (48 + of_nat (n mod 10) :: u32)"
    by (simp_all add: copyHeader_def nth_append)
  then have "rem10 (uint (copyHeader key (of_nat n) ! 6) - 48) = int (n div 10 mod 10)"
      "rem10 (uint (copyHeader key (of_nat n) ! 7) - 48) = int (n mod 10)"
    using header_digit [of "n div 10 mod 10"] header_digit [of "n mod 10"] by simp_all
  moreover have "int (n div 10 mod 10) * 10 + int (n mod 10) = int n"
  proof -
    have "n div 10 mod 10 = n div 10" using assms by simp
    then show ?thesis by (simp add: zdiv_int zmod_int)
  qed
  ultimately have "(word_of_int (rem10 (uint (copyHeader key (of_nat n) ! 6) - 48) * 10
      + rem10 (uint (copyHeader key (of_nat n) ! (6 + 1)) - 48)) :: u32) = of_nat n"
    by (simp only: of_int_of_nat_eq) (simp only: of_int_of_nat_eq add_num_simps numeral_plus_one)
  moreover have "\<not> (of_nat n :: u32) > 99" using assms \<open>n < 2 ^ 32\<close> by (simp add: word_less_nat_alt unat_of_nat)
  ultimately show ?thesis unfolding header_connections_def Let_def STRING_PREFIX_length by (simp only: if_False)
qed

lemma copyHeader_parts: "take 6 (copyHeader key num) = STRING_PREFIX" "drop 8 (copyHeader key num) = key"
  by (simp_all add: copyHeader_def)

definition pending :: "'sock builder \<Rightarrow> u8 list \<Rightarrow> 'sock list" where
  "pending b key = (case sIncompleteStreams b key of None \<Rightarrow> [] | Some inc \<Rightarrow> incompleteSockets inc)"

definition builder_ok :: "(u8 list \<Rightarrow> nat) \<Rightarrow> 'sock builder \<Rightarrow> bool" where
  "builder_ok num b \<longleftrightarrow> (\<forall>key. 0 < num key \<and> num key \<le> 99 \<and> length (pending b key) < num key)
     \<and> (\<forall>key inc. sIncompleteStreams b key = Some inc \<longrightarrow> mNumSockets inc = int (num key))"

lemma buildStream_good:
  assumes b: "builder_ok num b" and key: "length key = 16" "n = num key"
  shows "buildStream False (copyHeader key (of_nat n)) socket b = (b', c) \<Longrightarrow>
    builder_ok num b' \<and> (\<forall>k. k \<noteq> key \<longrightarrow> pending b' k = pending b k)
    \<and> (if Suc (length (pending b key)) = n then c = Some (key, pending b key @ [socket]) \<and> pending b' key = []
       else c = None \<and> pending b' key = pending b key @ [socket])"
proof -
  let ?socks = "pending b key @ [socket]"
  let ?inc = "\<lparr>mNumSockets = int n, incompleteSockets = ?socks\<rparr>"
  have n: "n \<le> 99" "length ?socks \<le> n" using b key(2) by (auto simp: builder_ok_def Suc_le_eq)
  then have small: "n < 2 ^ 31" by (intro le_less_trans [OF n(1)]) simp
  then have un: "unat (of_nat n :: u32) = n" by (intro unat_of_nat_eq) simp
  have ints: "uint (of_nat n :: u32) = int n" "sint (of_nat n :: u32) = int n"
  proof -
    show u: "uint (of_nat n :: u32) = int n" using un by (simp add: uint_nat)
    have "signed_take_bit 31 (int n) = int n" using small by (intro signed_take_bit_int_eq_self) simp_all
    then show "sint (of_nat n :: u32) = int n" using u by (simp add: sint_uint)
  qed
  have full: "(of_nat n :: u32) = of_nat (length ?socks) \<longleftrightarrow> length ?socks = n"
  proof -
    have "unat (of_nat (length ?socks) :: u32) = length ?socks"
      using n(2) small by (intro unat_of_nat_eq le_less_trans [OF n(2)]) simp
    then show ?thesis unfolding word_unat_eq_iff un by auto
  qed
  assume run: "buildStream False (copyHeader key (of_nat n)) socket b = (b', c)"
  have eq: "buildStream False (copyHeader key (of_nat n)) socket b =
    (if length ?socks = n then (b\<lparr>sIncompleteStreams := (sIncompleteStreams b)(key := None)\<rparr>, Some (key, ?socks))
     else (b\<lparr>sIncompleteStreams := (sIncompleteStreams b)(key \<mapsto> ?inc), sStaleUUIDs := sStaleUUIDs b @ [key]\<rparr>, None))"
  proof (cases "sIncompleteStreams b key")
    case None
    then show ?thesis using full key(1)
      by (simp add: buildStream_def Let_def copyHeader_parts TcpSstHeaderSize_def header_connections_copyHeader [OF n(1)] ints pending_def)
  next
    case (Some inc)
    then have "mNumSockets inc = int n" using b key(2) by (auto simp: builder_ok_def)
    then obtain xs where "inc = \<lparr>mNumSockets = int n, incompleteSockets = xs\<rparr>" by (cases inc) simp
    then show ?thesis using full key(1) Some
      by (simp add: buildStream_def Let_def copyHeader_parts TcpSstHeaderSize_def header_connections_copyHeader [OF n(1)] ints pending_def)
  qed
  show ?thesis
  proof (cases "length ?socks = n")
    case True
    with run eq have "b' = b\<lparr>sIncompleteStreams := (sIncompleteStreams b)(key := None)\<rparr>" "c = Some (key, ?socks)" by auto
    with b True show ?thesis by (auto simp: builder_ok_def pending_def)
  next
    case False
    with run eq have b': "b' = b\<lparr>sIncompleteStreams := (sIncompleteStreams b)(key \<mapsto> ?inc), sStaleUUIDs := sStaleUUIDs b @ [key]\<rparr>"
      "c = None" by auto
    then have "pending b' k = (if k = key then ?socks else pending b k)" for k by (simp add: pending_def)
    with b b' False n key(2) show ?thesis by (auto simp: builder_ok_def)
  qed
qed

text \<open>Accepts of well-behaved clients, which agree on the number of sockets of an id, and accepts that are ignored.\<close>

definition good_accept :: "(u8 list \<Rightarrow> nat) \<Rightarrow> 'sock accept \<Rightarrow> bool" where
  "good_accept num a \<longleftrightarrow> (case a of (error, buffer, socket) \<Rightarrow>
     \<not> error \<and> (let key = drop 8 buffer in length key = 16 \<and> buffer = copyHeader key (of_nat (num key))))"

definition ignored_accept :: "'sock accept \<Rightarrow> bool" where
  "ignored_accept a \<longleftrightarrow> (case a of (error, buffer, socket) \<Rightarrow> error \<or> take 6 buffer \<noteq> STRING_PREFIX)"

definition sockets_of :: "u8 list \<Rightarrow> 'sock accept list \<Rightarrow> 'sock list" where
  "sockets_of key as = map (\<lambda>(error, buffer, socket). socket)
     (filter (\<lambda>a. \<not> ignored_accept a \<and> drop 8 (fst (snd a)) = key) as)"

definition connections_of :: "u8 list \<Rightarrow> (u8 list \<times> 'sock list) list \<Rightarrow> 'sock list list" where
  "connections_of key cs = map snd (filter (\<lambda>c. fst c = key) cs)"

lemma accept_all_groups:
  assumes "builder_ok num b" "\<forall>a\<in>set as. good_accept num a \<or> ignored_accept a" "accept_all as b = (b', cs)"
  shows "builder_ok num b' \<and> pending b key @ sockets_of key as = concat (connections_of key cs) @ pending b' key
    \<and> (\<forall>socks\<in>set (connections_of key cs). length socks = num key)"
  using assms
proof (induction as arbitrary: b cs)
  case Nil
  then show ?case by (simp add: sockets_of_def connections_of_def)
next
  case (Cons a as)
  obtain error buffer socket where a: "a = (error, buffer, socket)" by (cases a)
  obtain b\<^sub>1 c where step: "buildStream error buffer socket b = (b\<^sub>1, c)" by fastforce
  obtain later where rest: "accept_all as b\<^sub>1 = (b', later)" and cs: "cs = (case c of None \<Rightarrow> later | Some x \<Rightarrow> x # later)"
    using Cons.prems(3) step by (auto simp: a Let_def split: prod.splits)
  show ?case
  proof (cases "ignored_accept a")
    case True
    then have "b\<^sub>1 = b" "c = None" using step by (auto simp: ignored_accept_def a buildStream_def)
    with Cons.IH [OF Cons.prems(1) _ ] rest cs True Cons.prems(2) show ?thesis by (auto simp: sockets_of_def)
  next
    case False
    define k where "k = drop 8 buffer"
    with False Cons.prems(2) have k: "\<not> error" "length k = 16" "buffer = copyHeader k (of_nat (num k))"
      by (auto simp: good_accept_def a Let_def)
    have "buildStream False (copyHeader k (of_nat (num k))) socket b = (b\<^sub>1, c)" using step k by simp
    from buildStream_good [OF Cons.prems(1) k(2) refl this] have step':
      "builder_ok num b\<^sub>1" "\<forall>k'. k' \<noteq> k \<longrightarrow> pending b\<^sub>1 k' = pending b k'"
      "if Suc (length (pending b k)) = num k then c = Some (k, pending b k @ [socket]) \<and> pending b\<^sub>1 k = []
       else c = None \<and> pending b\<^sub>1 k = pending b k @ [socket]" by simp_all
    from Cons.IH [OF this(1) _ rest] Cons.prems(2) have IH:
      "builder_ok num b'" "pending b\<^sub>1 key @ sockets_of key as = concat (connections_of key later) @ pending b' key"
      "\<forall>socks\<in>set (connections_of key later). length socks = num key" by auto
    have "sockets_of key (a # as) = (if k = key then [socket] else []) @ sockets_of key as"
      using False by (simp add: sockets_of_def a k_def)
    moreover have "connections_of key (x # later) = (if fst x = key then [snd x] else []) @ connections_of key later" for x
      by (simp add: connections_of_def)
    ultimately show ?thesis
      using IH step'(2,3) cs by (cases "k = key"; cases "Suc (length (pending b k)) = num k") auto
  qed
qed

text \<open>
  A connection built for a client that sets its callbacks and makes no further calls: every socket carries the
  same header, which is what the handshake on the other side waits for.
\<close>

lemma open_stream_headers:
  fixes env :: "('cb, 'c) mux_env"
  assumes "on_substream env 1 w = (Some cb, [], w')"
  shows "\<exists>r s. open_stream env u n w = Inr s \<and> mSocketConnectionPhase s = CONNECTED \<and> mSockets s = replicate n [r]
    \<and> request_data r = copyHeader u (of_nat n) \<and> mCallbackRegistration s = [(1, Some cb)]"
proof -
  define r where "r = \<lparr>unordered = False, unreliable = False, originStream = 0, request_data = copyHeader u (of_nat n)\<rparr>"
  let ?s = "(MultiplexedSocket_listener n w :: ('cb, 'c) mux)\<lparr>trace := [Send_accepted r]\<rparr>"
  have "fold (hand_over r) [0 ..< n] ?s = ?s\<lparr>mSockets := map (\<lambda>k. [r]) [0 ..< n]\<rparr>"
    by (subst fold_hand_over) (auto simp: MultiplexedSocket_listener_def mux_new_def)
  then have "sendAllProtocolHeaders u (MultiplexedSocket_listener n w :: ('cb, 'c) mux)
      = Inr (?s\<lparr>mSockets := replicate n [r], mSocketConnectionPhase := CONNECTED\<rparr>)"
    by (simp add: sendAllProtocolHeaders_def MultiplexedSocket_listener_def mux_new_def Let_def r_def map_replicate_const)
  then show ?thesis
    using assms by (intro exI [of _ r]) (simp add: open_stream_def addCallbacks_def MultiplexedSocket_listener_def mux_new_def r_def)
qed

section \<open>What the handshake reports\<close>

fun is_finished :: "'ep socket_phase \<Rightarrow> bool" where
  "is_finished (Finished x) = True" | "is_finished p = False"

fun is_outcome :: "'ep handshake_call \<Rightarrow> bool" where
  "is_outcome Connected_callback = True" | "is_outcome (Failed_callback i) = True" | "is_outcome c = False"

definition outcomes :: "'ep handshake \<Rightarrow> 'ep handshake_call list" where
  "outcomes h = filter is_outcome (calls h)"

definition unfinished :: "'ep socket_phase list \<Rightarrow> nat" where
  "unfinished ps = sum_list (map (of_bool \<circ> (\<lambda>p. \<not> is_finished p)) ps)"

text \<open>All sockets that are done have received the header \<open>hdr\<close>.\<close>

definition agreed :: "'ep socket_phase list \<Rightarrow> u8 list \<Rightarrow> bool" where
  "agreed ps hdr \<longleftrightarrow> (\<forall>x. Finished x \<in> set ps \<longrightarrow> x = Some hdr)"

definition on_course :: "'ep handshake \<Rightarrow> bool" where
  "on_course h \<longleftrightarrow> mFinishedCheckCount h = int (unfinished (phases h)) \<and> agreed (phases h) (mFirstReceivedHeader h)
     \<and> outcomes h = (if unfinished (phases h) = 0 then [Connected_callback] else [])"

definition off_course :: "'ep handshake \<Rightarrow> bool" where
  "off_course h \<longleftrightarrow> mFinishedCheckCount h < 0 \<and> (\<forall>hdr. \<not> agreed (phases h) hdr)
     \<and> (\<exists>i. outcomes h = [Failed_callback (Some i)])"

lemma unfinished_le: "unfinished ps \<le> length ps"
  by (induction ps) (auto simp: unfinished_def)

lemma unfinished_all: "unfinished ps = length ps \<Longrightarrow> agreed ps hdr"
proof -
  have "unfinished ps < length ps" if "Finished x \<in> set ps" for x
    using that
  proof (induction ps)
    case (Cons p ps)
    then show ?case using unfinished_le [of ps] by (auto simp: unfinished_def)
  qed simp
  then show "unfinished ps = length ps \<Longrightarrow> agreed ps hdr" by (auto simp: agreed_def)
qed

lemma someone_finished: "unfinished ps \<noteq> length ps \<Longrightarrow> \<exists>x. Finished x \<in> set ps"
proof (induction ps)
  case (Cons p ps)
  then show ?case by (cases p) (auto simp: unfinished_def)
qed (simp add: unfinished_def)

lemma unfinished_zero: "unfinished ps = 0 \<longleftrightarrow> (\<forall>p\<in>set ps. is_finished p)"
  by (induction ps) (auto simp: unfinished_def)

lemma phase_update:
  assumes "i < length ps" "\<not> is_finished (ps ! i)"
  shows "0 < unfinished ps" "unfinished (ps[i := p]) = unfinished ps - of_bool (is_finished p)"
    "agreed (ps[i := p]) hdr \<longleftrightarrow> agreed ps hdr \<and> (\<forall>x. p = Finished x \<longrightarrow> x = Some hdr)"
proof -
  show pos: "0 < unfinished ps" using unfinished_zero [of ps] nth_mem [OF assms(1)] assms(2) by auto
  show "unfinished (ps[i := p]) = unfinished ps - of_bool (is_finished p)"
    using sum_list_update [OF assms(1), of "of_bool \<circ> (\<lambda>p. \<not> is_finished p) :: _ \<Rightarrow> nat" p, folded unfinished_def] assms(2)
    by (cases "is_finished p") simp_all
  have "Finished x \<in> set (ps[i := p]) \<longleftrightarrow> p = Finished x \<or> Finished x \<in> set ps" for x
  proof
    assume "p = Finished x \<or> Finished x \<in> set ps"
    then show "Finished x \<in> set (ps[i := p])"
    proof
      assume "Finished x \<in> set ps"
      then obtain k where k: "k < length ps" "ps ! k = Finished x" by (auto simp: in_set_conv_nth)
      with assms(2) have "k \<noteq> i" by auto
      with k show ?thesis by (auto simp: in_set_conv_nth nth_list_update intro!: exI [of _ k])
    qed (use assms(1) set_update_memI in fast)
  qed (use set_update_subset_insert [of ps i p] in auto)
  then show "agreed (ps[i := p]) hdr \<longleftrightarrow> agreed ps hdr \<and> (\<forall>x. p = Finished x \<longrightarrow> x = Some hdr)"
    by (auto simp: agreed_def)
qed

lemma outcomes_call: "outcomes (call c h) = outcomes h @ (if is_outcome c then [c] else [])"
  by (simp add: outcomes_def call_def)

text \<open>An event of a socket that is not done.\<close>

lemma connect_keeps_course:
  assumes i: "i < length (phases h)" "\<not> is_finished (phases h ! i)" and h: "on_course h \<or> off_course h" "alive h"
  shows "on_course (connectToIPAddress i it error h) \<or> off_course (connectToIPAddress i it error h)"
proof -
  note upd = phase_update [OF i]
  show ?thesis
  proof (cases "error \<and> it = []")
    case True
    let ?h = "connectToIPAddress i it error h"
    have ph: "phases ?h = (phases h)[i := Finished None]"
      using True h(2) by (simp add: connectToIPAddress_def set_phase_def call_def)
    have "mFinishedCheckCount ?h < 0 \<and> (\<exists>i. outcomes ?h = [Failed_callback (Some i)])"
      using h(1)
    proof
      assume "on_course h"
      then show ?thesis using True h(2) upd(1) unfinished_le [of "phases h"]
        by (simp add: connectToIPAddress_def set_phase_def call_def on_course_def outcomes_def)
    next
      assume "off_course h"
      then show ?thesis using True h(2)
        by (auto simp: connectToIPAddress_def set_phase_def call_def off_course_def outcomes_def)
    qed
    then show ?thesis unfolding off_course_def ph upd(3) by simp
  next
    case False
    let ?h = "connectToIPAddress i it error h"
    obtain p where "phases ?h = (phases h)[i := p]" "\<not> is_finished p" "outcomes ?h = outcomes h"
      "mFinishedCheckCount ?h = mFinishedCheckCount h" "mFirstReceivedHeader ?h = mFirstReceivedHeader h"
    proof (cases "error")
      case True
      with False obtain e r where "it = e # r" by (cases it) auto
      with True h(2) show ?thesis
        by (intro that [of "Connecting r"]) (simp_all add: connectToIPAddress_def set_phase_def call_def outcomes_def)
    next
      case ok: False
      with h(2) show ?thesis
        by (intro that [of Awaiting_header]) (simp_all add: connectToIPAddress_def set_phase_def call_def outcomes_def)
    qed
    moreover from this(2) have "p \<noteq> Finished x" for x by auto
    ultimately show ?thesis using h(1) unfolding on_course_def off_course_def by (simp add: upd)
  qed
qed

lemma header_keeps_course:
  assumes i: "i < length (phases h)" "\<not> is_finished (phases h ! i)" and h: "on_course h \<or> off_course h" "alive h"
  shows "on_course (checkHeaderContents i buffer error h) \<or> off_course (checkHeaderContents i buffer error h)"
proof -
  let ?h = "checkHeaderContents i buffer error h"
  note upd = phase_update [OF i]
  have ph: "phases ?h = (phases h)[i := Finished (Some buffer)]"
    using h(2) by (simp add: checkHeaderContents_def set_phase_def call_def Let_def)
  define first where "first = (if mFinishedCheckCount h = numSockets h then buffer else mFirstReceivedHeader h)"
  from h(1) consider (same) "on_course h" "first = buffer" | (other) "on_course h" "first \<noteq> buffer" | (off) "off_course h"
    by blast
  then show ?thesis
  proof cases
    case same
    have "agreed (phases h) first"
      using same(1) unfinished_all [of "phases h" first] by (auto simp: first_def on_course_def)
    moreover have "mFirstReceivedHeader ?h = first" "mFinishedCheckCount ?h = mFinishedCheckCount h - 1"
      "outcomes ?h = outcomes h @ (if mFinishedCheckCount h = 1 then [Connected_callback] else [])"
      using same h(2) upd(1)
      by (auto simp: checkHeaderContents_def set_phase_def call_def Let_def outcomes_def first_def on_course_def
          split: if_splits)
    ultimately have "on_course ?h"
      using same upd(1) unfolding on_course_def ph upd(2,3) by auto
    then show ?thesis ..
  next
    case other
    have "mFinishedCheckCount h \<noteq> numSockets h" using other(2) by (auto simp: first_def)
    then have "unfinished (phases h) \<noteq> length (phases h)" using other(1) by (auto simp: on_course_def)
    then obtain x where "Finished x \<in> set (phases h)" using someone_finished by blast
    with other(1) have "Finished (Some first) \<in> set (phases h)"
      using \<open>mFinishedCheckCount h \<noteq> numSockets h\<close> by (auto simp: on_course_def agreed_def first_def)
    with other(2) have "\<not> (agreed (phases h) hdr \<and> Some buffer = Some hdr)" for hdr by (auto simp: agreed_def)
    moreover have "mFinishedCheckCount ?h < 0" "outcomes ?h = [Failed_callback (Some i)]"
      using other h(2) upd(1) unfinished_le [of "phases h"]
      by (auto simp: checkHeaderContents_def set_phase_def call_def Let_def outcomes_def first_def on_course_def)
    ultimately have "off_course ?h" unfolding off_course_def ph upd(3) by auto
    then show ?thesis ..
  next
    case off
    then have "off_course ?h"
      using h(2) upd(3) by (auto simp: checkHeaderContents_def set_phase_def call_def Let_def outcomes_def off_course_def)
    then show ?thesis ..
  qed
qed

text \<open>The invariant of a handshake of \<open>n\<close> sockets, whether or not the connection still exists.\<close>

definition handshake_inv :: "nat \<Rightarrow> 'ep handshake \<Rightarrow> bool" where
  "handshake_inv n h \<longleftrightarrow> length (phases h) = n \<and> (alive h \<longrightarrow> on_course h \<or> off_course h) \<and> length (outcomes h) \<le> 1
     \<and> (Connected_callback \<in> set (outcomes h) \<longrightarrow> (\<exists>hdr. \<forall>p\<in>set (phases h). p = Finished (Some hdr)))"

lemma course_inv:
  assumes "on_course h \<or> off_course h" "length (phases h) = n"
  shows "handshake_inv n h"
proof -
  have "\<exists>hdr. \<forall>p\<in>set (phases h). p = Finished (Some hdr)" if "Connected_callback \<in> set (outcomes h)"
  proof -
    have "on_course h" "unfinished (phases h) = 0"
      using that assms(1) by (auto simp: on_course_def off_course_def split: if_splits)
    then have "\<forall>p\<in>set (phases h). is_finished p" "agreed (phases h) (mFirstReceivedHeader h)"
      by (simp_all add: unfinished_zero on_course_def)
    then have "\<forall>p\<in>set (phases h). p = Finished (Some (mFirstReceivedHeader h))"
      by (auto simp: agreed_def elim!: is_finished.elims)
    then show ?thesis by blast
  qed
  then show ?thesis using assms by (auto simp: handshake_inv_def on_course_def off_course_def)
qed

lemma phases_length [simp]:
  "length (phases (connectToIPAddress i it error h)) = length (phases h)"
  "length (phases (checkHeaderContents i buffer error h)) = length (phases h)"
  by (simp_all add: connectToIPAddress_def checkHeaderContents_def set_phase_def call_def Let_def split: list.split)

lemma dead_step:
  "\<not> alive h \<Longrightarrow> calls (handshake_step ev h) = calls h \<and> \<not> alive (handshake_step ev h)
     \<and> length (phases (handshake_step ev h)) = length (phases h)
     \<and> (\<forall>i<length (phases h). is_finished (phases h ! i) \<longrightarrow> phases (handshake_step ev h) ! i = phases h ! i)"
  by (cases ev) (auto simp: connectToIPAddress_def checkHeaderContents_def set_phase_def nth_list_update
      split: socket_phase.split)

lemma handshake_step_inv:
  assumes "handshake_inv n h"
  shows "handshake_inv n (handshake_step ev h)"
proof (cases "alive h")
  case True
  with assms have h: "on_course h \<or> off_course h" "length (phases h) = n" by (auto simp: handshake_inv_def)
  show ?thesis
  proof (cases ev)
    case (Connect_completed i error)
    show ?thesis
    proof (cases "i < n \<and> (\<exists>it. phases h ! i = Connecting it)")
      case True
      then obtain it where it: "i < length (phases h)" "phases h ! i = Connecting it" using h(2) by blast
      have "handshake_inv n (connectToIPAddress i it error h)"
        using connect_keeps_course [OF it(1) _ h(1) \<open>alive h\<close>] it(2) h(2) by (intro course_inv) simp_all
      then show ?thesis by (simp add: Connect_completed it)
    next
      case False
      then have "handshake_step ev h = h" using h(2) by (auto simp: Connect_completed split: socket_phase.split)
      then show ?thesis using assms by simp
    qed
  next
    case (Header_read i buffer error)
    have "handshake_inv n (checkHeaderContents i buffer error h)" if "i < length (phases h)" "phases h ! i = Awaiting_header"
      using header_keeps_course [OF that(1) _ h(1) True] that(2) h(2) by (intro course_inv) simp_all
    then show ?thesis using assms by (simp add: Header_read)
  next
    case Connection_gone
    then show ?thesis using assms by (simp add: handshake_inv_def outcomes_def)
  qed
next
  case False
  note step = dead_step [OF False, of ev]
  have "\<forall>p\<in>set (phases (handshake_step ev h)). p = Finished (Some hdr)" if "\<forall>p\<in>set (phases h). p = Finished (Some hdr)" for hdr
    using that step by (simp add: all_set_conv_all_nth)
  then show ?thesis using assms step by (auto simp: handshake_inv_def outcomes_def)
qed

lemma connect_loop_course:
  "distinct is \<Longrightarrow> \<forall>i\<in>set is. i < length (phases h) \<and> phases h ! i = Unstarted \<Longrightarrow> on_course h \<or> off_course h \<Longrightarrow> alive h
    \<Longrightarrow> (on_course (fold (\<lambda>i. connectToIPAddress i it True) is h) \<or> off_course (fold (\<lambda>i. connectToIPAddress i it True) is h))
      \<and> length (phases (fold (\<lambda>i. connectToIPAddress i it True) is h)) = length (phases h)"
proof (induction "is" arbitrary: h)
  case (Cons i "is")
  let ?h = "connectToIPAddress i it True h"
  have "phases ?h ! k = phases h ! k" if "k \<noteq> i" for k
    using that by (simp add: connectToIPAddress_def set_phase_def call_def split: list.split)
  moreover have "k \<noteq> i" if "k \<in> set is" for k using that Cons.prems(1) by auto
  ultimately have "\<forall>k\<in>set is. k < length (phases ?h) \<and> phases ?h ! k = Unstarted" using Cons.prems(2) by simp
  moreover have "on_course ?h \<or> off_course ?h" using Cons.prems by (intro connect_keeps_course) simp_all
  moreover have "alive ?h" using Cons.prems(4) by (simp add: connectToIPAddress_def set_phase_def call_def split: list.split)
  ultimately show ?case using Cons.IH [of ?h] Cons.prems(1) by simp
qed simp

lemma handshake_run_inv:
  assumes "0 < n"
  shows "handshake_inv n (handshake_run n it evs)"
proof -
  let ?s = "ASIOConnectAndHandshake n :: 'a handshake"
  have "unfinished (replicate n Unstarted :: 'a socket_phase list) = n" by (simp add: unfinished_def sum_list_replicate)
  then have "on_course ?s"
    using assms by (simp add: ASIOConnectAndHandshake_def on_course_def agreed_def outcomes_def)
  then have "handshake_inv n (handleResolve False it ?s)"
    using connect_loop_course [of "[0 ..< n]" ?s it]
    by (intro course_inv) (auto simp: handleResolve_def ASIOConnectAndHandshake_def)
  then have "handshake_inv n (fold handshake_step evs (handleResolve False it ?s))"
    by (induction evs arbitrary: it rule: rev_induct) (simp_all add: handshake_step_inv)
  then show ?thesis by (simp add: handshake_run_def)
qed

section \<open>Properties\<close>

text \<open>
  C10: accepted sockets are grouped into the connections their clients meant. When the clients agree on
  the number of sockets for an id, between 1 and 99, then, however their sockets arrive and whatever unreadable headers come
  between, the sockets of an id make up, in the order of arrival, the connections built for that id, each with
  the number of sockets its headers announced, and fewer sockets than that wait for the rest.
\<close>

theorem stream_builder_groups:
  assumes "\<forall>key. 0 < num key \<and> num key \<le> 99" "\<forall>a\<in>set as. good_accept num a \<or> ignored_accept a"
    and "accept_all as builder_init = (b, cs)"
  shows "sockets_of key as = concat (connections_of key cs) @ pending b key
    \<and> (\<forall>socks\<in>set (connections_of key cs). length socks = num key) \<and> length (pending b key) < num key"
proof -
  have "builder_ok num (builder_init :: 'a builder)" using assms(1) by (simp add: builder_ok_def builder_init_def pending_def)
  from accept_all_groups [OF this assms(2,3), of key] show ?thesis
    by (simp add: builder_ok_def) (simp add: pending_def builder_init_def)
qed

text \<open>Two clients of two sockets each; the third accept is unreadable and the fifth socket starts a new connection.\<close>

definition sample_key :: "u8 \<Rightarrow> u8 list" where
  "sample_key k = replicate 16 k"

definition sample_accepts :: "nat accept list" where
  "sample_accepts = [(False, copyHeader (sample_key 1) 2, 10), (False, copyHeader (sample_key 2) 2, 20), (True, [], 99),
     (False, copyHeader (sample_key 2) 2, 21), (False, copyHeader (sample_key 1) 2, 11), (False, copyHeader (sample_key 1) 2, 12)]"

theorem stream_builder_groups_witness:
  "connections_of (sample_key 1) (snd (accept_all sample_accepts builder_init)) = [[10, 11]]
   \<and> sockets_of (sample_key 1) sample_accepts = [10, 11] @ pending (fst (accept_all sample_accepts builder_init)) (sample_key 1)"
proof -
  have "list_all (\<lambda>a. good_accept (\<lambda>_. 2) a \<or> ignored_accept a) sample_accepts" by code_simp
  then have good: "\<forall>a\<in>set sample_accepts. good_accept (\<lambda>_. 2) a \<or> ignored_accept a" by (simp add: list_all_iff)
  have conn: "connections_of (sample_key 1) (snd (accept_all sample_accepts builder_init)) = [[10, 11]]" by code_simp
  with stream_builder_groups [OF _ good prod.collapse [symmetric], of "sample_key 1"] show ?thesis by simp
qed


text \<open>Two sockets: the first attempt of one fails, then both receive the same header.\<close>

definition sample_handshake :: "handshake_event list" where
  "sample_handshake = [Connect_completed 0 True, Connect_completed 1 False, Header_read 1 [7] False,
     Connect_completed 0 False, Header_read 0 [7] False]"


text \<open>
  A failed read is not noticed: \<open>checkHeaderContents\<close> does not look at its error, and a connection of one socket
  whose read of the header fails is reported as connected.
\<close>

lemma read_error_reported_as_connected:
  "outcomes (handshake_run 1 [1 :: nat] [Connect_completed 0 False, Header_read 0 buffer True]) = [Connected_callback]"
  by (simp add: handshake_run_def handleResolve_def ASIOConnectAndHandshake_def connectToIPAddress_def set_phase_def
      call_def checkHeaderContents_def outcomes_def Let_def)

end
