(* ===== verification/Listeners.thy ===== *)
theory Listeners
  imports Prelude
begin

text \<open>
  Providers of notifications and their listeners (\<open>util/ListenerProvider.hpp\<close>): the vector of listeners with the
  index that makes removal fast, notification of listeners that may register others or remove themselves while
  they are called, and the providers that tell a new listener the last value.

  Listeners are compared by identity. What a listener does when it is notified is a function of the notifications so far:
  the calls it makes on the provider, which run before the next listener is called. A listener that is told the current
  value while it is added makes no calls. The notifications made are recorded in \<open>received\<close>, the virtual hooks that
  were called in \<open>hooks\<close>. The overloads for several arguments differ in their number only; \<open>'a\<close> stands for all of them.
\<close>

section \<open>Data\<close>

datatype 'p hook = Listener_added 'p | Listener_removed 'p | First_listener_added 'p | Last_listener_removed 'p

datatype provider_error =
    Unknown_listener        \<comment> \<open>an assertion fails: the listener is not registered\<close>
  | Empty_vector            \<comment> \<open>the first element of an empty vector is read\<close>

record ('p, 'a) provider =
  mListeners :: "'p list"
  mListenerIndex :: "'p \<rightharpoonup> u32"
  mA :: 'a
  hooks :: "'p hook list"
  received :: "('p \<times> 'a) list"

definition hook :: "'p hook \<Rightarrow> ('p, 'a) provider \<Rightarrow> ('p, 'a) provider" where
  "hook k s = s\<lparr>hooks := hooks s @ [k]\<rparr>"

definition tell :: "'p \<Rightarrow> 'a \<Rightarrow> ('p, 'a) provider \<Rightarrow> ('p, 'a) provider" where
  "tell p a s = s\<lparr>received := received s @ [(p, a)]\<rparr>"

definition provider_new :: "'a \<Rightarrow> ('p, 'a) provider" where
  "provider_new a = \<lparr>mListeners = [], mListenerIndex = Map.empty, mA = a, hooks = [], received = []\<rparr>"

section \<open>Operations\<close>

definition addListener :: "'p \<Rightarrow> ('p, 'a) provider \<Rightarrow> ('p, 'a) provider" where
  "addListener p s =
     hook (Listener_added p)
      (if mListeners s = [] then hook (First_listener_added p) (s\<lparr>mListeners := mListeners s @ [p]\<rparr>)
       else if length (mListeners s) = 1
       then s\<lparr>mListenerIndex := (mListenerIndex s)(mListeners s ! 0 \<mapsto> 0, p \<mapsto> 1), mListeners := mListeners s @ [p]\<rparr>
       else s\<lparr>mListenerIndex := (mListenerIndex s)(p \<mapsto> of_nat (length (mListeners s))),
              mListeners := mListeners s @ [p]\<rparr>)"

definition removeListener :: "'p \<Rightarrow> ('p, 'a) provider \<Rightarrow> provider_error + ('p, 'a) provider" where
  "removeListener p s =
     (let s = hook (Listener_removed p) s; back_listener = last (mListeners s) in
      if length (mListeners s) > 1
      then (case mListenerIndex s p of
              None \<Rightarrow> Inl Unknown_listener
            | Some pos \<Rightarrow>
                let s = (if pos + 1 \<noteq> of_nat (length (mListeners s))
                         then s\<lparr>mListenerIndex := (mListenerIndex s)(back_listener \<mapsto> pos),
                                mListeners := (mListeners s)[unat pos := back_listener]\<rparr> else s)
                in Inr (s\<lparr>mListeners := take (length (mListeners s) - 1) (mListeners s),
                          mListenerIndex := (mListenerIndex s)(p := None)\<rparr>))
      else let s = hook (Last_listener_removed p) s in
           case mListeners s of
             [] \<Rightarrow> Inl Empty_vector
           | q # _ \<Rightarrow> if q \<noteq> p then Inl Unknown_listener
                      else Inr (s\<lparr>mListeners := [], mListenerIndex := Map.empty\<rparr>))"

text \<open>The calls a listener makes while it is notified; \<open>add\<close> is the virtual \<open>addListener\<close>.\<close>

datatype 'p provider_call = Add 'p | Remove 'p

fun do_calls :: "('p \<Rightarrow> ('p, 'a) provider \<Rightarrow> ('p, 'a) provider) \<Rightarrow> 'p provider_call list \<Rightarrow> ('p, 'a) provider
    \<Rightarrow> provider_error + ('p, 'a) provider" where
  "do_calls add [] s = Inr s"
| "do_calls add (Add q # cs) s = do_calls add cs (add q s)"
| "do_calls add (Remove q # cs) s = sum_bind (removeListener q s) (do_calls add cs)"

type_synonym ('p, 'a) reaction = "'p \<Rightarrow> ('p \<times> 'a) list \<Rightarrow> 'p provider_call list"

text \<open>The loop of \<open>notify\<close>, with one more than the value of \<open>i\<close>.\<close>

fun notify_loop :: "('p \<Rightarrow> ('p, 'a) provider \<Rightarrow> ('p, 'a) provider) \<Rightarrow> ('p, 'a) reaction \<Rightarrow> 'a \<Rightarrow> nat \<Rightarrow> ('p, 'a) provider
    \<Rightarrow> provider_error + ('p, 'a) provider" where
  "notify_loop add react a 0 s = Inr s"
| "notify_loop add react a (Suc i) s =
     (if i < length (mListeners s)
      then let p = mListeners s ! i; s = tell p a s in
           sum_bind (do_calls add (react p (received s)) s) (notify_loop add react a i)
      else Inr s)"

definition notify :: "('p, 'a) reaction \<Rightarrow> 'a \<Rightarrow> ('p, 'a) provider \<Rightarrow> provider_error + ('p, 'a) provider" where
  "notify react a s = notify_loop addListener react a (length (mListeners s)) s"

section \<open>Providers that remember the last value\<close>

definition markovian_add :: "'p \<Rightarrow> ('p, 'a) provider \<Rightarrow> ('p, 'a) provider" where
  "markovian_add p s = addListener p (tell p (mA s) s)"

definition markovian_notify :: "('p, 'a) reaction \<Rightarrow> 'a \<Rightarrow> ('p, 'a) provider \<Rightarrow> provider_error + ('p, 'a) provider" where
  "markovian_notify react a s =
     (let s = s\<lparr>mA := a\<rparr> in notify_loop markovian_add react a (length (mListeners s)) s)"

section \<open>The index\<close>

text \<open>
  The index gives the position of every listener when there are at least two of them, and may hold the position of a
  single one. There are fewer listeners than 32 bit signed integers.
\<close>

definition provider_ok :: "('p, 'a) provider \<Rightarrow> bool" where
  "provider_ok s \<longleftrightarrow> distinct (mListeners s) \<and> dom (mListenerIndex s) \<subseteq> set (mListeners s)
     \<and> (\<forall>i<length (mListeners s). mListenerIndex s (mListeners s ! i) =
          Some (of_nat i) \<or> length (mListeners s) = 1 \<and> mListenerIndex s (mListeners s ! i) = None)"

lemma provider_ok_index:
  "provider_ok s \<Longrightarrow> 2 \<le> length (mListeners s) \<Longrightarrow> i < length (mListeners s) \<Longrightarrow>
     mListenerIndex s (mListeners s ! i) = Some (of_nat i)"
  by (auto simp: provider_ok_def)

lemma addListener_listeners [simp]: "mListeners (addListener p s) = mListeners s @ [p]"
  by (simp add: addListener_def hook_def)

lemma addListener_received [simp]: "received (addListener p s) = received s" "mA (addListener p s) = mA s"
  by (simp_all add: addListener_def hook_def)

lemma addListener_ok:
  assumes ok: "provider_ok s" and p: "p \<notin> set (mListeners s)"
  shows "provider_ok (addListener p s)"
proof -
  let ?s = "addListener p s"
  let ?n = "length (mListeners s)"
  have d: "distinct (mListeners ?s)" using ok p by (simp add: provider_ok_def)
  have "mListenerIndex ?s (mListeners ?s ! i) = Some (of_nat i) \<or> length (mListeners ?s) = 1 \<and> mListenerIndex ?s (mListeners ?s ! i) = None"
    if i: "i < length (mListeners ?s)" for i
  proof (cases "?n = 0")
    case True
    with ok i p show ?thesis by (auto simp: addListener_def hook_def provider_ok_def)
  next
    case False
    have old: "mListeners s ! j \<noteq> p" if "j < ?n" for j using p that nth_mem by metis
    consider "?n = 1" | "2 \<le> ?n" using False by linarith
    then show ?thesis
    proof cases
      case 1
      with i old [of 0] show ?thesis by (auto simp: addListener_def hook_def nth_append less_Suc_eq)
    next
      case 2
      then have "mListeners s \<noteq> []" "?n \<noteq> 1" by auto
      with provider_ok_index [OF ok 2] i old show ?thesis
        by (auto simp: addListener_def hook_def nth_append less_Suc_eq)
    qed
  qed
  moreover have "dom (mListenerIndex ?s) \<subseteq> set (mListeners ?s)"
    using ok by (auto simp: addListener_def hook_def provider_ok_def split: if_splits)
  ultimately show ?thesis using d unfolding provider_ok_def by blast
qed

text \<open>Removal moves the last listener into the gap.\<close>

definition drop_listener :: "nat \<Rightarrow> 'p list \<Rightarrow> 'p list" where
  "drop_listener i ps = butlast (ps[i := last ps])"

lemma drop_listener_length [simp]: "length (drop_listener i ps) = length ps - 1"
  by (simp add: drop_listener_def)

lemma drop_listener_nth:
  "i < length ps \<Longrightarrow> k < length ps - 1 \<Longrightarrow> drop_listener i ps ! k = (if k = i then last ps else ps ! k)"
  by (simp add: drop_listener_def nth_butlast nth_list_update)

lemma removeListener_result:
  assumes ok: "provider_ok s" and i: "i < length (mListeners s)" and small: "length (mListeners s) < 2 ^ 31"
  shows "\<exists>s'. removeListener (mListeners s ! i) s = Inr s' \<and> mListeners s' = drop_listener i (mListeners s)
    \<and> received s' = received s \<and> mA s' = mA s
    \<and> (2 \<le> length (mListeners s) \<longrightarrow> mListenerIndex s' = (if i + 1 \<noteq> length (mListeners s)
         then (mListenerIndex s)(last (mListeners s) \<mapsto> of_nat i) else mListenerIndex s)(mListeners s ! i := None))
    \<and> (length (mListeners s) = 1 \<longrightarrow> mListenerIndex s' = Map.empty)"
proof (cases "2 \<le> length (mListeners s)")
  case True
  have u: "unat (of_nat i :: u32) = i" using i small by (intro unat_of_nat_eq) simp
  have "(of_nat i + 1 :: u32) = of_nat (length (mListeners s)) \<longleftrightarrow> i + 1 = length (mListeners s)"
  proof -
    have "(of_nat i + 1 :: u32) = of_nat (i + 1)" by simp
    moreover have "unat (of_nat (i + 1) :: u32) = i + 1" "unat (of_nat (length (mListeners s)) :: u32) = length (mListeners s)"
      using i small by (intro unat_of_nat_eq; simp)+
    ultimately show ?thesis unfolding word_unat_eq_iff by simp
  qed
  moreover have "(mListeners s)[i := last (mListeners s)] = mListeners s" if "i + 1 = length (mListeners s)"
  proof -
    have "length (mListeners s) - 1 = i" "mListeners s \<noteq> []" using that by auto
    then have "last (mListeners s) = mListeners s ! i" by (simp add: last_conv_nth)
    then show ?thesis by (simp add: list_update_id)
  qed
  ultimately show ?thesis
    using provider_ok_index [OF ok True i] True u
    by (auto simp: removeListener_def hook_def Let_def drop_listener_def butlast_conv_take)
next
  case False
  with i have "i = 0" "length (mListeners s) = 1" by simp_all
  then obtain q where "mListeners s = [q]" by (auto simp: length_Suc_conv)
  then show ?thesis using \<open>i = 0\<close> by (auto simp: removeListener_def hook_def Let_def drop_listener_def)
qed

lemma drop_listener_set:
  assumes "distinct ps" "i < length ps"
  shows "distinct (drop_listener i ps) \<and> set (drop_listener i ps) = set ps - {ps ! i}"
proof -
  obtain qs q where ps: "ps = qs @ [q]" using assms(2) by (cases ps rule: rev_cases) auto
  show ?thesis
  proof (cases "i = length qs")
    case True
    then show ?thesis using assms by (auto simp: drop_listener_def ps)
  next
    case False
    with assms(2) have i: "i < length qs" by (simp add: ps)
    have "set (qs[i := q]) = insert q (set qs - {qs ! i})" using assms(1) i by (intro set_update_distinct) (simp add: ps)
    moreover have "distinct (qs[i := q])" using assms(1) by (auto simp: ps intro: distinct_list_update)
    moreover have "qs ! i \<noteq> q" using assms(1) i nth_mem [OF i] by (auto simp: ps)
    ultimately show ?thesis using i by (auto simp: drop_listener_def ps nth_append list_update_append)
  qed
qed

lemma removeListener_ok:
  assumes ok: "provider_ok s" and p: "p \<in> set (mListeners s)" and small: "length (mListeners s) < 2 ^ 31"
  shows "\<exists>s' i. removeListener p s = Inr s' \<and> provider_ok s' \<and> i < length (mListeners s) \<and> p = mListeners s ! i
    \<and> mListeners s' = drop_listener i (mListeners s) \<and> received s' = received s \<and> mA s' = mA s"
proof -
  let ?ps = "mListeners s"
  obtain i where i: "i < length ?ps" "p = ?ps ! i" using p by (auto simp: in_set_conv_nth)
  obtain s' where s': "removeListener p s = Inr s'" "mListeners s' = drop_listener i ?ps" "received s' = received s" "mA s' = mA s"
      "2 \<le> length ?ps \<Longrightarrow> mListenerIndex s' = (if i + 1 \<noteq> length ?ps
         then (mListenerIndex s)(last ?ps \<mapsto> of_nat i) else mListenerIndex s)(p := None)"
      "length ?ps = 1 \<Longrightarrow> mListenerIndex s' = Map.empty"
    using removeListener_result [OF ok i(1) small] i(2) by auto
  have d: "distinct ?ps" using ok by (simp add: provider_ok_def)
  have kept: "mListenerIndex s' (mListeners s' ! k) = Some (of_nat k)" if k: "k < length ?ps - 1" for k
  proof -
    have two: "2 \<le> length ?ps" using k i(1) by linarith
    have "?ps ! k \<noteq> p" if "k \<noteq> i" using d i k that by (auto simp: nth_eq_iff_index_eq)
    moreover have "last ?ps = ?ps ! (length ?ps - 1)" using two by (intro last_conv_nth) auto
    then have "last ?ps \<noteq> ?ps ! k" "i + 1 \<noteq> length ?ps \<Longrightarrow> last ?ps \<noteq> p"
      using d i k by (auto simp: nth_eq_iff_index_eq)
    ultimately show ?thesis
      using s'(2) s'(5) [OF two] provider_ok_index [OF ok two, of k] drop_listener_nth [OF i(1) k] k by auto
  qed
  have "dom (mListenerIndex s') \<subseteq> set (mListeners s')"
  proof (cases "2 \<le> length ?ps")
    case True
    have "last ?ps \<in> set ?ps" using True by (intro last_in_set) auto
    then have "dom (mListenerIndex s') \<subseteq> set ?ps - {p}"
      using s'(5) [OF True] ok by (auto simp: provider_ok_def split: if_splits)
    then show ?thesis using drop_listener_set [OF d i(1)] s'(2) i(2) by simp
  next
    case False
    with i(1) have "length ?ps = 1" by linarith
    then show ?thesis using s'(6) by simp
  qed
  then have "provider_ok s'" using kept drop_listener_set [OF d i(1)] s'(2) unfolding provider_ok_def by simp
  then show ?thesis using s' i by blast
qed

section \<open>Notification while listeners come and go\<close>

text \<open>
  What the documentation permits: a listener that is called may add listeners that are not registered and
  may remove itself. The vector must not outgrow the signed loop counter.
\<close>

fun calls_permitted :: "('p \<Rightarrow> ('p, 'a) provider \<Rightarrow> ('p, 'a) provider) \<Rightarrow> 'p \<Rightarrow> 'p provider_call list
    \<Rightarrow> ('p, 'a) provider \<Rightarrow> bool" where
  "calls_permitted add p [] s \<longleftrightarrow> True"
| "calls_permitted add p (Add q # cs) s \<longleftrightarrow>
     q \<notin> set (mListeners s) \<and> length (mListeners s) + 1 < 2 ^ 31 \<and> calls_permitted add p cs (add q s)"
| "calls_permitted add p (Remove q # cs) s \<longleftrightarrow>
     q = p \<and> p \<in> set (mListeners s) \<and> (case removeListener p s of Inl e \<Rightarrow> True | Inr s \<Rightarrow> calls_permitted add p cs s)"

fun notify_permitted :: "('p \<Rightarrow> ('p, 'a) provider \<Rightarrow> ('p, 'a) provider) \<Rightarrow> ('p, 'a) reaction \<Rightarrow> 'a \<Rightarrow> nat
    \<Rightarrow> ('p, 'a) provider \<Rightarrow> bool" where
  "notify_permitted add react a 0 s \<longleftrightarrow> True"
| "notify_permitted add react a (Suc i) s \<longleftrightarrow>
     (i < length (mListeners s) \<longrightarrow>
       (let p = mListeners s ! i; s = tell p a s in
        calls_permitted add p (react p (received s)) s
        \<and> (case do_calls add (react p (received s)) s of Inl e \<Rightarrow> True | Inr s \<Rightarrow> notify_permitted add react a i s)))"

definition registered :: "('p, 'a) provider \<Rightarrow> bool" where
  "registered s \<longleftrightarrow> provider_ok s \<and> length (mListeners s) < 2 ^ 31"

lemma tell_simps [simp]:
  "mListeners (tell p a s) = mListeners s" "mListenerIndex (tell p a s) = mListenerIndex s" "mA (tell p a s) = mA s"
  "received (tell p a s) = received s @ [(p, a)]"
  by (simp_all add: tell_def)

lemma tell_registered [simp]: "registered (tell p a s) = registered s"
  by (simp add: registered_def provider_ok_def)

lemma drop_listener_prefix:
  assumes "i \<le> j" "j < length ps"
  shows "take i (drop_listener j ps) = take i ps" "set (drop i (drop_listener j ps)) \<subseteq> set (drop i ps)"
proof -
  show "take i (drop_listener j ps) = take i ps"
    using assms by (intro nth_equalityI) (auto simp: drop_listener_nth)
  show "set (drop i (drop_listener j ps)) \<subseteq> set (drop i ps)"
  proof
    fix q
    assume "q \<in> set (drop i (drop_listener j ps))"
    then obtain k where "k < length (drop i (drop_listener j ps))" "q = drop i (drop_listener j ps) ! k"
      by (auto simp: in_set_conv_nth)
    then have k: "i + k < length ps - 1" "q = drop_listener j ps ! (i + k)" by auto
    have "last ps = ps ! (length ps - 1)" using assms(2) by (intro last_conv_nth) auto
    with k drop_listener_nth [OF assms(2) k(1)] have "q = ps ! (if i + k = j then length ps - 1 else i + k)" by simp
    then obtain l where "q = ps ! l" "i \<le> l" "l < length ps" using k(1) by (cases "i + k = j") auto
    then show "q \<in> set (drop i ps)" by (auto simp: in_set_conv_nth intro!: exI [of _ "l - i"])
  qed
qed

text \<open>The two ways to add a listener.\<close>

locale registration =
  fixes add :: "'p \<Rightarrow> ('p, 'a) provider \<Rightarrow> ('p, 'a) provider"
  assumes add_listeners: "mListeners (add q s) = mListeners s @ [q]"
    and add_ok: "provider_ok s \<Longrightarrow> q \<notin> set (mListeners s) \<Longrightarrow> provider_ok (add q s)"
begin

text \<open>
  The calls of the listener at position \<open>i\<close> leave the listeners before it in place. \<open>Q\<close> is anything additions
  and removals respect.
\<close>

lemma calls_keep:
  assumes Q_add: "\<And>q s. Q s \<Longrightarrow> q \<notin> set (mListeners s) \<Longrightarrow> i \<le> length (mListeners s) \<Longrightarrow> Q (add q s)"
    and Q_remove: "\<And>s s' j. Q s \<Longrightarrow> i \<le> j \<Longrightarrow> j < length (mListeners s) \<Longrightarrow> mListeners s' = drop_listener j (mListeners s)
      \<Longrightarrow> received s' = received s \<Longrightarrow> mA s' = mA s \<Longrightarrow> Q s'"
  shows "registered s \<Longrightarrow> i \<le> length (mListeners s) \<Longrightarrow> p \<notin> set (take i (mListeners s)) \<Longrightarrow> calls_permitted add p cs s \<Longrightarrow> Q s
    \<Longrightarrow> \<exists>s'. do_calls add cs s = Inr s' \<and> registered s' \<and> take i (mListeners s') = take i (mListeners s)
      \<and> i \<le> length (mListeners s') \<and> Q s'"
proof (induction cs arbitrary: s)
  case (Cons c cs)
  show ?case
  proof (cases c)
    case (Add q)
    have "registered (add q s)" using Cons.prems add_ok by (simp add: Add registered_def add_listeners)
    moreover have "Q (add q s)" using Q_add Cons.prems by (simp add: Add)
    ultimately show ?thesis using Cons.IH [of "add q s"] Cons.prems by (simp add: Add add_listeners)
  next
    case (Remove q)
    with Cons.prems have q: "q = p" "p \<in> set (mListeners s)" by simp_all
    obtain s' j where s': "removeListener p s = Inr s'" "provider_ok s'" "j < length (mListeners s)" "p = mListeners s ! j"
        "mListeners s' = drop_listener j (mListeners s)" "received s' = received s" "mA s' = mA s"
      using removeListener_ok [OF _ q(2)] Cons.prems(1) unfolding registered_def by blast
    have j: "i \<le> j"
    proof (rule ccontr)
      assume "\<not> i \<le> j"
      then have "p \<in> set (take i (mListeners s))" using s'(3,4) by (auto simp: in_set_conv_nth)
      with Cons.prems(3) show False by simp
    qed
    have "registered s'" "i \<le> length (mListeners s')" "take i (mListeners s') = take i (mListeners s)"
      using s' j Cons.prems(1) drop_listener_prefix(1) [OF j s'(3)] by (auto simp: registered_def)
    moreover have "Q s'" using Q_remove [OF Cons.prems(5) j s'(3,5-7)] .
    ultimately show ?thesis using Cons.IH [of s'] Cons.prems(3,4) s'(1) q(1) by (simp add: Remove)
  qed
qed simp

end

interpretation plain: registration addListener
  by unfold_locales (simp_all add: addListener_ok)

interpretation markovian: registration markovian_add
proof (unfold_locales, goal_cases)
  case (2 s q)
  then have "provider_ok (tell q (mA s) s)" by (simp add: provider_ok_def)
  then show ?case using 2(2) by (simp add: markovian_add_def addListener_ok)
qed (simp add: markovian_add_def)

lemma not_in_prefix: "registered s \<Longrightarrow> i < length (mListeners s) \<Longrightarrow> mListeners s ! i \<notin> set (take i (mListeners s))"
  by (auto simp: registered_def provider_ok_def in_set_conv_nth nth_eq_iff_index_eq)

lemma notify_loop_calls:
  "registered s \<Longrightarrow> n \<le> length (mListeners s) \<Longrightarrow> notify_permitted addListener react a n s \<Longrightarrow>
    \<exists>s'. notify_loop addListener react a n s = Inr s' \<and> registered s'
      \<and> received s' = received s @ map (\<lambda>p. (p, a)) (rev (take n (mListeners s)))"
proof (induction n arbitrary: s)
  case (Suc i)
  let ?p = "mListeners s ! i"
  let ?s = "tell ?p a s"
  have i: "i < length (mListeners s)" using Suc.prems(2) by simp
  have permitted: "calls_permitted addListener ?p (react ?p (received ?s)) ?s" using Suc.prems(3) i by (simp add: Let_def)
  have "\<exists>t. do_calls addListener (react ?p (received ?s)) ?s = Inr t \<and> registered t
      \<and> take i (mListeners t) = take i (mListeners ?s) \<and> i \<le> length (mListeners t) \<and> received t = received ?s"
    by (rule plain.calls_keep [where Q = "\<lambda>u. received u = received ?s", OF _ _ _ _ _ permitted])
      (use Suc.prems(1) i not_in_prefix [OF Suc.prems(1) i] in simp_all)
  then obtain t where t: "do_calls addListener (react ?p (received ?s)) ?s = Inr t" "registered t"
      "take i (mListeners t) = take i (mListeners s)" "i \<le> length (mListeners t)" "received t = received ?s" by auto
  then have "notify_permitted addListener react a i t" using Suc.prems(3) i by (simp add: Let_def)
  from Suc.IH [OF t(2,4) this] t(1,3,5) i show ?case by (auto simp: Let_def take_Suc_conv_app_nth)
qed simp

definition last_told :: "('p, 'a) provider \<Rightarrow> 'p \<Rightarrow> 'a option" where
  "last_told s p = map_of (rev (received s)) p"

lemma last_told_tell [simp]: "last_told (tell p a s) q = (if q = p then Some a else last_told s q)"
  by (simp add: last_told_def)

lemma last_told_add [simp]: "last_told (addListener p s) q = last_told s q"
  by (simp add: last_told_def)

lemma markovian_loop_tells:
  "registered s \<Longrightarrow> n \<le> length (mListeners s) \<Longrightarrow> notify_permitted markovian_add react a n s \<Longrightarrow> mA s = a
    \<Longrightarrow> \<forall>q\<in>set (drop n (mListeners s)). last_told s q = Some a
    \<Longrightarrow> \<exists>s'. notify_loop markovian_add react a n s = Inr s' \<and> registered s' \<and> mA s' = a
      \<and> (\<forall>q\<in>set (mListeners s'). last_told s' q = Some a)"
proof (induction n arbitrary: s)
  case (Suc i)
  let ?p = "mListeners s ! i"
  let ?s = "tell ?p a s"
  let ?Q = "\<lambda>u. mA u = a \<and> (\<forall>q\<in>set (drop i (mListeners u)). last_told u q = Some a)"
  have i: "i < length (mListeners s)" using Suc.prems(2) by simp
  have "drop i (mListeners s) = ?p # drop (Suc i) (mListeners s)" using i by (simp add: Cons_nth_drop_Suc)
  then have Q: "?Q ?s" using Suc.prems(4,5) by simp
  have permitted: "calls_permitted markovian_add ?p (react ?p (received ?s)) ?s" using Suc.prems(3) i by (simp add: Let_def)
  have "\<exists>t. do_calls markovian_add (react ?p (received ?s)) ?s = Inr t \<and> registered t
      \<and> take i (mListeners t) = take i (mListeners ?s) \<and> i \<le> length (mListeners t) \<and> ?Q t"
  proof (rule markovian.calls_keep [where Q = ?Q, OF _ _ _ _ _ permitted Q], goal_cases)
    case (1 q u)
    then show ?case by (auto simp: markovian_add_def)
  next
    case (2 u u' j)
    then show ?case using drop_listener_prefix(2) [OF 2(2,3)] by (auto simp: last_told_def)
  qed (use Suc.prems(1) i not_in_prefix [OF Suc.prems(1) i] in simp_all)
  then obtain t where t: "do_calls markovian_add (react ?p (received ?s)) ?s = Inr t" "registered t"
      "i \<le> length (mListeners t)" "?Q t" by auto
  then have "notify_permitted markovian_add react a i t" using Suc.prems(3) i by (simp add: Let_def)
  with Suc.IH [OF t(2,3)] t(1,4) i show ?case by (simp add: Let_def)
qed auto

text \<open>What happens to a provider that remembers its value, one operation after the other.\<close>

datatype ('p, 'a) provider_op = Op_notify 'a | Op_add 'p | Op_remove 'p

fun markovian_op :: "('p, 'a) reaction \<Rightarrow> ('p, 'a) provider_op \<Rightarrow> ('p, 'a) provider \<Rightarrow> provider_error + ('p, 'a) provider" where
  "markovian_op react (Op_notify a) s = markovian_notify react a s"
| "markovian_op react (Op_add p) s = Inr (markovian_add p s)"
| "markovian_op react (Op_remove p) s = removeListener p s"

fun op_permitted :: "('p, 'a) reaction \<Rightarrow> ('p, 'a) provider_op \<Rightarrow> ('p, 'a) provider \<Rightarrow> bool" where
  "op_permitted react (Op_notify a) s = notify_permitted markovian_add react a (length (mListeners s)) (s\<lparr>mA := a\<rparr>)"
| "op_permitted react (Op_add p) s \<longleftrightarrow> p \<notin> set (mListeners s) \<and> length (mListeners s) + 1 < 2 ^ 31"
| "op_permitted react (Op_remove p) s \<longleftrightarrow> p \<in> set (mListeners s)"

fun markovian_ops :: "('p, 'a) reaction \<Rightarrow> ('p, 'a) provider_op list \<Rightarrow> ('p, 'a) provider \<Rightarrow> provider_error + ('p, 'a) provider" where
  "markovian_ops react [] s = Inr s"
| "markovian_ops react (x # xs) s = sum_bind (markovian_op react x s) (markovian_ops react xs)"

fun ops_permitted :: "('p, 'a) reaction \<Rightarrow> ('p, 'a) provider_op list \<Rightarrow> ('p, 'a) provider \<Rightarrow> bool" where
  "ops_permitted react [] s \<longleftrightarrow> True"
| "ops_permitted react (x # xs) s \<longleftrightarrow>
     op_permitted react x s \<and> (case markovian_op react x s of Inl e \<Rightarrow> True | Inr t \<Rightarrow> ops_permitted react xs t)"

definition up_to_date :: "('p, 'a) provider \<Rightarrow> bool" where
  "up_to_date s \<longleftrightarrow> registered s \<and> (\<forall>p\<in>set (mListeners s). last_told s p = Some (mA s))"

lemma markovian_op_up_to_date:
  assumes "up_to_date s" "op_permitted react x s"
  shows "\<exists>t. markovian_op react x s = Inr t \<and> up_to_date t"
proof (cases x)
  case (Op_notify a)
  let ?s = "s\<lparr>mA := a\<rparr>"
  have "registered ?s" using assms(1) by (simp add: up_to_date_def registered_def provider_ok_def)
  from markovian_loop_tells [OF this, of "length (mListeners s)" react a] assms(2) show ?thesis
    by (auto simp: Op_notify markovian_notify_def Let_def up_to_date_def)
next
  case (Op_add p)
  then show ?thesis
    using assms markovian.add_ok [of s p]
    by (auto simp: up_to_date_def registered_def markovian.add_listeners markovian_add_def)
next
  case (Op_remove p)
  then obtain t i where t: "removeListener p s = Inr t" "provider_ok t" "i < length (mListeners s)"
      "mListeners t = drop_listener i (mListeners s)" "received t = received s" "mA t = mA s"
    using removeListener_ok [of s p] assms by (auto simp: up_to_date_def registered_def)
  moreover have "set (mListeners t) \<subseteq> set (mListeners s)"
    using drop_listener_prefix(2) [of 0 i "mListeners s"] t(3,4) by simp
  ultimately show ?thesis using assms(1) by (auto simp: Op_remove up_to_date_def registered_def last_told_def)
qed

lemma markovian_ops_up_to_date:
  "up_to_date s \<Longrightarrow> ops_permitted react xs s \<Longrightarrow> \<exists>t. markovian_ops react xs s = Inr t \<and> up_to_date t"
proof (induction xs arbitrary: s)
  case (Cons x xs)
  then obtain t where "markovian_op react x s = Inr t" "up_to_date t" using markovian_op_up_to_date by fastforce
  with Cons show ?case by simp
qed simp

section \<open>Properties\<close>

text \<open>Listener 2 removes itself when it is called, listener 1 adds listener 9.\<close>

definition sample_reaction :: "(nat, nat) reaction" where
  "sample_reaction p told = (if p = 2 then [Remove 2] else if p = 1 then [Add 9] else [])"

definition sample_provider :: "(nat, nat) provider" where
  "sample_provider = addListener 3 (addListener 2 (addListener 1 (provider_new 0)))"

text \<open>
  C17: a notification calls every registered listener exactly once, from the last to the first, also when
  listeners register others or remove themselves as they are called; listeners added meanwhile are not called, and the
  index stays that of the vector, so that no later removal fails.
\<close>

theorem notify_calls_each_once:
  assumes "registered s" "notify_permitted addListener react a (length (mListeners s)) s"
  shows "\<exists>s'. notify react a s = Inr s' \<and> received s' = received s @ map (\<lambda>p. (p, a)) (rev (mListeners s))
    \<and> provider_ok s'"
  using notify_loop_calls [OF assms(1) le_refl assms(2)] by (auto simp: notify_def registered_def)

theorem notify_calls_each_once_witness:
  "case notify sample_reaction 5 sample_provider of Inl e \<Rightarrow> False
   | Inr s \<Rightarrow> received s = [(3, 5), (2, 5), (1, 5)] \<and> mListeners s = [1, 3, 9] \<and> provider_ok s"
proof -
  have empty: "provider_ok (provider_new 0 :: (nat, nat) provider)" by (simp add: provider_new_def provider_ok_def)
  have "provider_ok sample_provider"
    unfolding sample_provider_def by (intro addListener_ok empty) (simp_all add: provider_new_def)
  then have r: "registered sample_provider" by (simp add: registered_def sample_provider_def provider_new_def)
  have "notify_permitted addListener sample_reaction 5 (length (mListeners sample_provider)) sample_provider"
    by (simp add: sample_provider_def sample_reaction_def provider_new_def removeListener_def addListener_def hook_def
        tell_def Let_def)
  from notify_calls_each_once [OF r this] obtain s where s: "notify sample_reaction 5 sample_provider = Inr s"
      "received s = received sample_provider @ map (\<lambda>p. (p, 5)) (rev (mListeners sample_provider))" "provider_ok s" by blast
  moreover have "case notify sample_reaction 5 sample_provider of Inl e \<Rightarrow> False | Inr s \<Rightarrow> mListeners s = [1, 3, 9]"
    by code_simp
  ultimately show ?thesis by (simp add: sample_provider_def provider_new_def addListener_def hook_def)
qed

text \<open>
  listeners of a provider that remembers its value are up to date. After any sequence of notifications,
  additions and removals, with listeners that react as the documentation permits, no assertion has failed and what every
  registered listener was told last is the current value.
\<close>

lemma markovian_listeners_up_to_date:
  assumes "ops_permitted react xs (provider_new a)"
  shows "\<exists>s. markovian_ops react xs (provider_new a) = Inr s \<and> (\<forall>p\<in>set (mListeners s). last_told s p = Some (mA s))"
proof -
  have "up_to_date (provider_new a)" by (simp add: up_to_date_def registered_def provider_ok_def provider_new_def)
  from markovian_ops_up_to_date [OF this assms] show ?thesis by (auto simp: up_to_date_def)
qed

end
