(* ===== verification/Sha512_Code.thy ===== *)
theory Sha512_Code
  imports Sha256_Code
begin

unbundle bit_operations_syntax

text \<open>
  The SHA-512 and SHA-384 parts of \<open>util/internal_sha2.cpp\<close>, modelled as \<open>Sha256_Code\<close> models SHA-256: the
  byte order of the host is a parameter, a block is \<open>None\<close> for the buffer of the context or \<open>Some\<close> the
  bytes at a pointer. The count of bits is an array of two words, the low one first. A digest or text
  argument that is not the null pointer is \<open>True\<close>; the result is then the content of the array.
\<close>

section \<open>Macros and constants\<close>

definition SHA512_BLOCK_LENGTH :: nat where "SHA512_BLOCK_LENGTH = 128"

definition SHA384_BLOCK_LENGTH :: nat where "SHA384_BLOCK_LENGTH = 128"

definition SHA512_SHORT_BLOCK_LENGTH :: nat where "SHA512_SHORT_BLOCK_LENGTH = SHA512_BLOCK_LENGTH - 16"

definition ADDINC128 :: "u64 \<times> u64 \<Rightarrow> u64 \<Rightarrow> u64 \<times> u64" where
  "ADDINC128 = (\<lambda>(w0, w1) n. let w0 = w0 + n in if w0 < n then (w0, w1 + 1) else (w0, w1))"

definition S64 :: "nat \<Rightarrow> u64 \<Rightarrow> u64" where
  "S64 b x = drop_bit b x OR push_bit (64 - b) x"

definition Sigma0_512 :: "u64 \<Rightarrow> u64" where
  "Sigma0_512 x = S64 28 x XOR S64 34 x XOR S64 39 x"

definition Sigma1_512 :: "u64 \<Rightarrow> u64" where
  "Sigma1_512 x = S64 14 x XOR S64 18 x XOR S64 41 x"

definition sigma0_512 :: "u64 \<Rightarrow> u64" where
  "sigma0_512 x = S64 1 x XOR S64 8 x XOR R 7 x"

definition sigma1_512 :: "u64 \<Rightarrow> u64" where
  "sigma1_512 x = S64 19 x XOR S64 61 x XOR R 6 x"

definition K512 :: "u64 list" where
  "K512 =
     concat
      [[0x428a2f98d728ae22, 0x7137449123ef65cd],
       [0xb5c0fbcfec4d3b2f, 0xe9b5dba58189dbbc],
       [0x3956c25bf348b538, 0x59f111f1b605d019],
       [0x923f82a4af194f9b, 0xab1c5ed5da6d8118],
       [0xd807aa98a3030242, 0x12835b0145706fbe],
       [0x243185be4ee4b28c, 0x550c7dc3d5ffb4e2],
       [0x72be5d74f27b896f, 0x80deb1fe3b1696b1],
       [0x9bdc06a725c71235, 0xc19bf174cf692694],
       [0xe49b69c19ef14ad2, 0xefbe4786384f25e3],
       [0x0fc19dc68b8cd5b5, 0x240ca1cc77ac9c65],
       [0x2de92c6f592b0275, 0x4a7484aa6ea6e483],
       [0x5cb0a9dcbd41fbd4, 0x76f988da831153b5],
       [0x983e5152ee66dfab, 0xa831c66d2db43210],
       [0xb00327c898fb213f, 0xbf597fc7beef0ee4],
       [0xc6e00bf33da88fc2, 0xd5a79147930aa725],
       [0x06ca6351e003826f, 0x142929670a0e6e70],
       [0x27b70a8546d22ffc, 0x2e1b21385c26c926],
       [0x4d2c6dfc5ac42aed, 0x53380d139d95b3df],
       [0x650a73548baf63de, 0x766a0abb3c77b2a8],
       [0x81c2c92e47edaee6, 0x92722c851482353b],
       [0xa2bfe8a14cf10364, 0xa81a664bbc423001],
       [0xc24b8b70d0f89791, 0xc76c51a30654be30],
       [0xd192e819d6ef5218, 0xd69906245565a910],
       [0xf40e35855771202a, 0x106aa07032bbd1b8],
       [0x19a4c116b8d2d0c8, 0x1e376c085141ab53],
       [0x2748774cdf8eeb99, 0x34b0bcb5e19b48a8],
       [0x391c0cb3c5c95a63, 0x4ed8aa4ae3418acb],
       [0x5b9cca4f7763e373, 0x682e6ff3d6b2b8a3],
       [0x748f82ee5defb2fc, 0x78a5636f43172f60],
       [0x84c87814a1f0ab72, 0x8cc702081a6439ec],
       [0x90befffa23631e28, 0xa4506cebde82bde9],
       [0xbef9a3f7b2c67915, 0xc67178f2e372532b],
       [0xca273eceea26619c, 0xd186b8c721c0c207],
       [0xeada7dd6cde0eb1e, 0xf57d4f7fee6ed178],
       [0x06f067aa72176fba, 0x0a637dc5a2c898a6],
       [0x113f9804bef90dae, 0x1b710b35131c471b],
       [0x28db77f523047d84, 0x32caab7b40c72493],
       [0x3c9ebe0a15c9bebc, 0x431d67c49c100d4c],
       [0x4cc5d4becb3e42b6, 0x597f299cfc657e2a],
       [0x5fcb6fab3ad6faec, 0x6c44198c4a475817]]"

definition sha384_initial_hash_value :: "u64 list" where
  "sha384_initial_hash_value =
     [0xcbbb9d5dc1059ed8, 0x629a292a367cd507,
      0x9159015a3070dd17, 0x152fecd8f70e5939,
      0x67332667ffc00b31, 0x8eb44a8768581511,
      0xdb0c2e0d64f98fa7, 0x47b5481dbefa4fa4]"

definition sha512_initial_hash_value :: "u64 list" where
  "sha512_initial_hash_value =
     [0x6a09e667f3bcc908, 0xbb67ae8584caa73b,
      0x3c6ef372fe94f82b, 0xa54ff53a5f1d36f1,
      0x510e527fade682d1, 0x9b05688c2b3e6c1f,
      0x1f83d9abfb41bd6b, 0x5be0cd19137e2179]"

section \<open>The context and the transform\<close>

record SHA512_CTX =
  state512 :: "u64 list"
  bitcount512 :: "u64 \<times> u64"
  buffer512 :: "u8 list"

definition SHA512_Init :: "SHA512_CTX \<Rightarrow> SHA512_CTX" where
  "SHA512_Init context = context
     \<lparr>state512 := sha512_initial_hash_value, buffer512 := replicate SHA512_BLOCK_LENGTH 0, bitcount512 := (0, 0)\<rparr>"

definition ROUND512_0_TO_15 :: "byte_order \<times> u64 list option \<Rightarrow> u64 round_macro" where
  "ROUND512_0_TO_15 = (\<lambda>(bo, data) j a b c d e f g h W512.
     let word = (case data of None \<Rightarrow> W512 ! j | Some ws \<Rightarrow> ws ! j);
         W512 = W512[j := (case bo of Little_endian \<Rightarrow> REVERSE64 word | Big_endian \<Rightarrow> word)];
         T1 = h + Sigma1_512 e + Ch e f g + K512 ! j + W512 ! j
     in (d + T1, T1 + Sigma0_512 a + Maj a b c, W512))"

definition ROUND512 :: "u64 round_macro" where
  "ROUND512 j a b c d e f g h W512 =
     (let s0 = sigma0_512 (W512 ! ((j + 1) AND 0x0f));
          s1 = sigma1_512 (W512 ! ((j + 14) AND 0x0f));
          W512 = W512[j AND 0x0f := W512 ! (j AND 0x0f) + (s1 + W512 ! ((j + 9) AND 0x0f) + s0)];
          T1 = h + Sigma1_512 e + Ch e f g + K512 ! j + W512 ! (j AND 0x0f)
      in (d + T1, T1 + Sigma0_512 a + Maj a b c, W512))"

definition SHA512_Transform :: "byte_order \<Rightarrow> u8 list option \<Rightarrow> SHA512_CTX \<Rightarrow> SHA512_CTX" where
  "SHA512_Transform bo data context =
     (let W512 = load_words bo (buffer512 context);
          ws = map_option (load_words bo) data;
          s = do_rounds (ROUND512_0_TO_15 (bo, ws)) 16 0 (regs_of (state512 context), W512);
          (regs, W512) = do_rounds ROUND512 80 16 s
      in context\<lparr>state512 := add_regs (state512 context) regs, buffer512 := concat (map (store_word bo) W512)\<rparr>)"

text \<open>The version without unrolled loops.\<close>

definition rolled512_round_0_to_15 :: "byte_order \<times> u64 list option \<Rightarrow> nat \<Rightarrow> u64 regs \<times> u64 list \<Rightarrow> u64 regs \<times> u64 list" where
  "rolled512_round_0_to_15 = (\<lambda>(bo, data) j ((a, b, c, d, e, f, g, h), W512).
     let word = (case data of None \<Rightarrow> W512 ! j | Some ws \<Rightarrow> ws ! j);
         W512 = W512[j := (case bo of Little_endian \<Rightarrow> REVERSE64 word | Big_endian \<Rightarrow> word)];
         T1 = h + Sigma1_512 e + Ch e f g + K512 ! j + W512 ! j;
         T2 = Sigma0_512 a + Maj a b c
     in ((T1 + T2, a, b, c, d + T1, e, f, g), W512))"

definition rolled512_round :: "nat \<Rightarrow> u64 regs \<times> u64 list \<Rightarrow> u64 regs \<times> u64 list" where
  "rolled512_round j = (\<lambda>((a, b, c, d, e, f, g, h), W512).
     let s0 = sigma0_512 (W512 ! ((j + 1) AND 0x0f));
         s1 = sigma1_512 (W512 ! ((j + 14) AND 0x0f));
         W512 = W512[j AND 0x0f := W512 ! (j AND 0x0f) + (s1 + W512 ! ((j + 9) AND 0x0f) + s0)];
         T1 = h + Sigma1_512 e + Ch e f g + K512 ! j + W512 ! (j AND 0x0f);
         T2 = Sigma0_512 a + Maj a b c
     in ((T1 + T2, a, b, c, d + T1, e, f, g), W512))"

definition SHA512_Transform_rolled :: "byte_order \<Rightarrow> u8 list option \<Rightarrow> SHA512_CTX \<Rightarrow> SHA512_CTX" where
  "SHA512_Transform_rolled bo data context =
     (let W512 = load_words bo (buffer512 context);
          ws = map_option (load_words bo) data;
          s = do_rolled (rolled512_round_0_to_15 (bo, ws)) 16 0 (regs_of (state512 context), W512);
          (regs, W512) = do_rolled rolled512_round 80 16 s
      in context\<lparr>state512 := add_regs (state512 context) regs, buffer512 := concat (map (store_word bo) W512)\<rparr>)"

section \<open>Update\<close>

text \<open>Copying bytes to a position of the buffer and counting their bits, which the code does three times.\<close>

definition copy_512 :: "SHA512_CTX \<Rightarrow> nat \<Rightarrow> u8 list \<Rightarrow> SHA512_CTX" where
  "copy_512 context pos data = context
     \<lparr>buffer512 := overwrite pos data (buffer512 context),
      bitcount512 := ADDINC128 (bitcount512 context) (push_bit 3 (of_nat (length data)))\<rparr>"

definition block_512 :: "byte_order \<Rightarrow> SHA512_CTX \<Rightarrow> u8 list \<Rightarrow> SHA512_CTX" where
  "block_512 bo context data =
     (let context = SHA512_Transform bo (Some data) context
      in context\<lparr>bitcount512 := ADDINC128 (bitcount512 context) (push_bit 3 (of_nat SHA512_BLOCK_LENGTH))\<rparr>)"

function update512_blocks :: "byte_order \<Rightarrow> SHA512_CTX \<Rightarrow> u8 list \<Rightarrow> SHA512_CTX \<times> u8 list" where
  "update512_blocks bo context data =
     (if length data \<ge> SHA512_BLOCK_LENGTH
      then update512_blocks bo (block_512 bo context (take SHA512_BLOCK_LENGTH data)) (drop SHA512_BLOCK_LENGTH data)
      else (context, data))"
  by auto
termination
  by (relation "measure (\<lambda>(_, _, data). length data)") (auto simp: SHA512_BLOCK_LENGTH_def)

declare update512_blocks.simps [simp del]

definition update512_rest :: "byte_order \<Rightarrow> SHA512_CTX \<Rightarrow> u8 list \<Rightarrow> SHA512_CTX" where
  "update512_rest bo context data =
     (case update512_blocks bo context data of (context, data) \<Rightarrow>
        if length data > 0 then copy_512 context 0 data else context)"

definition usedspace512 :: "SHA512_CTX \<Rightarrow> nat" where
  "usedspace512 context = unat (drop_bit 3 (fst (bitcount512 context)) mod of_nat SHA512_BLOCK_LENGTH)"

definition SHA512_Update :: "byte_order \<Rightarrow> SHA512_CTX \<Rightarrow> u8 list \<Rightarrow> SHA512_CTX" where
  "SHA512_Update bo context data =
     (if data = [] then context
      else let used = usedspace512 context in
        if used > 0
        then let freespace = SHA512_BLOCK_LENGTH - used in
          if length data \<ge> freespace
          then let context = copy_512 context used (take freespace data);
                   context = SHA512_Transform bo None context
               in update512_rest bo context (drop freespace data)
          else copy_512 context used data
        else update512_rest bo context data)"

section \<open>Last, Final and End\<close>

text \<open>
  \<open>SHA512_Last\<close> up to the last transform. The set-up after the second to last transform zeroes all but
  two bytes of the block, fourteen of them for the length to be stored over.
\<close>

definition last_pad :: "byte_order \<Rightarrow> SHA512_CTX \<Rightarrow> SHA512_CTX" where
  "last_pad bo context =
     (let used = usedspace512 context;
          (lo, hi) = bitcount512 context;
          context = context\<lparr>bitcount512 := (case bo of Little_endian \<Rightarrow> (REVERSE64 lo, REVERSE64 hi) | Big_endian \<Rightarrow> (lo, hi))\<rparr>;
          context =
            (if used > 0
             then let context = context\<lparr>buffer512 := overwrite used [0x80] (buffer512 context)\<rparr>; used = used + 1 in
               if used \<le> SHA512_SHORT_BLOCK_LENGTH
               then context\<lparr>buffer512 := overwrite used (replicate (SHA512_SHORT_BLOCK_LENGTH - used) 0) (buffer512 context)\<rparr>
               else let context = (if used < SHA512_BLOCK_LENGTH
                      then context\<lparr>buffer512 := overwrite used (replicate (SHA512_BLOCK_LENGTH - used) 0) (buffer512 context)\<rparr>
                      else context);
                    context = SHA512_Transform bo None context
                 in context\<lparr>buffer512 := overwrite 0 (replicate (SHA512_BLOCK_LENGTH - 2) 0) (buffer512 context)\<rparr>
             else let context = context\<lparr>buffer512 := overwrite 0 (replicate SHA512_SHORT_BLOCK_LENGTH 0) (buffer512 context)\<rparr>
               in context\<lparr>buffer512 := overwrite 0 [0x80] (buffer512 context)\<rparr>);
          context = context\<lparr>buffer512 :=
            overwrite SHA512_SHORT_BLOCK_LENGTH (store_word bo (snd (bitcount512 context))) (buffer512 context)\<rparr>
      in context\<lparr>buffer512 :=
           overwrite (SHA512_SHORT_BLOCK_LENGTH + 8) (store_word bo (fst (bitcount512 context))) (buffer512 context)\<rparr>)"

definition SHA512_Last :: "byte_order \<Rightarrow> SHA512_CTX \<Rightarrow> SHA512_CTX" where
  "SHA512_Last bo context = SHA512_Transform bo None (last_pad bo context)"

text \<open>
  The loop that stores the first words of the state, converted in place, in the array of the digest;
  on a big endian host the words are copied.
\<close>

definition save_digest :: "byte_order \<Rightarrow> nat \<Rightarrow> SHA512_CTX \<Rightarrow> u8 list \<times> SHA512_CTX" where
  "save_digest bo words context =
     (let context = context\<lparr>state512 :=
            map (\<lambda>w. case bo of Little_endian \<Rightarrow> REVERSE64 w | Big_endian \<Rightarrow> w) (take words (state512 context))
            @ drop words (state512 context)\<rparr>
      in (concat (map (store_word bo) (take words (state512 context))), context))"

text \<open>The clean up zeroes the size of a pointer, the first word of the state on a 64 bit host.\<close>

definition zero_out :: "SHA512_CTX \<Rightarrow> SHA512_CTX" where
  "zero_out context = context\<lparr>state512 := (state512 context)[0 := 0]\<rparr>"

definition SHA512_Final :: "byte_order \<Rightarrow> bool \<Rightarrow> SHA512_CTX \<Rightarrow> u8 list option \<times> SHA512_CTX" where
  "SHA512_Final bo digest context =
     (if digest
      then case save_digest bo 8 (SHA512_Last bo context) of (d, context) \<Rightarrow> (Some d, zero_out context)
      else (None, zero_out context))"

text \<open>The text of a digest, before its terminator.\<close>

definition hex_text :: "u8 list \<Rightarrow> string" where
  "hex_text digest =
     concat (map (\<lambda>d. [sha2_hex_digits ! unat (drop_bit 4 (d AND 0xf0)), sha2_hex_digits ! unat (d AND 0x0f)]) digest)"

definition SHA512_End :: "byte_order \<Rightarrow> bool \<Rightarrow> SHA512_CTX \<Rightarrow> string option \<times> SHA512_CTX" where
  "SHA512_End bo text context =
     (if text
      then case SHA512_Final bo True context of (digest, context) \<Rightarrow> (map_option hex_text digest, context)
      else (None, zero_out context))"

definition SHA512_Data :: "byte_order \<Rightarrow> SHA512_CTX \<Rightarrow> u8 list \<Rightarrow> bool \<Rightarrow> string option" where
  "SHA512_Data bo context data digest = fst (SHA512_End bo digest (SHA512_Update bo (SHA512_Init context) data))"

section \<open>SHA-384\<close>

type_synonym SHA384_CTX = SHA512_CTX

definition SHA384_Init :: "SHA384_CTX \<Rightarrow> SHA384_CTX" where
  "SHA384_Init context = context
     \<lparr>state512 := sha384_initial_hash_value, buffer512 := replicate SHA384_BLOCK_LENGTH 0, bitcount512 := (0, 0)\<rparr>"

definition SHA384_Update :: "byte_order \<Rightarrow> SHA384_CTX \<Rightarrow> u8 list \<Rightarrow> SHA384_CTX" where
  "SHA384_Update bo context data = SHA512_Update bo context data"

definition SHA384_Final :: "byte_order \<Rightarrow> bool \<Rightarrow> SHA384_CTX \<Rightarrow> u8 list option \<times> SHA384_CTX" where
  "SHA384_Final bo digest context =
     (if digest
      then case save_digest bo 6 (SHA512_Last bo context) of (d, context) \<Rightarrow> (Some d, zero_out context)
      else (None, zero_out context))"

definition SHA384_End :: "byte_order \<Rightarrow> bool \<Rightarrow> SHA384_CTX \<Rightarrow> string option \<times> SHA384_CTX" where
  "SHA384_End bo text context =
     (if text
      then case SHA384_Final bo True context of (digest, context) \<Rightarrow> (map_option hex_text digest, context)
      else (None, zero_out context))"

definition SHA384_Data :: "byte_order \<Rightarrow> SHA384_CTX \<Rightarrow> u8 list \<Rightarrow> bool \<Rightarrow> string option" where
  "SHA384_Data bo context data digest = fst (SHA384_End bo digest (SHA384_Update bo (SHA384_Init context) data))"

section \<open>What the standard prescribes\<close>

definition sha512_parameters :: "u64 sha2_parameters" where
  "sha512_parameters =
     \<lparr>Sigma0 = \<lambda>x. word_rotr 28 x XOR word_rotr 34 x XOR word_rotr 39 x,
      Sigma1 = \<lambda>x. word_rotr 14 x XOR word_rotr 18 x XOR word_rotr 41 x,
      sigma0 = \<lambda>x. word_rotr 1 x XOR word_rotr 8 x XOR drop_bit 7 x,
      sigma1 = \<lambda>x. word_rotr 19 x XOR word_rotr 61 x XOR drop_bit 6 x,
      Kt = K512\<rparr>"

definition sha512_compress :: "u64 list \<Rightarrow> u8 list \<Rightarrow> u64 list" where
  "sha512_compress H block = fips_compress sha512_parameters H (load_words Big_endian block)"

definition sha512_count :: "nat \<Rightarrow> u8 list" where
  "sha512_count n = store_word Big_endian (of_nat n :: 128 word)"

definition fips_sha512 :: "u8 list \<Rightarrow> u8 list" where
  "fips_sha512 m = concat (map (store_word Big_endian)
     (absorbed 128 sha512_compress sha512_initial_hash_value (fips_pad 128 sha512_count m)))"

definition fips_sha384 :: "u8 list \<Rightarrow> u8 list" where
  "fips_sha384 m = take 48 (concat (map (store_word Big_endian)
     (absorbed 128 sha512_compress sha384_initial_hash_value (fips_pad 128 sha512_count m))))"

end
