(* ===== verification/Sha512_Correct.thy ===== *)
theory Sha512_Correct
  imports Sha512_Code Sha256_Correct Buffered_Hash
begin

unbundle bit_operations_syntax

text \<open>
  The SHA-512 and SHA-384 code computes the functions of the standard, on hosts of both byte orders: the
  round macros implement the steps of the compression function (\<open>sha2_rounds\<close>), the two words of the
  count are the 128 bit number the padding needs, and the buffering code hashes the padded message
  block by block (\<open>buffered_hash\<close>).
\<close>

section \<open>Byte orders and the count\<close>

definition to_host64 :: "byte_order \<Rightarrow> u64 \<Rightarrow> u64" where
  "to_host64 bo w = (case bo of Little_endian \<Rightarrow> REVERSE64 w | Big_endian \<Rightarrow> w)"

lemma to_host64_load: "length bs = 8 \<Longrightarrow> to_host64 bo (load_word bo bs) = load_word Big_endian bs"
  using bytes_le_word_le [where 'a = 64, of bs]
  by (simp add: to_host64_def load_word_def REVERSE64_bytes split: byte_order.split)

lemma store_to_host64: "store_word bo (to_host64 bo w) = store_word Big_endian w"
  by (simp add: to_host64_def store_count)

lemma bytes_le_split:
  "bytes_le 8 (of_nat n :: u64) @ bytes_le 8 (of_nat (n div 2 ^ 64) :: u64) = bytes_le 16 (of_nat n :: 128 word)"
proof (rule nth_equalityI)
  fix k assume "k < length (bytes_le 8 (of_nat n :: u64) @ bytes_le 8 (of_nat (n div 2 ^ 64) :: u64))"
  then have k: "k < 16" by simp
  have high: "bit (n div 2 ^ 64) i = bit n (64 + i)" for i
    by (simp only: drop_bit_eq_div [symmetric] bit_drop_bit_eq comp_apply)
  have "bit ((bytes_le 8 (of_nat n :: u64) @ bytes_le 8 (of_nat (n div 2 ^ 64) :: u64)) ! k) i
      = bit (bytes_le 16 (of_nat n :: 128 word) ! k) i" if "i < 8" for i
  proof (cases "k < 8")
    case True
    then show ?thesis using that by (simp add: nth_append bit_bytes_le bit_simps)
  next
    case False
    then have "64 + (8 * (k - 8) + i) = 8 * k + i" by simp
    then show ?thesis using False k that by (simp add: nth_append bit_bytes_le bit_simps high [simplified] add.assoc [symmetric])
  qed
  then show "(bytes_le 8 (of_nat n :: u64) @ bytes_le 8 (of_nat (n div 2 ^ 64) :: u64)) ! k
      = bytes_le 16 (of_nat n :: 128 word) ! k"
    by (intro bit_word_eqI) simp
qed simp

lemma sha512_count_halves:
  "store_word Big_endian (of_nat (n div 2 ^ 64) :: u64) @ store_word Big_endian (of_nat n :: u64) = sha512_count n"
  using bytes_le_split [of n, THEN arg_cong, of rev] by (simp add: sha512_count_def store_word_def Let_def)

text \<open>The two words of the count after \<open>n\<close> bits.\<close>

definition count128 :: "nat \<Rightarrow> u64 \<times> u64" where
  "count128 n = (of_nat n, of_nat (n div 2 ^ 64))"

lemma ADDINC128_counts:
  assumes "b < 2 ^ 64"
  shows "ADDINC128 (count128 a) (of_nat b) = count128 (a + b)"
proof -
  define M :: nat where "M = 2 ^ 64"
  have M: "0 < M" "b < M" using assms by (simp_all add: M_def)
  have lo: "unat (of_nat a + of_nat b :: u64) = (a mod M + b) mod M"
    by (simp add: unat_word_ariths unat_of_nat M_def mod_simps)
  have b: "unat (of_nat b :: u64) = b" using assms by (simp add: unat_of_nat)
  have sum: "a + b = M * (a div M) + (a mod M + b)" by simp
  have div: "(a + b) div M = a div M + (a mod M + b) div M" 
    using div_mult_self4 [of M "a div M" "a mod M + b"] M(1) by (simp only: sum [symmetric] not_gr0 [symmetric] not_not)
  have r: "a mod M < M" using M(1) by simp
  show ?thesis
  proof (cases "a mod M + b < M")
    case True
    then have "(a + b) div M = a div M" using div by simp
    moreover have "\<not> (of_nat a + of_nat b :: u64) < of_nat b"
      unfolding word_less_nat_alt lo b using True by simp
    ultimately show ?thesis by (simp add: ADDINC128_def count128_def Let_def M_def)
  next
    case False
    then obtain x where x: "a mod M + b = M + x" "x < M" using r M(2) by (auto simp: not_less le_iff_add)
    then have "(a mod M + b) div M = 1" "(a mod M + b) mod M = a mod M + b - M"
      using M(1) by simp_all
    moreover have "(of_nat a + of_nat b :: u64) < of_nat b"
      unfolding word_less_nat_alt lo b using calculation(2) r False by linarith
    ultimately show ?thesis using div by (simp add: ADDINC128_def count128_def Let_def M_def)
  qed
qed

section \<open>The transform\<close>

lemma S64_rotr: "0 < b \<Longrightarrow> b < 64 \<Longrightarrow> S64 b x = word_rotr b x"
  using shifts_rotr [of b x] by (simp add: S64_def)

lemma sigmas_512:
  "Sigma0 sha512_parameters = Sigma0_512" "Sigma1 sha512_parameters = Sigma1_512"
  "sigma0 sha512_parameters = sigma0_512" "sigma1 sha512_parameters = sigma1_512"
  by (simp_all add: sha512_parameters_def fun_eq_iff Sigma0_512_def Sigma1_512_def sigma0_512_def
      sigma1_512_def S64_rotr R_def)

fun loads_512 :: "byte_order \<times> u64 list option \<Rightarrow> u64 list \<Rightarrow> u64 list \<Rightarrow> bool" where
  "loads_512 (bo, data) W M \<longleftrightarrow>
     (\<forall>j<16. to_host64 bo (case data of None \<Rightarrow> W ! j | Some ws \<Rightarrow> ws ! j) = M ! j)"

interpretation sha512: sha2_rounds sha512_parameters ROUND512_0_TO_15 ROUND512 loads_512
proof (unfold_locales, goal_cases)
  case 1
  then show ?case by (intro exI [of _ 7]) (simp add: sha512_parameters_def K512_def)
next
  case (2 x W\<^sub>0 M j W r)
  obtain bo data where x: "x = (bo, data)" by (cases x)
  obtain a b c d e f g h where r: "r = (a, b, c, d, e, f, g, h)" by (rule regs_cases)
  have "to_host64 bo (case data of None \<Rightarrow> W ! j | Some ws \<Rightarrow> ws ! j) = M ! j"
    using 2 by (auto simp: x split: option.splits)
  with 2 show ?case
    by (simp add: x r turn_def ROUND512_0_TO_15_def fips_step_def Let_def sigmas_512 to_host64_def [symmetric]
        add.assoc) (simp add: sha512_parameters_def)
next
  case (3 j W w r)
  obtain a b c d e f g h where r: "r = (a, b, c, d, e, f, g, h)" by (rule regs_cases)
  show ?case using 3
    by (simp add: r turn_def ROUND512_def fips_step_def Let_def sigmas_512 and_15 add.assoc)
      (simp add: sha512_parameters_def)
qed

lemma SHA512_Transform_compresses:
  assumes "length (buffer512 c) = 128" "length (case data of None \<Rightarrow> buffer512 c | Some d \<Rightarrow> d) = 128"
  shows "\<exists>buf. length buf = 128 \<and> SHA512_Transform bo data c = c
    \<lparr>state512 := sha512_compress (state512 c) (case data of None \<Rightarrow> buffer512 c | Some d \<Rightarrow> d), buffer512 := buf\<rparr>"
proof -
  let ?blk = "case data of None \<Rightarrow> buffer512 c | Some d \<Rightarrow> d" and ?ws = "map_option (load_words bo) data"
  have "to_host64 bo (load_words bo ?blk ! j) = load_words Big_endian ?blk ! j" if "j < 16" for j
    using that assms(2) by (simp add: load_words_def Let_def to_host64_load)
  then have "loads_512 (bo, ?ws) (load_words bo (buffer512 c)) (load_words Big_endian ?blk)"
    by (auto split: option.splits)
  have k: "Kt sha512_parameters = K512" "length K512 = 80"
    by (simp_all add: sha512_parameters_def K512_def)
  from sha512.transform_compresses [OF \<open>loads_512 _ _ _\<close>, of "state512 c"]
  obtain W where W: "do_rounds ROUND512 80 16 (do_rounds (ROUND512_0_TO_15 (bo, ?ws)) 16 0
        (regs_of (state512 c), load_words bo (buffer512 c)))
      = (fold (\<lambda>t. fips_step sha512_parameters (K512 ! t) (schedule sha512_parameters (load_words Big_endian ?blk) t))
          [0 ..< 80] (regs_of (state512 c)), W)" "length W = 16"
    by (auto simp: k)
  have len: "length (concat (map (store_word bo) W)) = 128"
    using length_stored_words [OF W(2)] by simp
  show ?thesis
    using W(1) len
    by (intro exI [of _ "concat (map (store_word bo) W)"])
      (simp add: SHA512_Transform_def Let_def sha512_compress_def fips_compress_def k)
qed

lemma SHA512_Transform_unrolled_eq_rolled: "SHA512_Transform bo data c = SHA512_Transform_rolled bo data c"
proof -
  have turns: "rolled512_round_0_to_15 x = turn (ROUND512_0_TO_15 x)" "rolled512_round = turn ROUND512" for x
    by (auto simp: fun_eq_iff rolled512_round_0_to_15_def rolled512_round_def turn_def ROUND512_0_TO_15_def
        ROUND512_def Let_def add.assoc split: prod.splits)
  have "do_rounds (ROUND512_0_TO_15 x) 16 0 s = do_rolled (rolled512_round_0_to_15 x) 16 0 s" for x s
    using do_rounds_turns [of "ROUND512_0_TO_15 x" 0 1 s] by (simp add: do_rolled_fold turns)
  moreover have "do_rounds ROUND512 80 16 s = do_rolled rolled512_round 80 16 s" for s
    using do_rounds_turns [of ROUND512 16 7 s] by (simp add: do_rolled_fold turns)
  ultimately show ?thesis by (simp add: SHA512_Transform_def SHA512_Transform_rolled_def)
qed

section \<open>Buffering\<close>

text \<open>The context that has received the message \<open>m\<close>, after it was initialised to \<open>H\<close>.\<close>

definition sha512_holds :: "u64 list \<Rightarrow> SHA512_CTX \<Rightarrow> u8 list \<Rightarrow> bool" where
  "sha512_holds H c m \<longleftrightarrow> holds 128 sha512_compress H m (state512 c) (buffer512 c)
     \<and> bitcount512 c = count128 (8 * length m)"

lemma sha512_holds_length: "sha512_holds H c m \<Longrightarrow> length (buffer512 c) = 128"
  by (simp add: sha512_holds_def holds_def)

lemma sha512_holds_used:
  assumes "sha512_holds H c m"
  shows "usedspace512 c = length m mod 128"
proof -
  let ?n = "length m"
  have "8 * ?n mod 18446744073709551616 = 8 * (?n mod 2305843009213693952)"
    using mult_mod_right [of 8 ?n 2305843009213693952] by simp
  moreover have "?n mod 2305843009213693952 mod 128 = ?n mod 128" by (simp add: mod_mod_cancel)
  moreover have "fst (bitcount512 c) = of_nat (8 * ?n)" using assms by (simp add: sha512_holds_def count128_def)
  ultimately show ?thesis
    by (simp add: usedspace512_def SHA512_BLOCK_LENGTH_def unat_mod unat_div unat_of_nat drop_bit_eq_div
        del: of_nat_mult)
qed

lemma count128_copied:
  "length d \<le> 128 \<Longrightarrow>
    ADDINC128 (count128 (8 * length m)) (push_bit 3 (of_nat (length d))) = count128 (8 * length (m @ d))"
  using ADDINC128_counts [of "8 * length d" "8 * length m"]
  by (simp add: push_bit_eq_mult mult.commute distrib_left)

interpretation sha512_block: block_hash 128 sha512_compress H sha512_count for H
  by unfold_locales (simp_all add: sha512_count_def)

lemma holds_flush_512:
  assumes "sha512_holds H c m" "length m mod 128 + length d = 128"
  shows "sha512_holds H (SHA512_Transform bo None (copy_512 c (length m mod 128) d)) (m @ d)"
proof -
  let ?buf = "overwrite (length m mod 128) d (buffer512 c)"
  note len = sha512_holds_length [OF assms(1)]
  have buf: "?buf = take (length m mod 128) (buffer512 c) @ d" "length ?buf = 128"
    using assms(2) len by (simp_all add: overwrite_def)
  obtain b where b: "length b = 128" "SHA512_Transform bo None (copy_512 c (length m mod 128) d)
      = (copy_512 c (length m mod 128) d)\<lparr>state512 := sha512_compress (state512 c) ?buf, buffer512 := b\<rparr>"
    using SHA512_Transform_compresses [of "copy_512 c (length m mod 128) d" None bo] buf(2)
    by (auto simp: copy_512_def)
  have "length d \<le> 128" using assms(2) by simp
  then show ?thesis
    unfolding b(2)
    using assms sha512_block.holds_fill [OF _ assms(2) b(1), of H "state512 c" "buffer512 c"] count128_copied [of d m]
    by (simp add: sha512_holds_def copy_512_def buf(1))
qed

lemma holds_block_512:
  assumes "sha512_holds H c m" "length m mod 128 = 0" "length d = 128"
  shows "sha512_holds H (block_512 bo c d) (m @ d)"
proof -
  obtain b where b: "length b = 128"
    "SHA512_Transform bo (Some d) c = c\<lparr>state512 := sha512_compress (state512 c) d, buffer512 := b\<rparr>"
    using SHA512_Transform_compresses [of c "Some d" bo] sha512_holds_length [OF assms(1)] assms(3) by auto
  have "length m mod 128 + length d = 128" using assms by simp
  from sha512_block.holds_fill [OF _ this b(1), of H "state512 c" "buffer512 c"] count128_copied [of d m] assms
  show ?thesis
    by (simp add: block_512_def b(2) sha512_holds_def SHA512_BLOCK_LENGTH_def)
qed

interpretation sha512_buffer: buffered_hash 128 sha512_compress H sha512_count "sha512_holds H" usedspace512
  copy_512 "SHA512_Transform bo None" "block_512 bo" "update512_blocks bo" "update512_rest bo" "SHA512_Update bo" for H bo
proof (unfold_locales, goal_cases)
  case (1 c m)
  then show ?case by (rule sha512_holds_used)
next
  case (2 c m d)
  then show ?case
    using sha512_block.holds_partial [of H m "state512 c" "buffer512 c" d] count128_copied [of d m]
    by (simp add: sha512_holds_def copy_512_def)
next
  case (3 c m d)
  then show ?case by (rule holds_flush_512)
next
  case (4 c m d)
  then show ?case by (rule holds_block_512)
next
  case (5 c d)
  then show ?case by (subst update512_blocks.simps) (simp add: SHA512_BLOCK_LENGTH_def)
next
  case (6 c d)
  then show ?case by (simp add: update512_rest_def)
next
  case (7 c d)
  then show ?case by (simp add: SHA512_Update_def SHA512_BLOCK_LENGTH_def Let_def)
qed

lemma SHA512_Init_holds: "sha512_holds sha512_initial_hash_value (SHA512_Init c) []"
  using sha512_block.holds_init by (simp add: sha512_holds_def SHA512_Init_def SHA512_BLOCK_LENGTH_def count128_def)

lemma SHA384_Init_holds: "sha512_holds sha384_initial_hash_value (SHA384_Init c) []"
  using sha512_block.holds_init by (simp add: sha512_holds_def SHA384_Init_def SHA384_BLOCK_LENGTH_def count128_def)

section \<open>The digest\<close>

lemma transform_bitcount512: "bitcount512 (SHA512_Transform bo d c) = bitcount512 c"
  by (simp add: SHA512_Transform_def Let_def split: prod.split)

lemma last_pad_absorbs:
  assumes "sha512_holds H c m"
  shows "length (buffer512 (last_pad bo c)) = 128
    \<and> sha512_compress (state512 (last_pad bo c)) (buffer512 (last_pad bo c))
      = absorbed 128 sha512_compress H (fips_pad 128 sha512_count m)"
proof -
  let ?r = "length m mod 128" and ?count = "sha512_count (8 * length m)"
  obtain lo hi where bits: "bitcount512 c = (lo, hi)" by (cases "bitcount512 c")
  let ?hi = "store_word bo (to_host64 bo hi)" and ?lo = "store_word bo (to_host64 bo lo)"
  let ?c = "c\<lparr>bitcount512 := (to_host64 bo lo, to_host64 bo hi)\<rparr>"
  have h: "holds 128 sha512_compress H m (state512 c) (buffer512 c)"
    using assms by (simp add: sha512_holds_def)
  have len: "length (buffer512 c) = 128" and r: "?r < 128" using assms by (simp_all add: sha512_holds_length)
  have count: "?hi @ ?lo = ?count"
    using assms sha512_count_halves [of "8 * length m"]
    by (simp add: sha512_holds_def count128_def bits store_to_host64 del: of_nat_mult)
  have count_len: "length ?count = 16" "length ?hi = 8" "length ?lo = 8" by (simp_all add: sha512_count_def)
  have stored: "overwrite 120 ?lo (overwrite 112 ?hi buf) = overwrite 112 ?count buf" if "length buf = 128" for buf
    using overwrite_twice [of 112 ?hi ?lo buf] that count_len count by simp
  have swap: "(case bo of Little_endian \<Rightarrow> (REVERSE64 lo, REVERSE64 hi) | Big_endian \<Rightarrow> (lo, hi))
      = (to_host64 bo lo, to_host64 bo hi)" by (simp add: to_host64_def split: byte_order.split)
  note defs = last_pad_def SHA512_SHORT_BLOCK_LENGTH_def SHA512_BLOCK_LENGTH_def Let_def sha512_holds_used [OF assms]
    bits swap
  consider (zero) "?r = 0" | (short) "0 < ?r" "?r + 1 \<le> 112" | (long) "112 < ?r + 1" by force
  then show ?thesis
  proof cases
    case zero
    have "buffer512 (last_pad bo c) = overwrite 112 ?count (overwrite 0 [0x80] (overwrite 0 (replicate 112 0) (buffer512 c)))"
        "state512 (last_pad bo c) = state512 c"
      using zero len by (simp_all add: defs stored)
    moreover have "overwrite 112 ?count (overwrite 0 [0x80] (overwrite 0 (replicate 112 0) (buffer512 c)))
        = 0x80 # replicate 111 0 @ ?count"
      using len count_len by (simp add: overwrite_def)
    ultimately show ?thesis using sha512_block.pad_short [OF h] zero count_len(1) by simp
  next
    case short
    let ?z = "replicate (112 - (?r + 1)) 0 :: u8 list"
    have "buffer512 (last_pad bo c) = overwrite 112 ?count (overwrite (?r + 1) ?z (overwrite ?r [0x80] (buffer512 c)))"
        "state512 (last_pad bo c) = state512 c"
      using short len by (simp_all add: defs stored)
    then show ?thesis
      using sha512_block.pad_short [OF h] sha512_buffer.padded_short [OF len, of m] short len count_len(1) by simp
  next
    case long
    let ?z = "replicate (128 - (?r + 1)) 0 :: u8 list"
    let ?buf = "overwrite (?r + 1) ?z (overwrite ?r [0x80] (buffer512 c))"
    note buf = sha512_buffer.padded_long [OF len, of m]
    have buf_len: "length ?buf = 128" unfolding buf using len r by simp
    obtain b where b: "length b = 128"
        "SHA512_Transform bo None (?c\<lparr>buffer512 := ?buf\<rparr>) = ?c\<lparr>buffer512 := b, state512 := sha512_compress (state512 c) ?buf\<rparr>"
      using SHA512_Transform_compresses [of "?c\<lparr>buffer512 := ?buf\<rparr>" None bo] buf_len by auto
    let ?t = "SHA512_Transform bo None (?c\<lparr>buffer512 := ?buf\<rparr>)"
    have "buffer512 (last_pad bo c) = overwrite 120 ?lo (overwrite 112 ?hi (overwrite 0 (replicate 126 0) (buffer512 ?t)))"
        "state512 (last_pad bo c) = state512 ?t"
      using long by (simp_all add: defs transform_bitcount512)
    then have "buffer512 (last_pad bo c) = overwrite 112 ?count (overwrite 0 (replicate 126 0) b)"
        "state512 (last_pad bo c) = sha512_compress (state512 c) ?buf"
      unfolding b(2) using b(1) by (simp_all add: stored)
    moreover have "overwrite 112 ?count (overwrite 0 (replicate 126 0) b) = replicate 112 0 @ ?count"
      using b(1) count_len by (simp add: overwrite_def)
    ultimately show ?thesis
      using sha512_block.pad_long [OF h] long count_len(1) unfolding buf by simp
  qed
qed

lemma SHA512_Last_state:
  assumes "sha512_holds H c m"
  shows "state512 (SHA512_Last bo c) = absorbed 128 sha512_compress H (fips_pad 128 sha512_count m)"
  using SHA512_Transform_compresses [of "last_pad bo c" None bo] last_pad_absorbs [OF assms, of bo]
  by (auto simp: SHA512_Last_def)

lemma save_digest_stores:
  "fst (save_digest bo n c) = concat (map (store_word Big_endian) (take n (state512 c)))"
proof -
  have keep: "take n (map f (take n xs) @ drop n xs) = map f (take n xs)" for f :: "u64 \<Rightarrow> u64" and xs
    by (cases "n \<le> length xs") simp_all
  show ?thesis
    by (simp add: save_digest_def keep Let_def comp_def del: take_append) (simp add: store_to_host64 to_host64_def [symmetric])
qed

lemma absorbed_512_length:
  assumes "length H = 8"
  shows "length (absorbed 128 sha512_compress H m) = 8"
proof -
  have "length (fold (\<lambda>i H. sha512_compress H (nth_block 128 i m)) xs H) = 8" for xs
    using assms
    by (induction xs arbitrary: H) (simp_all add: sha512_compress_def fips_compress_def add_regs_def split: prod.split)
  then show ?thesis by (simp add: absorbed_def)
qed

lemma fed_chunks:
  "sha512_holds H c m \<Longrightarrow> sha512_holds H (fold (\<lambda>d c. SHA512_Update bo c d) chunks c) (m @ concat chunks)"
proof (induction chunks arbitrary: c m)
  case (Cons d chunks)
  show ?case using Cons.IH [OF sha512_buffer.feeds_update [OF Cons.prems]] by simp
qed simp

lemma SHA512_Final_digest:
  assumes "sha512_holds sha512_initial_hash_value c m"
  shows "fst (SHA512_Final bo True c) = Some (fips_sha512 m)"
proof -
  have "length (state512 (SHA512_Last bo c)) = 8"
    unfolding SHA512_Last_state [OF assms] by (rule absorbed_512_length) (simp add: sha512_initial_hash_value_def)
  then have "fst (save_digest bo 8 (SHA512_Last bo c)) = fips_sha512 m"
    using SHA512_Last_state [OF assms, of bo] by (simp add: save_digest_stores fips_sha512_def)
  then show ?thesis by (simp add: SHA512_Final_def split: prod.split) (metis fst_conv)
qed

lemma take_stored_words:
  "take (8 * n) (concat (map (store_word Big_endian) (ws :: u64 list))) = concat (map (store_word Big_endian) (take n ws))"
proof (induction ws arbitrary: n)
  case (Cons w ws)
  then show ?case by (cases n) simp_all
qed simp

lemma SHA384_Final_digest:
  assumes "sha512_holds sha384_initial_hash_value c m"
  shows "fst (SHA384_Final bo True c) = Some (fips_sha384 m)"
proof -
  have "fst (save_digest bo 6 (SHA512_Last bo c)) = fips_sha384 m"
    using SHA512_Last_state [OF assms, of bo] take_stored_words [of 6]
    by (simp add: save_digest_stores fips_sha384_def)
  then show ?thesis by (simp add: SHA384_Final_def split: prod.split) (metis fst_conv)
qed

section \<open>Properties\<close>

text \<open>
  C35: the SHA-512 and SHA-384 code computes the hashes of the standard, on hosts of either byte order and
  whatever the context held before: however a message is divided into calls of the update functions, the
  final functions give its hash, and the one-shot functions give the hexadecimal text of the hash.
\<close>

theorem sha512_sha384_are_fips:
  "fst (SHA512_Final bo True (fold (\<lambda>d c. SHA512_Update bo c d) chunks (SHA512_Init junk)))
      = Some (fips_sha512 (concat chunks))
   \<and> fst (SHA384_Final bo True (fold (\<lambda>d c. SHA384_Update bo c d) chunks (SHA384_Init junk)))
      = Some (fips_sha384 (concat chunks))
   \<and> SHA512_Data bo junk data True = Some (hex_text (fips_sha512 data))
   \<and> SHA384_Data bo junk data True = Some (hex_text (fips_sha384 data))"
proof -
  note init512 = SHA512_Init_holds [of junk] and init384 = SHA384_Init_holds [of junk]
  have update: "SHA384_Update = SHA512_Update" by (simp add: fun_eq_iff SHA384_Update_def)
  have "SHA512_Data bo junk data True = Some (hex_text (fips_sha512 data))"
    using SHA512_Final_digest [OF sha512_buffer.feeds_update [OF init512], of bo bo data]
    by (auto simp: SHA512_Data_def SHA512_End_def split: prod.splits)
  moreover have "SHA384_Data bo junk data True = Some (hex_text (fips_sha384 data))"
    using SHA384_Final_digest [OF sha512_buffer.feeds_update [OF init384], of bo bo data]
    by (auto simp: SHA384_Data_def SHA384_End_def update split: prod.splits)
  ultimately show ?thesis
    using SHA512_Final_digest [OF fed_chunks [OF init512]] SHA384_Final_digest [OF fed_chunks [OF init384]]
    by (simp add: update)
qed

end
