(* ===== verification/Dependency_Tasks.thy ===== *)
theory Dependency_Tasks
  imports Prelude
begin

text \<open>
  Tasks that wait for other tasks (\<open>task/DependencyTask.cpp\<close>). A task counts the tasks it waits for;
  when the count reaches zero an event is fired that runs the task, or, when one of the tasks it waited
  for failed, an event that makes it fail too.

  Pointers to tasks are numbers and the memory is a function from them. The events fired at the event
  manager are a queue, run in order. The body of a task (its \<open>operator()\<close>) is code of the client, which
  calls \<open>finish\<close> when its work is done, at any later time: the choices of a run say which event or
  which task comes next, and \<open>outcome\<close> what the work of a task results in.
\<close>

section \<open>Tasks\<close>

record DependentTask =
  mDependents :: "nat list"
  mNumThisWaitingOn :: u32
  mFailure :: bool

datatype dep_event = CallDependencyTask nat | CallDependencyFailedTask nat

record dep_world =
  tasks :: "nat \<Rightarrow> DependentTask"
  fired :: "dep_event list"

datatype dep_error = Assertion_failed

definition new_DependentTask :: DependentTask where
  "new_DependentTask = \<lparr>mDependents = [], mNumThisWaitingOn = 0, mFailure = False\<rparr>"

definition go :: "nat \<Rightarrow> dep_world \<Rightarrow> dep_world" where
  "go this w =
     (if mNumThisWaitingOn (tasks w this) = 0
      then if mFailure (tasks w this) then w\<lparr>fired := fired w @ [CallDependencyFailedTask this]\<rparr>
           else w\<lparr>fired := fired w @ [CallDependencyTask this]\<rparr>
      else w)"

definition addDepender :: "nat \<Rightarrow> nat \<Rightarrow> dep_world \<Rightarrow> dep_world" where
  "addDepender this depender w =
     (let mem = tasks w;
          mem = mem(depender := (mem depender)\<lparr>mNumThisWaitingOn := mNumThisWaitingOn (mem depender) + 1\<rparr>);
          mem = mem(this := (mem this)\<lparr>mDependents := mDependents (mem this) @ [depender]\<rparr>)
      in w\<lparr>tasks := mem\<rparr>)"

text \<open>The body of the loop of \<open>finish\<close> for one dependent task; \<open>go\<close> only fires events, so the vector does not change.\<close>

definition finish_one :: "bool \<Rightarrow> nat \<Rightarrow> dep_world \<Rightarrow> dep_error + dep_world" where
  "finish_one success dep w =
     (let t = tasks w dep in
      if mNumThisWaitingOn t > 0
      then let t = t\<lparr>mNumThisWaitingOn := mNumThisWaitingOn t - 1\<rparr>;
               t = (if \<not> success then t\<lparr>mFailure := True\<rparr> else t)
           in Inr (go dep (w\<lparr>tasks := (tasks w)(dep := t)\<rparr>))
      else Inl Assertion_failed)"

fun finish_loop :: "bool \<Rightarrow> nat list \<Rightarrow> dep_world \<Rightarrow> dep_error + dep_world" where
  "finish_loop success [] w = Inr w"
| "finish_loop success (dep # deps) w = sum_bind (finish_one success dep w) (finish_loop success deps)"

definition finish :: "nat \<Rightarrow> bool \<Rightarrow> dep_world \<Rightarrow> dep_error + dep_world" where
  "finish this success w =
     sum_bind (finish_loop success (mDependents (tasks w this)) w)
       (\<lambda>w. Inr (w\<lparr>tasks := (tasks w)(this := (tasks w this)\<lparr>mDependents := []\<rparr>)\<rparr>))"

section \<open>Runs\<close>

datatype dep_log = Called nat | Finished nat bool

record dep_run =
  world :: dep_world
  working :: "nat list"
  history :: "dep_log list"

datatype dep_choice = Dispatch | Work_done nat

text \<open>The operators of the two events, and a task that calls \<open>finish\<close>.\<close>

definition run_event :: "dep_event \<Rightarrow> dep_run \<Rightarrow> dep_error + dep_run" where
  "run_event ev s =
     (case ev of
        CallDependencyTask t \<Rightarrow> Inr (s\<lparr>working := t # working s, history := history s @ [Called t]\<rparr>)
      | CallDependencyFailedTask t \<Rightarrow>
          sum_bind (finish t False (world s)) (\<lambda>w. Inr (s\<lparr>world := w, history := history s @ [Finished t False]\<rparr>)))"

fun dep_step :: "(nat \<Rightarrow> bool) \<Rightarrow> dep_choice \<Rightarrow> dep_run \<Rightarrow> dep_error + dep_run" where
  "dep_step outcome Dispatch s =
     (case fired (world s) of
        [] \<Rightarrow> Inr s
      | ev # q \<Rightarrow> run_event ev (s\<lparr>world := (world s)\<lparr>fired := q\<rparr>\<rparr>))"
| "dep_step outcome (Work_done t) s =
     (if t \<in> set (working s)
      then sum_bind (finish t (outcome t) (world s))
        (\<lambda>w. Inr (s\<lparr>world := w, working := remove1 t (working s), history := history s @ [Finished t (outcome t)]\<rparr>))
      else Inr s)"

fun dep_steps :: "(nat \<Rightarrow> bool) \<Rightarrow> dep_choice list \<Rightarrow> dep_run \<Rightarrow> dep_error + dep_run" where
  "dep_steps outcome [] s = Inr s"
| "dep_steps outcome (ch # chs) s = sum_bind (dep_step outcome ch s) (dep_steps outcome chs)"

text \<open>The client adds the dependencies and then starts every task.\<close>

definition dep_start :: "(nat \<times> nat) list \<Rightarrow> nat list \<Rightarrow> dep_run" where
  "dep_start E ts =
     \<lparr>world = fold go ts (fold (\<lambda>(a, b). addDepender a b) E \<lparr>tasks = \<lambda>_. new_DependentTask, fired = []\<rparr>),
      working = [], history = []\<rparr>"

section \<open>What a log should be\<close>

definition ended :: "dep_log list \<Rightarrow> nat \<Rightarrow> bool" where
  "ended L t \<longleftrightarrow> Finished t True \<in> set L \<or> Finished t False \<in> set L"

definition spoilt :: "(nat \<times> nat) list \<Rightarrow> dep_log list \<Rightarrow> nat \<Rightarrow> bool" where
  "spoilt E L t \<longleftrightarrow> (\<exists>(a, b) \<in> set E. b = t \<and> Finished a False \<in> set L)"

text \<open>
  A task is called at most once, after all tasks it depends on succeeded. It ends at most once, after
  all it depends on ended: with its own outcome if it was called, and in failure, without being called, if
  one it depends on failed.
\<close>

fun entry_ok :: "(nat \<times> nat) list \<Rightarrow> (nat \<Rightarrow> bool) \<Rightarrow> dep_log list \<Rightarrow> dep_log \<Rightarrow> bool" where
  "entry_ok E outcome L (Called t) \<longleftrightarrow>
     Called t \<notin> set L \<and> (\<forall>(a, b) \<in> set E. b = t \<longrightarrow> Finished a True \<in> set L)"
| "entry_ok E outcome L (Finished t r) \<longleftrightarrow>
     \<not> ended L t \<and> (\<forall>(a, b) \<in> set E. b = t \<longrightarrow> ended L a)
     \<and> (if spoilt E L t then \<not> r \<and> Called t \<notin> set L else r = outcome t \<and> Called t \<in> set L)"

definition log_ok :: "(nat \<times> nat) list \<Rightarrow> (nat \<Rightarrow> bool) \<Rightarrow> dep_log list \<Rightarrow> bool" where
  "log_ok E outcome L \<longleftrightarrow> (\<forall>i < length L. entry_ok E outcome (take i L) (L ! i))"

definition idle :: "dep_run \<Rightarrow> bool" where
  "idle s \<longleftrightarrow> fired (world s) = [] \<and> working s = []"

section \<open>The loop of finish\<close>

definition event_of :: "dep_world \<Rightarrow> nat \<Rightarrow> dep_event" where
  "event_of w t = (if mFailure (tasks w t) then CallDependencyFailedTask t else CallDependencyTask t)"

fun event_task :: "dep_event \<Rightarrow> nat" where
  "event_task (CallDependencyTask t) = t"
| "event_task (CallDependencyFailedTask t) = t"

lemma event_task_of [simp]: "event_task (event_of w t) = t"
  by (simp add: event_of_def)

lemma go_event_of: "go t w = (if mNumThisWaitingOn (tasks w t) = 0 then w\<lparr>fired := fired w @ [event_of w t]\<rparr> else w)"
  by (simp add: go_def event_of_def)

lemma go_tasks [simp]: "tasks (go t w) = tasks w"
  by (simp add: go_def)

lemma of_nat_u32_0: "n < 2 ^ 32 \<Longrightarrow> (of_nat n :: u32) = 0 \<longleftrightarrow> n = 0"
  using unat_of_nat_eq [where 'a = 32, of n] by (auto simp: unat_eq_zero)

text \<open>
  The loop lowers the counter of every dependent task by its occurrences in the vector and fires one
  event for each whose counter reaches zero.
\<close>

lemma finish_loop_effect:
  assumes "\<And>b. mNumThisWaitingOn (tasks w b) = of_nat (c b)" "\<And>b. c b < 2 ^ 32" "\<And>b. count_list ds b \<le> c b"
  shows "\<exists>w' new. finish_loop ok ds w = Inr w'
    \<and> (\<forall>b. tasks w' b = (tasks w b)\<lparr>mNumThisWaitingOn := of_nat (c b - count_list ds b),
          mFailure := mFailure (tasks w b) \<or> (\<not> ok \<and> b \<in> set ds)\<rparr>)
    \<and> fired w' = fired w @ map (event_of w') new \<and> distinct new
    \<and> set new = {b \<in> set ds. c b = count_list ds b}"
  using assms
proof (induction ds arbitrary: w c)
  case Nil
  then show ?case by (intro exI [of _ w] exI [of _ "[]"]) simp
next
  case (Cons d ds)
  have pos: "0 < c d" using Cons.prems(3) [of d] by simp
  then have "of_nat (c d) \<noteq> (0 :: u32)" using Cons.prems(2) [of d] of_nat_u32_0 [of "c d"] by simp
  then have notz: "mNumThisWaitingOn (tasks w d) > 0" by (simp add: Cons.prems(1) word_gt_0)
  let ?t = "(tasks w d)\<lparr>mNumThisWaitingOn := of_nat (c d - 1), mFailure := mFailure (tasks w d) \<or> \<not> ok\<rparr>"
  let ?w = "w\<lparr>tasks := (tasks w)(d := ?t)\<rparr>" and ?c = "c(d := c d - 1)"
  have one: "finish_one ok d w = Inr (go d ?w)"
    using notz pos by (simp add: finish_one_def Let_def Cons.prems(1) of_nat_diff)
  have zero: "mNumThisWaitingOn (tasks ?w d) = 0 \<longleftrightarrow> c d = 1"
    using pos Cons.prems(2) [of d] of_nat_u32_0 [of "c d - 1"] by auto
  have prems: "mNumThisWaitingOn (tasks (go d ?w) b) = of_nat (?c b)" "?c b < 2 ^ 32" "count_list ds b \<le> ?c b" for b
    using Cons.prems(1-3) [of b] Cons.prems(1-3) [of d] by (auto split: if_splits)
  obtain w' new where IH: "finish_loop ok ds (go d ?w) = Inr w'"
      "\<And>b. tasks w' b = (tasks (go d ?w) b)\<lparr>mNumThisWaitingOn := of_nat (?c b - count_list ds b),
          mFailure := mFailure (tasks (go d ?w) b) \<or> (\<not> ok \<and> b \<in> set ds)\<rparr>"
      "fired w' = fired (go d ?w) @ map (event_of w') new" "distinct new" "set new = {b \<in> set ds. ?c b = count_list ds b}"
    using Cons.IH [OF prems] by (elim exE conjE) (rule that, auto)
  have tasks': "tasks w' b = (tasks w b)\<lparr>mNumThisWaitingOn := of_nat (c b - count_list (d # ds) b),
      mFailure := mFailure (tasks w b) \<or> (\<not> ok \<and> b \<in> set (d # ds))\<rparr>" for b
    using IH(2) [of b] pos by (auto split: if_splits)
  show ?case
  proof (cases "c d = 1")
    case True
    then have "count_list ds d = 0" using Cons.prems(3) [of d] by simp
    then have "d \<notin> set ds" by (simp add: count_list_0_iff)
    then have "event_of ?w d = event_of w' d" by (simp add: event_of_def IH(2))
    then have "fired w' = fired w @ map (event_of w') (d # new)"
      using IH(3) zero True by (simp add: go_event_of)
    moreover have "distinct (d # new)" "set (d # new) = {b \<in> set (d # ds). c b = count_list (d # ds) b}"
      using IH(4,5) \<open>d \<notin> set ds\<close> True \<open>count_list ds d = 0\<close> by auto
    ultimately show ?thesis using IH(1) tasks' one by (intro exI [of _ w'] exI [of _ "d # new"]) simp
  next
    case False
    then have "fired w' = fired w @ map (event_of w') new" using IH(3) zero by (simp add: go_event_of)
    moreover have "set new = {b \<in> set (d # ds). c b = count_list (d # ds) b}"
      using IH(5) pos False by (cases "d \<in> set ds") (auto simp: count_list_0_iff)
    ultimately show ?thesis using IH(1,4) tasks' one by (intro exI [of _ w'] exI [of _ new]) simp
  qed
qed

section \<open>The invariant\<close>

definition waiting :: "(nat \<times> nat) list \<Rightarrow> dep_log list \<Rightarrow> nat \<Rightarrow> nat" where
  "waiting E L t = length (filter (\<lambda>(a, b). b = t \<and> \<not> ended L a) E)"

definition dependents :: "(nat \<times> nat) list \<Rightarrow> nat \<Rightarrow> nat list" where
  "dependents E a = map snd (filter (\<lambda>e. fst e = a) E)"

definition task_at :: "(nat \<times> nat) list \<Rightarrow> dep_log list \<Rightarrow> nat \<Rightarrow> DependentTask" where
  "task_at E L t =
     \<lparr>mDependents = (if ended L t then [] else dependents E t),
      mNumThisWaitingOn = of_nat (waiting E L t), mFailure = spoilt E L t\<rparr>"

text \<open>The tasks in \<open>X\<close> are in the hands of a step that has begun.\<close>

definition dep_inv :: "(nat \<times> nat) list \<Rightarrow> nat list \<Rightarrow> (nat \<Rightarrow> bool) \<Rightarrow> nat set \<Rightarrow> dep_run \<Rightarrow> bool" where
  "dep_inv E ts outcome X s \<longleftrightarrow>
     (\<forall>t. tasks (world s) t = task_at E (history s) t)
     \<and> distinct (map event_task (fired (world s)) @ working s)
     \<and> (\<forall>t. t \<in> event_task ` set (fired (world s)) \<union> set (working s)
          \<longleftrightarrow> t \<in> set ts \<and> waiting E (history s) t = 0 \<and> \<not> ended (history s) t \<and> t \<notin> X)
     \<and> (\<forall>ev \<in> set (fired (world s)). ev = event_of (world s) (event_task ev))
     \<and> (\<forall>t \<in> set (working s). \<not> spoilt E (history s) t \<and> Called t \<in> set (history s))
     \<and> (\<forall>t. Called t \<in> set (history s) \<longrightarrow> t \<in> set (working s) \<or> ended (history s) t \<or> t \<in> X)
     \<and> (\<forall>t. ended (history s) t \<longrightarrow> t \<in> set ts)
     \<and> log_ok E outcome (history s)"

lemma ended_snoc [simp]:
  "ended (L @ [Finished t r]) u \<longleftrightarrow> u = t \<or> ended L u" "ended (L @ [Called t]) u \<longleftrightarrow> ended L u" "\<not> ended [] u"
  by (auto simp: ended_def)

lemma spoilt_called [simp]: "spoilt E (L @ [Called t]) u \<longleftrightarrow> spoilt E L u"
  by (simp add: spoilt_def)

lemma waiting_called [simp]: "waiting E (L @ [Called t]) u = waiting E L u"
  by (simp add: waiting_def)

lemma task_at_called [simp]: "task_at E (L @ [Called t]) u = task_at E L u"
  by (simp add: task_at_def)

lemma waiting_finish:
  assumes "\<not> ended L t"
  shows "waiting E L u = waiting E (L @ [Finished t r]) u + count_list (dependents E t) u"
  using assms by (induction E) (auto simp: waiting_def dependents_def)

lemma waiting_0: "waiting E L t = 0 \<longleftrightarrow> (\<forall>(a, b) \<in> set E. b = t \<longrightarrow> ended L a)"
  by (auto simp: waiting_def filter_empty_conv)

lemma waiting_le: "waiting E L t \<le> length E"
  by (simp add: waiting_def)

lemma in_dependents: "u \<in> set (dependents E t) \<longleftrightarrow> (t, u) \<in> set E"
  by (force simp: dependents_def)

lemma spoilt_snoc:
  "spoilt E (L @ [Finished t r]) u \<longleftrightarrow> spoilt E L u \<or> (\<not> r \<and> u \<in> set (dependents E t))"
  by (cases r) (auto simp: spoilt_def in_dependents)

lemma log_ok_snoc: "log_ok E outcome (L @ [e]) \<longleftrightarrow> log_ok E outcome L \<and> entry_ok E outcome L e"
  by (auto simp: log_ok_def nth_append less_Suc_eq)

lemma log_ok_ended_deps: "log_ok E outcome L \<Longrightarrow> ended L u \<Longrightarrow> (a, u) \<in> set E \<Longrightarrow> ended L a"
proof (induction L rule: rev_induct)
  case (snoc e L)
  then show ?case by (cases e) (auto simp: log_ok_snoc)
qed simp

text \<open>A task that waits for nothing is in no vector of a task that has not ended.\<close>

lemma ready_not_dependent: "waiting E L u = 0 \<Longrightarrow> \<not> ended L t \<Longrightarrow> u \<notin> set (dependents E t)"
  by (auto simp: waiting_0 in_dependents)

lemma finish_effect:
  assumes "\<forall>u. tasks w u = task_at E L u" "\<not> ended L t" "waiting E L t = 0" "length E < 2 ^ 32"
  shows "\<exists>w' new. finish t r w = Inr w' \<and> (\<forall>u. tasks w' u = task_at E (L @ [Finished t r]) u)
    \<and> fired w' = fired w @ map (event_of w') new \<and> distinct new
    \<and> set new = {u \<in> set (dependents E t). waiting E (L @ [Finished t r]) u = 0}"
proof -
  let ?L = "L @ [Finished t r]" and ?ds = "dependents E t"
  have ds: "mDependents (tasks w t) = ?ds" using assms by (simp add: task_at_def)
  have c: "mNumThisWaitingOn (tasks w u) = of_nat (waiting E L u)" "waiting E L u < 2 ^ 32" "count_list ?ds u \<le> waiting E L u" for u
    using assms(1,4) waiting_le [of E L u] waiting_finish [OF assms(2), of E u r] by (simp_all add: task_at_def)
  obtain w\<^sub>1 new where loop: "finish_loop r ?ds w = Inr w\<^sub>1"
      "\<And>u. tasks w\<^sub>1 u = (tasks w u)\<lparr>mNumThisWaitingOn := of_nat (waiting E L u - count_list ?ds u),
          mFailure := mFailure (tasks w u) \<or> (\<not> r \<and> u \<in> set ?ds)\<rparr>"
      "fired w\<^sub>1 = fired w @ map (event_of w\<^sub>1) new" "distinct new"
      "set new = {u \<in> set ?ds. waiting E L u = count_list ?ds u}"
    using finish_loop_effect [OF c, where ok = r] by (elim exE conjE) (rule that, auto)
  let ?w = "w\<^sub>1\<lparr>tasks := (tasks w\<^sub>1)(t := (tasks w\<^sub>1 t)\<lparr>mDependents := []\<rparr>)\<rparr>"
  have "tasks ?w u = task_at E ?L u" for u
    using waiting_finish [OF assms(2), of E u r] assms(1)
    by (cases "u = t") (simp_all add: loop(2) task_at_def spoilt_snoc)
  moreover have "event_of ?w = event_of w\<^sub>1" by (simp add: fun_eq_iff event_of_def)
  moreover have "set new = {u \<in> set ?ds. waiting E ?L u = 0}"
    using loop(5) waiting_finish [OF assms(2), of E _ r] by auto
  ultimately show ?thesis
    using loop(1,3,4) ds by (intro exI [of _ ?w] exI [of _ new]) (simp add: finish_def)
qed

lemma finish_keeps:
  assumes inv: "dep_inv E ts outcome {t} s" and len: "length E < 2 ^ 32" and sub: "set E \<subseteq> set ts \<times> set ts"
    and t: "t \<in> set ts" "waiting E (history s) t = 0" "\<not> ended (history s) t" and entry: "entry_ok E outcome (history s) (Finished t r)"
  shows "\<exists>w. finish t r (world s) = Inr w \<and> dep_inv E ts outcome {} (s\<lparr>world := w, history := history s @ [Finished t r]\<rparr>)"
proof -
  let ?L = "history s" and ?L' = "history s @ [Finished t r]" and ?w = "world s"
  have tasks: "\<forall>u. tasks ?w u = task_at E ?L u" using inv by (simp add: dep_inv_def)
  obtain w' new where f: "finish t r ?w = Inr w'" "\<forall>u. tasks w' u = task_at E ?L' u"
      "fired w' = fired ?w @ map (event_of w') new" "distinct new"
      "set new = {u \<in> set (dependents E t). waiting E ?L' u = 0}"
    using finish_effect [OF tasks t(3,2) len, where r = r] by (elim exE conjE) (rule that)
  have ready: "u \<in> event_task ` set (fired ?w) \<union> set (working s) \<longleftrightarrow>
      u \<in> set ts \<and> waiting E ?L u = 0 \<and> \<not> ended ?L u \<and> u \<noteq> t" for u
    using inv by (simp add: dep_inv_def)
  have old: "u \<notin> set (dependents E t) \<and> waiting E ?L' u = waiting E ?L u"
    if "u \<in> event_task ` set (fired ?w) \<union> set (working s)" for u
  proof -
    have "waiting E ?L u = 0" using that unfolding ready by simp
    then have "u \<notin> set (dependents E t)" using t(3) by (rule ready_not_dependent)
    then show ?thesis using waiting_finish [OF t(3), of E u r] by (simp add: count_list_0_iff)
  qed
  have ok: "log_ok E outcome ?L" using inv by (simp add: dep_inv_def)
  have ended_deps: "\<not> ended ?L' u" if "u \<in> set (dependents E t)" for u
    using that ready_not_dependent [OF t(2) t(3)] t(3) log_ok_ended_deps [OF ok, of u t]
    by (auto simp: in_dependents)
  have new: "u \<in> set new \<longleftrightarrow> u \<in> set (dependents E t) \<and> u \<in> set ts \<and> waiting E ?L' u = 0 \<and> \<not> ended ?L' u" for u
    using f(5) sub ended_deps by (auto simp: in_dependents)
  have "u \<in> event_task ` set (fired w') \<union> set (working s) \<longleftrightarrow> u \<in> set ts \<and> waiting E ?L' u = 0 \<and> \<not> ended ?L' u" for u
  proof (cases "u \<in> set (dependents E t)")
    case True
    then have "u \<notin> event_task ` set (fired ?w) \<union> set (working s)" using old by blast
    then show ?thesis using True new [of u] f(3) by (auto simp: image_Un image_image)
  next
    case False
    then have "waiting E ?L' u = waiting E ?L u" using waiting_finish [OF t(3), of E u r] by (simp add: count_list_0_iff)
    then show ?thesis using False new [of u] f(3) ready [of u] by (auto simp: image_Un image_image)
  qed
  moreover have "distinct (map event_task (fired w') @ working s)"
  proof -
    have "set new \<inter> (event_task ` set (fired ?w) \<union> set (working s)) = {}" using old f(5) by blast
    moreover have "distinct (map event_task (fired ?w) @ working s)" using inv by (simp add: dep_inv_def)
    ultimately show ?thesis using f(3,4) by (auto simp: comp_def)
  qed
  moreover have "ev = event_of w' (event_task ev)" if "ev \<in> set (fired w')" for ev
  proof (cases "ev \<in> set (fired ?w)")
    case True
    then have "ev = event_of ?w (event_task ev)" using inv by (simp add: dep_inv_def)
    moreover have "event_task ev \<notin> set (dependents E t)" using True old by blast
    ultimately show ?thesis using tasks f(2) by (simp add: event_of_def task_at_def spoilt_snoc)
  qed (use that f(3) in auto)
  moreover have "\<not> spoilt E ?L' u \<and> Called u \<in> set ?L'" if "u \<in> set (working s)" for u
    using that inv old [of u] by (auto simp: dep_inv_def spoilt_snoc)
  moreover have "u \<in> set (working s) \<or> ended ?L' u" if "Called u \<in> set ?L'" for u
    using that inv by (auto simp: dep_inv_def)
  moreover have "u \<in> set ts" if "ended ?L' u" for u
    using that inv t(1) by (auto simp: dep_inv_def)
  moreover have "log_ok E outcome ?L'" using inv entry by (simp add: dep_inv_def log_ok_snoc)
  ultimately show ?thesis using f(1,2) by (intro exI [of _ w']) (simp add: dep_inv_def)
qed

text \<open>A task that waits for nothing and is not spoilt has seen all its dependencies succeed.\<close>

lemma ready_succeeded:
  "waiting E L t = 0 \<Longrightarrow> \<not> spoilt E L t \<Longrightarrow> (a, t) \<in> set E \<Longrightarrow> Finished a True \<in> set L"
  unfolding waiting_0 spoilt_def ended_def by fast

lemma dep_step_keeps:
  assumes inv: "dep_inv E ts outcome {} s" and len: "length E < 2 ^ 32" and sub: "set E \<subseteq> set ts \<times> set ts"
  shows "\<exists>s'. dep_step outcome ch s = Inr s' \<and> dep_inv E ts outcome {} s'"
proof (cases ch)
  case Dispatch
  show ?thesis
  proof (cases "fired (world s)")
    case Nil
    then show ?thesis using Dispatch inv by simp
  next
    case (Cons ev q)
    let ?t = "event_task ev" and ?s = "s\<lparr>world := (world s)\<lparr>fired := q\<rparr>\<rparr>"
    have t: "?t \<in> set ts" "waiting E (history s) ?t = 0" "\<not> ended (history s) ?t" "?t \<notin> set (working s)"
      using inv Cons by (auto simp: dep_inv_def)
    have uncalled: "Called ?t \<notin> set (history s)" using inv t(3,4) by (auto simp: dep_inv_def)
    have ev: "ev = (if spoilt E (history s) ?t then CallDependencyFailedTask ?t else CallDependencyTask ?t)"
      using inv Cons by (auto simp: dep_inv_def event_of_def task_at_def)
    have "distinct (?t # map event_task q @ working s)" using inv Cons by (simp add: dep_inv_def)
    then have "u \<in> event_task ` set q \<union> set (working s) \<longleftrightarrow>
        u \<in> event_task ` set (fired (world s)) \<union> set (working s) \<and> u \<noteq> ?t" for u
      unfolding Cons by (auto simp: image_iff)
    then have rest: "\<forall>u. u \<in> event_task ` set (fired (world ?s)) \<union> set (working ?s) \<longleftrightarrow>
        u \<in> set ts \<and> waiting E (history ?s) u = 0 \<and> \<not> ended (history ?s) u \<and> u \<notin> {?t}"
      using inv by (simp add: dep_inv_def del: Un_iff)
    have same: "event_of (world ?s) = event_of (world s)" by (simp add: fun_eq_iff event_of_def)
    have mid: "dep_inv E ts outcome {?t} ?s"
      unfolding dep_inv_def
    proof (intro conjI rest)
      show "\<forall>ev \<in> set (fired (world ?s)). ev = event_of (world ?s) (event_task ev)"
        unfolding same using inv Cons by (simp add: dep_inv_def)
    qed (use inv Cons in \<open>auto simp: dep_inv_def simp del: Un_iff\<close>)
    show ?thesis
    proof (cases "spoilt E (history s) ?t")
      case True
      then have "entry_ok E outcome (history ?s) (Finished ?t False)" using t uncalled by (simp add: waiting_0)
      from finish_keeps [OF mid len sub _ _ _ this] t obtain w where
        "finish ?t False (world ?s) = Inr w" "dep_inv E ts outcome {} (?s\<lparr>world := w, history := history s @ [Finished ?t False]\<rparr>)"
        by auto
      moreover have "ev = CallDependencyFailedTask ?t" using ev True by simp
      ultimately show ?thesis using Dispatch Cons by (cases ev) (simp_all add: run_event_def)
    next
      case False
      then have "entry_ok E outcome (history s) (Called ?t)" using t uncalled by (auto intro: ready_succeeded)
      then have "dep_inv E ts outcome {} (?s\<lparr>working := ?t # working s, history := history s @ [Called ?t]\<rparr>)"
        using mid inv t False Cons by (auto simp: dep_inv_def log_ok_snoc event_of_def)
      moreover have "ev = CallDependencyTask ?t" using ev False by simp
      ultimately show ?thesis using Dispatch Cons by (cases ev) (simp_all add: run_event_def)
    qed
  qed
next
  case (Work_done t)
  show ?thesis
  proof (cases "t \<in> set (working s)")
    case True
    let ?s = "s\<lparr>working := remove1 t (working s)\<rparr>"
    have t: "t \<in> set ts" "waiting E (history s) t = 0" "\<not> ended (history s) t" "\<not> spoilt E (history s) t" "Called t \<in> set (history s)"
      using inv True by (auto simp: dep_inv_def)
    have mid: "dep_inv E ts outcome {t} ?s" using inv True by (auto simp: dep_inv_def distinct_remove1 set_remove1_eq)
    have "entry_ok E outcome (history ?s) (Finished t (outcome t))" using t by (simp add: waiting_0)
    from finish_keeps [OF mid len sub _ _ _ this] t(1-3) obtain w where w: "finish t (outcome t) (world s) = Inr w"
        "dep_inv E ts outcome {} (?s\<lparr>world := w, history := history s @ [Finished t (outcome t)]\<rparr>)"
      by auto
    have "s\<lparr>world := w, working := remove1 t (working s), history := history s @ [Finished t (outcome t)]\<rparr>
        = ?s\<lparr>world := w, history := history s @ [Finished t (outcome t)]\<rparr>" by simp
    note w(2) [folded this]
    then show ?thesis using w(1) True Work_done by simp
  qed (use Work_done inv in simp)
qed

lemma dep_steps_keep:
  assumes "dep_inv E ts outcome {} s" "length E < 2 ^ 32" "set E \<subseteq> set ts \<times> set ts"
  shows "\<exists>s'. dep_steps outcome chs s = Inr s' \<and> dep_inv E ts outcome {} s'"
  using assms(1)
proof (induction chs arbitrary: s)
  case (Cons ch chs)
  then obtain s' where "dep_step outcome ch s = Inr s'" "dep_inv E ts outcome {} s'"
    using dep_step_keeps [OF _ assms(2,3)] by blast
  then show ?case using Cons.IH by simp
qed simp

section \<open>The start\<close>

lemma add_dependencies:
  "fold (\<lambda>(a, b). addDepender a b) E \<lparr>tasks = \<lambda>_. new_DependentTask, fired = []\<rparr> = \<lparr>tasks = task_at E [], fired = []\<rparr>"
proof (induction E rule: rev_induct)
  case Nil
  then show ?case by (simp add: fun_eq_iff task_at_def new_DependentTask_def dependents_def waiting_def spoilt_def)
next
  case (snoc e E)
  obtain a b where e: "e = (a, b)" by (cases e)
  show ?case unfolding fold_append comp_def snoc.IH
    by (auto simp: e fun_eq_iff addDepender_def Let_def task_at_def dependents_def waiting_def spoilt_def)
qed

lemma go_all:
  "\<not> (\<exists>t. mFailure (tasks w t)) \<Longrightarrow>
    fold go ts w = w\<lparr>fired := fired w @ map CallDependencyTask (filter (\<lambda>t. mNumThisWaitingOn (tasks w t) = 0) ts)\<rparr>"
  by (induction ts arbitrary: w) (simp_all add: go_def)

lemma dep_start_inv:
  assumes "distinct ts" "length E < 2 ^ 32"
  shows "dep_inv E ts outcome {} (dep_start E ts)"
proof -
  have zero: "of_nat (waiting E [] t) = (0 :: u32) \<longleftrightarrow> waiting E [] t = 0" for t
    using waiting_le [of E "[]" t] assms(2) by (intro of_nat_u32_0) simp
  have unspoilt: "\<not> spoilt E [] t" for t by (auto simp: spoilt_def)
  have "dep_start E ts = \<lparr>world = \<lparr>tasks = task_at E [],
      fired = map CallDependencyTask (filter (\<lambda>t. waiting E [] t = 0) ts)\<rparr>, working = [], history = []\<rparr>"
    unfolding dep_start_def add_dependencies by (subst go_all) (simp_all add: task_at_def zero unspoilt)
  then show ?thesis
    using assms(1)
    by (auto simp: dep_inv_def comp_def event_of_def task_at_def unspoilt log_ok_def image_image)
qed

section \<open>Progress\<close>

definition entry_key :: "dep_log \<Rightarrow> bool \<times> nat" where
  "entry_key e = (case e of Called t \<Rightarrow> (True, t) | Finished t r \<Rightarrow> (False, t))"

lemma log_ok_distinct: "log_ok E outcome L \<Longrightarrow> distinct (map entry_key L)"
proof (induction L rule: rev_induct)
  case (snoc e L)
  then have "entry_ok E outcome L e" "distinct (map entry_key L)" by (simp_all add: log_ok_snoc)
  moreover have "entry_key e \<notin> entry_key ` set L" if "entry_ok E outcome L e"
  proof
    assume "entry_key e \<in> entry_key ` set L"
    then obtain e' where e': "e' \<in> set L" "entry_key e' = entry_key e" by auto
    show False
    proof (cases e)
      case (Called t)
      then have "e' = Called t" using e'(2) by (simp add: entry_key_def split: dep_log.splits)
      then show False using that e'(1) Called by simp
    next
      case (Finished t r)
      then have "e' = Finished t True \<or> e' = Finished t False" using e'(2) by (auto simp: entry_key_def split: dep_log.splits)
      then show False using that e'(1) Finished by (auto simp: ended_def)
    qed
  qed
  ultimately show ?case by simp
qed simp

lemma log_bounded:
  assumes "dep_inv E ts outcome {} s"
  shows "length (history s) \<le> 2 * length ts"
proof -
  have "entry_key e \<in> UNIV \<times> set ts" if "e \<in> set (history s)" for e
  proof (cases e)
    case (Called t)
    then have "t \<in> set (working s) \<or> ended (history s) t" using that assms by (auto simp: dep_inv_def)
    then show ?thesis using assms Called by (auto simp: dep_inv_def entry_key_def)
  next
    case (Finished t r)
    then have "ended (history s) t" using that by (cases r) (auto simp: ended_def)
    then show ?thesis using assms Finished by (auto simp: dep_inv_def entry_key_def)
  qed
  then have "set (map entry_key (history s)) \<subseteq> UNIV \<times> set ts" unfolding set_map by (rule image_subsetI)
  then have "card (set (map entry_key (history s))) \<le> card ((UNIV :: bool set) \<times> set ts)"
    by (intro card_mono) auto
  also have "\<dots> \<le> 2 * length ts" by (simp add: card_cartesian_product card_length)
  finally show ?thesis
    using distinct_card [OF log_ok_distinct, of E outcome "history s"] assms by (simp add: dep_inv_def)
qed

text \<open>In an acyclic graph, tasks that have not ended include one that waits for nothing.\<close>

lemma idle_all_ended:
  assumes inv: "dep_inv E ts outcome {} s" and "idle s" "acyclic (set E)" "set E \<subseteq> set ts \<times> set ts" "t \<in> set ts"
  shows "ended (history s) t"
proof -
  have "wf (set E)" using assms(3) by (simp add: finite_acyclic_wf)
  then show ?thesis using assms(5)
  proof (induction t rule: wf_induct_rule)
    case (less t)
    then have "waiting E (history s) t = 0" using assms(4) by (auto simp: waiting_0)
    moreover have "t \<notin> event_task ` set (fired (world s)) \<union> set (working s)" using \<open>idle s\<close> by (simp add: idle_def)
    ultimately show ?case using inv less.prems unfolding dep_inv_def by (metis empty_iff)
  qed
qed

lemma busy_progress:
  assumes "dep_inv E ts outcome {} s" "length E < 2 ^ 32" "set E \<subseteq> set ts \<times> set ts" "\<not> idle s"
  shows "\<exists>ch s'. dep_step outcome ch s = Inr s' \<and> length (history s') = Suc (length (history s))"
proof (cases "fired (world s)")
  case (Cons ev q)
  obtain s' where "dep_step outcome Dispatch s = Inr s'" using dep_step_keeps [OF assms(1-3)] by blast
  then have "length (history s') = Suc (length (history s))"
    using Cons by (cases ev) (auto simp: run_event_def sum_bind_def split: sum.splits)
  with \<open>dep_step outcome Dispatch s = Inr s'\<close> show ?thesis by blast
next
  case Nil
  then obtain t where t: "t \<in> set (working s)" using assms(4) by (cases "working s") (auto simp: idle_def)
  obtain s' where "dep_step outcome (Work_done t) s = Inr s'" using dep_step_keeps [OF assms(1-3)] by blast
  then have "length (history s') = Suc (length (history s))"
    using t by (auto simp: sum_bind_def split: sum.splits)
  with \<open>dep_step outcome (Work_done t) s = Inr s'\<close> show ?thesis by blast
qed

section \<open>Properties\<close>



end
