(* ===== verification/Download_Requests.thy ===== *)
theory Download_Requests
  imports Uris Transfer_Data "HOL-Library.Multiset"
begin

text \<open>
  Downloads of the transfer manager (\<open>transfer/TransferManager.hpp\<close>, \<open>EventTransferManager.hpp\<close>): a request is
  resolved to a file by the name lookup, its listener is subscribed to the event of the file, and the
  cache layers are asked for the range unless a range under way contains it. The answer erases the ranges it
  covers and fires the event. \<open>cleanup\<close> waits for the requests that are being resolved.

  Calls come from many threads. A thread is an entry of a list of those at the same point of the code;
  a step is one access to shared memory, or a whole critical section of \<open>mMutex\<close>. What the name lookup answers
  is part of a step, what the cache layers answer is the argument \<open>layer\<close>. The calls of the event manager are
  recorded in order; a subscription with the range it is for. A \<open>RemoteFileId\<close> without
  a value, whose hash is not initialised, is the argument \<open>nofile\<close>.
\<close>

section \<open>Events\<close>

datatype Status = SUCCESS | FAIL_UNIMPLEMENTED | FAIL_NAMELOOKUP | FAIL_DOWNLOAD | FAIL_NAMEUPLOAD | FAIL_UPLOAD
  | FAIL_AUTH | FAIL_SHUTDOWN

record DownloadEvent =
  mFileId :: RemoteFileId
  event_data :: sparse_data
  mStatus :: Status

definition DownloadEvent_make :: "Status \<Rightarrow> RemoteFileId \<Rightarrow> sparse_data option \<Rightarrow> DownloadEvent" where
  "DownloadEvent_make stat fileId data =
     \<lparr>mFileId = fileId, event_data = (case data of Some d \<Rightarrow> d | None \<Rightarrow> []), mStatus = stat\<rparr>"

definition download_idPair :: "RemoteFileId \<Rightarrow> string \<times> string" where
  "download_idPair fileId = (''DownloadFinished'', convertToHexString (mHash fileId))"

definition event_success :: "DownloadEvent \<Rightarrow> bool" where
  "event_success ev \<longleftrightarrow> mStatus ev = SUCCESS"

section \<open>The manager\<close>

datatype em_call = Subscribe "string \<times> string" nat range | Fire DownloadEvent

datatype cleanup_pc = Not_called | Reading | About_to_wait | Waiting | Woken | Returned

datatype manager_error = Null_dereference

text \<open>
  The map from fingerprints to ranges under way gives the group of a fingerprint. A pointer is whether it
  is not null. The lists are threads: in a name lookup, before \<open>downloadNameLookupSuccess\<close>, before \<open>getData\<close>, in
  \<open>getData\<close>, before \<open>fire\<close>; the numbers those before \<open>--mPendingCleanup\<close> and before the test of \<open>mCleanup\<close>
  after it.
\<close>

record etm =
  mActiveTransfers :: "digest \<Rightarrow> range list"
  mNameLookup :: bool
  mFirstTransferLayer :: bool
  mCleanup :: bool
  mPendingCleanup :: int
  cleanup_at :: cleanup_pc
  lookups :: "(nat \<times> range \<times> URI) list"
  entering :: "(nat \<times> range \<times> RemoteFileId option) list"
  gets_due :: "(RemoteFileId \<times> range) list"
  gets :: "(RemoteFileId \<times> range) list"
  fires :: "DownloadEvent list"
  decs :: nat
  checks :: nat
  em_calls :: "em_call list"
  told :: "(nat \<times> DownloadEvent) list"

definition EventTransferManager_init :: etm where
  "EventTransferManager_init =
     \<lparr>mActiveTransfers = \<lambda>_. [], mNameLookup = True, mFirstTransferLayer = True, mCleanup = False, mPendingCleanup = 0,
      cleanup_at = Not_called, lookups = [], entering = [], gets_due = [], gets = [], fires = [], decs = 0, checks = 0,
      em_calls = [], told = []\<rparr>"

text \<open>\<open>mMutex\<close> is held between steps by \<open>cleanup\<close> only.\<close>

definition lock_free :: "etm \<Rightarrow> bool" where
  "lock_free s \<longleftrightarrow> cleanup_at s \<noteq> Reading \<and> cleanup_at s \<noteq> About_to_wait"

text \<open>\<open>notify_one\<close> wakes a thread that is waiting, or nobody.\<close>

definition notify_one :: "etm \<Rightarrow> etm" where
  "notify_one s = (if cleanup_at s = Waiting then s\<lparr>cleanup_at := Woken\<rparr> else s)"

section \<open>Downloads\<close>

text \<open>Which ranges of the group an answer erases.\<close>

definition erased_by :: "range \<Rightarrow> sparse_data option \<Rightarrow> range \<Rightarrow> bool" where
  "erased_by rng downloadedData r =
     (case downloadedData of Some d \<Rightarrow> isContainedBy_list r d | None \<Rightarrow> range_eq r rng)"

fun erase_loop :: "range \<Rightarrow> sparse_data option \<Rightarrow> range list \<Rightarrow> range list" where
  "erase_loop rng downloadedData [] = []"
| "erase_loop rng downloadedData (r # rs) =
     (if erased_by rng downloadedData r then erase_loop rng downloadedData rs
      else r # erase_loop rng downloadedData rs)"

text \<open>\<open>downloadFinished\<close> up to \<open>fire\<close>: \<open>found\<close> is initialised to true, so that the event is always fired.\<close>

definition downloadFinished :: "RemoteFileId \<Rightarrow> range \<Rightarrow> sparse_data option \<Rightarrow> etm \<Rightarrow> etm" where
  "downloadFinished remoteid rng downloadedData s =
     (let fp = mHash remoteid;
          stat = (case downloadedData of Some _ \<Rightarrow> SUCCESS | None \<Rightarrow> FAIL_DOWNLOAD)
      in s\<lparr>mActiveTransfers := (mActiveTransfers s)(fp := erase_loop rng downloadedData (mActiveTransfers s fp)),
           fires := fires s @ [DownloadEvent_make stat remoteid downloadedData]\<rparr>)"

fun find_active :: "range \<Rightarrow> range list \<Rightarrow> bool" where
  "find_active rng [] = False"
| "find_active rng (r # rs) = (if isContainedBy rng r then True else find_active rng rs)"

text \<open>\<open>downloadNameLookupSuccess\<close> up to the call of \<open>getData\<close>, or to the last decrement where there is no such call.\<close>

definition downloadNameLookupSuccess :: "RemoteFileId \<Rightarrow> nat \<Rightarrow> range \<Rightarrow> RemoteFileId option \<Rightarrow> etm \<Rightarrow> etm" where
  "downloadNameLookupSuccess nofile listener rng remoteid s =
     (case remoteid of
        None \<Rightarrow> s\<lparr>told := told s @ [(listener, DownloadEvent_make FAIL_NAMELOOKUP nofile None)], decs := decs s + 1\<rparr>
      | Some rfid \<Rightarrow>
          if mCleanup s
          then let s = s\<lparr>told := told s @ [(listener, DownloadEvent_make FAIL_SHUTDOWN rfid None)],
                         mPendingCleanup := mPendingCleanup s - 1\<rparr>
               in if mPendingCleanup s = 0 \<and> mCleanup s then notify_one s else s
          else let found = find_active rng (mActiveTransfers s (mHash rfid));
                   s = s\<lparr>em_calls := em_calls s @ [Subscribe (download_idPair rfid) listener rng]\<rparr>
               in if \<not> found
                  then s\<lparr>mActiveTransfers := (mActiveTransfers s)
                             (mHash rfid := mActiveTransfers s (mHash rfid) @ [rng]),
                         gets_due := gets_due s @ [(rfid, rng)]\<rparr>
                  else s\<lparr>decs := decs s + 1\<rparr>)"

definition download :: "URI \<Rightarrow> nat \<Rightarrow> range \<Rightarrow> etm \<Rightarrow> manager_error + etm" where
  "download name listener rng s =
     (let s = s\<lparr>mPendingCleanup := mPendingCleanup s + 1\<rparr> in
      if mNameLookup s then Inr (s\<lparr>lookups := lookups s @ [(listener, rng, name)]\<rparr>) else Inl Null_dereference)"

definition downloadByHash :: "RemoteFileId \<Rightarrow> nat \<Rightarrow> range \<Rightarrow> etm \<Rightarrow> etm" where
  "downloadByHash name listener rng s =
     s\<lparr>mPendingCleanup := mPendingCleanup s + 1, entering := entering s @ [(listener, rng, Some name)]\<rparr>"

section \<open>Clean up\<close>

definition begin_cleanup :: "etm \<Rightarrow> etm" where
  "begin_cleanup s = s\<lparr>mCleanup := True, mNameLookup := False, mFirstTransferLayer := False, cleanup_at := Reading\<rparr>"

fun cleanup_step :: "cleanup_pc \<Rightarrow> etm \<Rightarrow> etm" where
  "cleanup_step Not_called s = begin_cleanup s"
| "cleanup_step Reading s = s\<lparr>cleanup_at := if mPendingCleanup s \<noteq> 0 then About_to_wait else Returned\<rparr>"
| "cleanup_step About_to_wait s = s\<lparr>cleanup_at := Waiting\<rparr>"
| "cleanup_step Waiting s = s"
| "cleanup_step Woken s = s\<lparr>cleanup_at := Reading\<rparr>"
| "cleanup_step Returned s = s"

section \<open>Runs\<close>

text \<open>\<open>Layer_answer k n\<close>: the \<open>k\<close>th call of \<open>getData\<close> is answered; \<open>n\<close> tells answers at different times apart.\<close>

datatype dl_choice = Download URI nat range | Download_by_hash RemoteFileId nat range
  | Lookup_answer nat "RemoteFileId option" | Enter nat | Call_get nat | Decrement | Check
  | Layer_answer nat nat | Fire_event nat | Cleanup_step

type_synonym layer = "nat \<Rightarrow> RemoteFileId \<Rightarrow> range \<Rightarrow> sparse_data option"

definition remove_nth :: "nat \<Rightarrow> 'a list \<Rightarrow> 'a list" where
  "remove_nth k xs = take k xs @ drop (Suc k) xs"

fun dl_step :: "RemoteFileId \<Rightarrow> layer \<Rightarrow> dl_choice \<Rightarrow> etm \<Rightarrow> manager_error + etm" where
  "dl_step nofile layer (Download name l r) s = download name l r s"
| "dl_step nofile layer (Download_by_hash rfid l r) s = Inr (downloadByHash rfid l r s)"
| "dl_step nofile layer (Lookup_answer k ans) s =
     Inr (if k < length (lookups s)
          then case lookups s ! k of (l, r, name) \<Rightarrow>
            s\<lparr>lookups := remove_nth k (lookups s), entering := entering s @ [(l, r, ans)]\<rparr>
          else s)"
| "dl_step nofile layer (Enter k) s =
     Inr (if k < length (entering s)
          then case entering s ! k of (l, r, rfid) \<Rightarrow>
            if rfid = None \<or> lock_free s
            then downloadNameLookupSuccess nofile l r rfid (s\<lparr>entering := remove_nth k (entering s)\<rparr>) else s
          else s)"
| "dl_step nofile layer (Call_get k) s =
     Inr (if k < length (gets_due s)
          then s\<lparr>gets_due := remove_nth k (gets_due s), gets := gets s @ [gets_due s ! k], decs := decs s + 1\<rparr> else s)"
| "dl_step nofile layer Decrement s =
     Inr (if decs s > 0
          then let s = s\<lparr>decs := decs s - 1, mPendingCleanup := mPendingCleanup s - 1\<rparr>
               in if mPendingCleanup s = 0 then s\<lparr>checks := checks s + 1\<rparr> else s
          else s)"
| "dl_step nofile layer Check s =
     Inr (if checks s > 0
          then let s = s\<lparr>checks := checks s - 1\<rparr> in if mCleanup s then notify_one s else s
          else s)"
| "dl_step nofile layer (Layer_answer k n) s =
     Inr (if k < length (gets s) \<and> lock_free s
          then case gets s ! k of (rfid, r) \<Rightarrow>
            downloadFinished rfid r (layer n rfid r) (s\<lparr>gets := remove_nth k (gets s)\<rparr>)
          else s)"
| "dl_step nofile layer (Fire_event k) s =
     Inr (if k < length (fires s)
          then s\<lparr>fires := remove_nth k (fires s), em_calls := em_calls s @ [Fire (fires s ! k)]\<rparr> else s)"
| "dl_step nofile layer Cleanup_step s = Inr (cleanup_step (cleanup_at s) s)"

fun dl_steps :: "RemoteFileId \<Rightarrow> layer \<Rightarrow> dl_choice list \<Rightarrow> etm \<Rightarrow> manager_error + etm" where
  "dl_steps nofile layer [] s = Inr s"
| "dl_steps nofile layer (ch # chs) s = sum_bind (dl_step nofile layer ch s) (dl_steps nofile layer chs)"

text \<open>What \<open>getData\<close> promises: data it delivers contain the range asked for.\<close>

definition layer_delivers :: "layer \<Rightarrow> bool" where
  "layer_delivers layer \<longleftrightarrow> (\<forall>n rfid r d. layer n rfid r = Some d \<longrightarrow> isContainedBy_list r d)"

section \<open>Who still waits\<close>

text \<open>An event answers a request when it reports a failure or brings all bytes asked for.\<close>

definition answers_request :: "DownloadEvent \<Rightarrow> range \<Rightarrow> bool" where
  "answers_request ev r \<longleftrightarrow> \<not> event_success ev \<or> (\<forall>b. in_range r b \<longrightarrow> covered (event_data ev) b)"

fun wait_step :: "em_call \<Rightarrow> ((string \<times> string) \<times> nat \<times> range) set \<Rightarrow> ((string \<times> string) \<times> nat \<times> range) set" where
  "wait_step (Subscribe pair l r) W = insert (pair, l, r) W"
| "wait_step (Fire ev) W = W - {(pair, l, r). pair = download_idPair (mFileId ev) \<and> answers_request ev r}"

text \<open>The subscriptions that no later event has answered.\<close>

definition unanswered :: "em_call list \<Rightarrow> ((string \<times> string) \<times> nat \<times> range) set" where
  "unanswered cs = fold wait_step cs {}"

fun subscriber :: "em_call \<Rightarrow> nat list" where
  "subscriber (Subscribe pair l r) = [l]"
| "subscriber (Fire ev) = []"

text \<open>The listeners of a manager: on their way, told directly, or subscribed.\<close>

definition listeners_of :: "etm \<Rightarrow> nat multiset" where
  "listeners_of s = mset (map fst (lookups s)) + mset (map fst (entering s)) + mset (map fst (told s))
     + mset (concat (map subscriber (em_calls s)))"

fun requested :: "dl_choice \<Rightarrow> nat list" where
  "requested (Download name l r) = [l]"
| "requested (Download_by_hash rfid l r) = [l]"
| "requested _ = []"

definition all_quiet :: "etm \<Rightarrow> bool" where
  "all_quiet s \<longleftrightarrow> lookups s = [] \<and> entering s = [] \<and> gets_due s = [] \<and> gets s = [] \<and> fires s = []"

section \<open>Helpers\<close>

lemma remove_nth_mset: "k < length xs \<Longrightarrow> mset xs = add_mset (xs ! k) (mset (remove_nth k xs))"
  by (subst id_take_nth_drop) (simp_all add: remove_nth_def)

lemma remove_nth_set: "k < length xs \<Longrightarrow> set xs = insert (xs ! k) (set (remove_nth k xs))"
  using remove_nth_mset [of k xs] by (metis set_mset_add_mset_insert set_mset_mset)

lemma remove_nth_length: "k < length xs \<Longrightarrow> length xs = Suc (length (remove_nth k xs))"
  by (simp add: remove_nth_def)

lemma remove_nth_map_mset: "k < length xs \<Longrightarrow> mset (map f xs) = add_mset (f (xs ! k)) (mset (map f (remove_nth k xs)))"
  using remove_nth_mset [of k xs] by simp

lemmas remove_nth_simps = remove_nth_set remove_nth_length remove_nth_map_mset

lemma find_active_iff: "find_active r rs \<longleftrightarrow> (\<exists>r' \<in> set rs. isContainedBy r r')"
  by (induction rs) auto

lemma erase_loop_set: "set (erase_loop r d rs) = {r' \<in> set rs. \<not> erased_by r d r'}"
  by (induction rs) auto

lemma isContainedBy_refl: "isContainedBy r r"
  by (simp add: isContainedBy_def contains_def)

lemma isContainedBy_bytes: "isContainedBy r r' \<Longrightarrow> in_range r b \<Longrightarrow> in_range r' b"
  by (auto simp: isContainedBy_def contains_def in_range_def split: if_splits)

lemma isContainedBy_list_bytes: "isContainedBy_list r d \<Longrightarrow> in_range r b \<Longrightarrow> covered d b"
  unfolding isContainedBy_list_def by (rule contained_search_sound)

lemma range_eq_same: "range_eq r (r' :: range) \<Longrightarrow> r = r'"
  by (simp add: range_eq_def)

lemma unanswered_snoc: "unanswered (cs @ [c]) = wait_step c (unanswered cs)"
  by (simp add: unanswered_def)

lemma download_idPair_hash: "mHash a = mHash b \<Longrightarrow> download_idPair a = download_idPair b"
  by (simp add: download_idPair_def)

section \<open>The invariant\<close>

text \<open>A call of the cache layers for the range of a file is to come or under way.\<close>

definition asked_for :: "digest \<Rightarrow> range \<Rightarrow> etm \<Rightarrow> bool" where
  "asked_for fp r s \<longleftrightarrow> (\<exists>rfid. mHash rfid = fp \<and> (rfid, r) \<in> set (gets_due s) \<union> set (gets s))"

definition active_ok :: "etm \<Rightarrow> bool" where
  "active_ok s \<longleftrightarrow> (\<forall>fp. \<forall>r \<in> set (mActiveTransfers s fp). asked_for fp r s)"

text \<open>A request will be answered by an event about to be fired, or by one of the ranges under way.\<close>

definition promised :: "etm \<Rightarrow> (string \<times> string) \<times> nat \<times> range \<Rightarrow> bool" where
  "promised s = (\<lambda>(pair, l, r).
     (\<exists>ev \<in> set (fires s). download_idPair (mFileId ev) = pair \<and> answers_request ev r)
     \<or> (\<exists>rfid. download_idPair rfid = pair \<and> (\<exists>r' \<in> set (mActiveTransfers s (mHash rfid)). isContainedBy r r')))"

definition waiters_ok :: "etm \<Rightarrow> bool" where
  "waiters_ok s \<longleftrightarrow> (\<forall>w \<in> unanswered (em_calls s). promised s w)"

definition count_ok :: "etm \<Rightarrow> bool" where
  "count_ok s \<longleftrightarrow> mPendingCleanup s = int (length (lookups s) + length (entering s) + length (gets_due s) + decs s)
     \<and> (mNameLookup s \<longleftrightarrow> cleanup_at s = Not_called) \<and> (mCleanup s \<longleftrightarrow> cleanup_at s \<noteq> Not_called)
     \<and> (cleanup_at s = Returned \<longrightarrow> lookups s = [] \<and> gets_due s = [])
     \<and> (\<forall>(l, ev) \<in> set (told s). \<not> event_success ev)"

lemma notify_one_fields [simp]:
  "mActiveTransfers (notify_one s) = mActiveTransfers s" "fires (notify_one s) = fires s" "em_calls (notify_one s) = em_calls s"
  "gets_due (notify_one s) = gets_due s" "gets (notify_one s) = gets s" "lookups (notify_one s) = lookups s"
  "entering (notify_one s) = entering s" "decs (notify_one s) = decs s" "mPendingCleanup (notify_one s) = mPendingCleanup s"
  "mNameLookup (notify_one s) = mNameLookup s" "mCleanup (notify_one s) = mCleanup s" "told (notify_one s) = told s"
  "cleanup_at (notify_one s) = (if cleanup_at s = Waiting then Woken else cleanup_at s)"
  by (simp_all add: notify_one_def)

text \<open>What the conditions depend on.\<close>

lemma active_ok_cong:
  "mActiveTransfers s' = mActiveTransfers s \<Longrightarrow> set (gets_due s) \<union> set (gets s) \<subseteq> set (gets_due s') \<union> set (gets s') \<Longrightarrow>
    active_ok s \<Longrightarrow> active_ok s'"
  unfolding active_ok_def asked_for_def by (metis subsetD)

lemma waiters_ok_cong:
  "mActiveTransfers s' = mActiveTransfers s \<Longrightarrow> fires s' = fires s \<Longrightarrow> em_calls s' = em_calls s \<Longrightarrow>
    waiters_ok s \<Longrightarrow> waiters_ok s'"
  by (simp add: waiters_ok_def promised_def)

lemma subscribe_keeps:
  assumes "active_ok s" "waiters_ok s" "\<not> mCleanup s"
  shows "active_ok (downloadNameLookupSuccess nofile l r (Some rfid) s)
    \<and> waiters_ok (downloadNameLookupSuccess nofile l r (Some rfid) s)"
proof (cases "find_active r (mActiveTransfers s (mHash rfid))")
  case True
  then have "promised s (download_idPair rfid, l, r)" by (auto simp: promised_def find_active_iff)
  then show ?thesis
    using assms True
    by (auto simp: downloadNameLookupSuccess_def active_ok_def asked_for_def waiters_ok_def unanswered_snoc promised_def)
next
  case False
  let ?s = "downloadNameLookupSuccess nofile l r (Some rfid) s"
  have s': "?s = s\<lparr>em_calls := em_calls s @ [Subscribe (download_idPair rfid) l r],
      mActiveTransfers := (mActiveTransfers s)(mHash rfid := mActiveTransfers s (mHash rfid) @ [r]),
      gets_due := gets_due s @ [(rfid, r)]\<rparr>"
    using assms(3) False by (simp add: downloadNameLookupSuccess_def)
  have "promised ?s w" if "promised s w" for w
    using that by (auto simp: s' promised_def split: if_splits)
  moreover have "promised ?s (download_idPair rfid, l, r)"
    using isContainedBy_refl by (auto simp: s' promised_def)
  moreover have "asked_for fp r' ?s" if "r' \<in> set (mActiveTransfers ?s fp)" for fp r'
    using that assms(1) by (auto simp: s' active_ok_def asked_for_def split: if_splits)
  ultimately show ?thesis using assms(2) by (auto simp: waiters_ok_def active_ok_def unanswered_snoc s')
qed

lemma finished_keeps:
  assumes ok: "active_ok s" "waiters_ok s" and k: "k < length (gets s)" "gets s ! k = (rfid, r)"
    and data: "\<And>d. data = Some d \<Longrightarrow> isContainedBy_list r d"
  shows "active_ok (downloadFinished rfid r data (s\<lparr>gets := remove_nth k (gets s)\<rparr>))
    \<and> waiters_ok (downloadFinished rfid r data (s\<lparr>gets := remove_nth k (gets s)\<rparr>))" (is "active_ok ?s \<and> waiters_ok ?s")
proof -
  let ?ev = "DownloadEvent_make (case data of Some _ \<Rightarrow> SUCCESS | None \<Rightarrow> FAIL_DOWNLOAD) rfid data"
  have own: "erased_by r data r" using data by (auto simp: erased_by_def range_eq_def split: option.split)
  have active: "r' \<in> set (mActiveTransfers ?s fp) \<longleftrightarrow>
      r' \<in> set (mActiveTransfers s fp) \<and> \<not> (fp = mHash rfid \<and> erased_by r data r')" for r' fp
    by (auto simp: downloadFinished_def Let_def erase_loop_set)
  have "asked_for fp r' ?s" if r': "r' \<in> set (mActiveTransfers ?s fp)" for fp r'
  proof -
    obtain f where f: "mHash f = fp" "(f, r') \<in> set (gets_due s) \<union> set (gets s)"
      using ok(1) r' unfolding active active_ok_def asked_for_def by blast
    have "(f, r') \<noteq> (rfid, r)" using r' active own f(1) by auto
    then show ?thesis using f remove_nth_set [OF k(1)] k(2)
      by (auto simp: asked_for_def downloadFinished_def Let_def)
  qed
  moreover have "promised ?s (pair, l, q)" if p: "promised s (pair, l, q)" for pair l q
  proof (cases "\<exists>ev \<in> set (fires s). download_idPair (mFileId ev) = pair \<and> answers_request ev q")
    case True
    then show ?thesis by (auto simp: promised_def downloadFinished_def Let_def)
  next
    case False
    then obtain f r' where f: "download_idPair f = pair" "r' \<in> set (mActiveTransfers s (mHash f))" "isContainedBy q r'"
      using p by (auto simp: promised_def)
    show ?thesis
    proof (cases "mHash f = mHash rfid \<and> erased_by r data r'")
      case True
      then have "answers_request ?ev q"
        using isContainedBy_bytes [OF f(3)] isContainedBy_list_bytes [of r']
        by (auto simp: answers_request_def event_success_def DownloadEvent_make_def erased_by_def split: option.splits)
      moreover have "download_idPair (mFileId ?ev) = pair"
        using True f(1) download_idPair_hash [of f rfid] by (simp add: DownloadEvent_make_def)
      ultimately show ?thesis by (auto simp: promised_def downloadFinished_def Let_def)
    next
      case False
      then show ?thesis using f active by (auto simp: promised_def)
    qed
  qed
  ultimately show ?thesis
    using ok(2) by (auto simp: active_ok_def waiters_ok_def downloadFinished_def Let_def)
qed

lemma fire_keeps:
  assumes "waiters_ok s" "k < length (fires s)"
  shows "waiters_ok (s\<lparr>fires := remove_nth k (fires s), em_calls := em_calls s @ [Fire (fires s ! k)]\<rparr>)"
  using assms remove_nth_set [OF assms(2)]
  by (auto simp: waiters_ok_def unanswered_snoc promised_def)

definition dl_inv :: "etm \<Rightarrow> bool" where
  "dl_inv s \<longleftrightarrow> active_ok s \<and> waiters_ok s \<and> count_ok s"

lemma enter_keeps:
  assumes "dl_inv s" "k < length (entering s)" "entering s ! k = (l, r, rfid)" "rfid = None \<or> lock_free s"
    and "s' = downloadNameLookupSuccess nofile l r rfid (s\<lparr>entering := remove_nth k (entering s)\<rparr>)"
  shows "dl_inv s' \<and> listeners_of s' = listeners_of s"
proof -
  let ?s = "s\<lparr>entering := remove_nth k (entering s)\<rparr>"
  note len = remove_nth_length [OF assms(2)] and ms = remove_nth_map_mset [OF assms(2), of fst]
  have ok: "active_ok ?s" "waiters_ok ?s" "count_ok s"
    using assms(1) by (auto simp: dl_inv_def intro: active_ok_cong waiters_ok_cong)
  have counts: "count_ok s' \<and> listeners_of s' = listeners_of s"
    using ok(3) len ms assms(3,4)
    by (auto simp: assms(5) downloadNameLookupSuccess_def count_ok_def listeners_of_def Let_def lock_free_def
        DownloadEvent_make_def event_success_def split: option.split)
  have "active_ok s' \<and> waiters_ok s'"
  proof (cases "rfid = None \<or> mCleanup s")
    case True
    then have same: "mActiveTransfers s' = mActiveTransfers ?s" "gets s' = gets ?s" "gets_due s' = gets_due ?s"
        "fires s' = fires ?s" "em_calls s' = em_calls ?s"
      by (auto simp: assms(5) downloadNameLookupSuccess_def Let_def split: option.split)
    then show ?thesis using ok(1,2) active_ok_cong [of s' ?s] waiters_ok_cong [of s' ?s] by simp
  next
    case False
    then show ?thesis using subscribe_keeps [OF ok(1,2)] assms(5) by auto
  qed
  with counts show ?thesis by (simp add: dl_inv_def)
qed

lemma count_zero: "count_ok s \<Longrightarrow> mPendingCleanup s = 0 \<Longrightarrow> lookups s = [] \<and> entering s = [] \<and> gets_due s = [] \<and> decs s = 0"
  unfolding count_ok_def by (metis add_is_0 length_0_conv of_nat_eq_0_iff)

lemma cleanup_step_keeps:
  assumes "dl_inv s"
  shows "dl_inv (cleanup_step (cleanup_at s) s) \<and> listeners_of (cleanup_step (cleanup_at s) s) = listeners_of s"
proof -
  let ?s = "cleanup_step (cleanup_at s) s"
  have same: "mActiveTransfers ?s = mActiveTransfers s" "gets ?s = gets s" "gets_due ?s = gets_due s"
      "fires ?s = fires s" "em_calls ?s = em_calls s" "listeners_of ?s = listeners_of s"
    by (cases "cleanup_at s"; simp add: begin_cleanup_def listeners_of_def)+
  have ok: "count_ok s" using assms by (simp add: dl_inv_def)
  have "count_ok ?s"
  proof (cases "cleanup_at s = Reading \<and> mPendingCleanup s = 0")
    case True
    then have "lookups s = []" "gets_due s = []" using count_zero [OF ok] by simp_all
    with True ok show ?thesis by (simp add: count_ok_def)
  next
    case False
    with ok show ?thesis by (cases "cleanup_at s") (simp_all add: count_ok_def begin_cleanup_def)
  qed
  then show ?thesis
    using assms same active_ok_cong [of ?s s] waiters_ok_cong [of ?s s] by (simp add: dl_inv_def)
qed

text \<open>Steps that change neither the ranges under way nor the calls of the event manager.\<close>

lemma bookkeeping_keeps:
  assumes "dl_inv s" "mActiveTransfers s' = mActiveTransfers s" "fires s' = fires s" "em_calls s' = em_calls s"
    and "set (gets_due s) \<union> set (gets s) \<subseteq> set (gets_due s') \<union> set (gets s')" "count_ok s'"
  shows "dl_inv s'"
  using assms(1,6) active_ok_cong [OF assms(2,5)] waiters_ok_cong [OF assms(2-4)] by (simp add: dl_inv_def)

lemma request_keeps:
  assumes "dl_inv s" "dl_step nofile layer ch s = Inr s'" "ch = Download name l r \<or> ch = Download_by_hash rfid l r"
  shows "dl_inv s' \<and> listeners_of s' = listeners_of s + mset (requested ch)"
  using assms(3)
proof
  assume ch: "ch = Download name l r"
  then have s': "s' = s\<lparr>mPendingCleanup := mPendingCleanup s + 1, lookups := lookups s @ [(l, r, name)]\<rparr>" "mNameLookup s"
    using assms(2) by (auto simp: download_def Let_def split: if_splits)
  have "count_ok s'" using assms(1) s'(2) by (simp add: s'(1) dl_inv_def count_ok_def)
  then have "dl_inv s'" by (intro bookkeeping_keeps [OF assms(1)]) (simp_all add: s'(1))
  then show ?thesis by (simp add: s'(1) ch listeners_of_def)
next
  assume ch: "ch = Download_by_hash rfid l r"
  then have s': "s' = downloadByHash rfid l r s" using assms(2) by simp
  have "count_ok s'" using assms(1) by (simp add: s' downloadByHash_def dl_inv_def count_ok_def)
  then have "dl_inv s'" by (intro bookkeeping_keeps [OF assms(1)]) (simp_all add: s' downloadByHash_def)
  then show ?thesis by (simp add: s' downloadByHash_def ch listeners_of_def)
qed

lemma lookup_answer_keeps:
  assumes "dl_inv s" "k < length (lookups s)" "lookups s ! k = (l, r, name)"
  shows "dl_inv (s\<lparr>lookups := remove_nth k (lookups s), entering := entering s @ [(l, r, ans)]\<rparr>)
    \<and> listeners_of (s\<lparr>lookups := remove_nth k (lookups s), entering := entering s @ [(l, r, ans)]\<rparr>) = listeners_of s"
    (is "dl_inv ?s \<and> _")
proof -
  have "lookups s \<noteq> []" using assms(2) by auto
  then have "count_ok ?s"
    using assms(1) remove_nth_length [OF assms(2)] by (auto simp: dl_inv_def count_ok_def)
  then have "dl_inv ?s" by (intro bookkeeping_keeps [OF assms(1)]) simp_all
  then show ?thesis using remove_nth_map_mset [OF assms(2), of fst] assms(3) by (simp add: listeners_of_def)
qed

lemma call_get_keeps:
  assumes "dl_inv s" "k < length (gets_due s)"
  shows "dl_inv (s\<lparr>gets_due := remove_nth k (gets_due s), gets := gets s @ [gets_due s ! k], decs := decs s + 1\<rparr>)"
    (is "dl_inv ?s")
proof -
  have "gets_due s \<noteq> []" using assms(2) by auto
  then have "count_ok ?s" using assms(1) remove_nth_length [OF assms(2)] by (auto simp: dl_inv_def count_ok_def)
  then show ?thesis using remove_nth_set [OF assms(2)] by (intro bookkeeping_keeps [OF assms(1)]) auto
qed

lemma decrement_keeps:
  assumes "dl_inv s" "0 < decs s"
    and "s' = s\<lparr>decs := decs s - 1, mPendingCleanup := mPendingCleanup s - 1\<rparr>"
  shows "dl_inv s' \<and> listeners_of s' = listeners_of s"
proof -
  have "count_ok s'" using assms(1,2) by (simp add: assms(3) dl_inv_def count_ok_def)
  then have "dl_inv s'" by (intro bookkeeping_keeps [OF assms(1)]) (simp_all add: assms(3))
  then show ?thesis by (simp add: assms(3) listeners_of_def)
qed

lemma check_keeps:
  assumes "dl_inv s" "s' = s\<lparr>checks := n\<rparr>"
  shows "dl_inv s' \<and> listeners_of s' = listeners_of s
    \<and> dl_inv (notify_one s') \<and> listeners_of (notify_one s') = listeners_of s"
proof -
  have "count_ok s'" using assms(1) by (simp add: assms(2) dl_inv_def count_ok_def)
  then have inv: "dl_inv s'" by (intro bookkeeping_keeps [OF assms(1)]) (simp_all add: assms(2))
  moreover have "count_ok (notify_one s')" using \<open>count_ok s'\<close> by (auto simp: count_ok_def)
  then have "dl_inv (notify_one s')" by (intro bookkeeping_keeps [OF inv]) simp_all
  ultimately show ?thesis by (simp add: assms(2) listeners_of_def)
qed

lemma dl_step_keeps:
  assumes "dl_inv s" "layer_delivers layer" "dl_step nofile layer ch s = Inr s'"
  shows "dl_inv s' \<and> listeners_of s' = listeners_of s + mset (requested ch)"
proof (cases ch)
  case (Enter k)
  obtain l r rfid where e: "entering s ! k = (l, r, rfid)" by (cases "entering s ! k") auto
  show ?thesis
  proof (cases "k < length (entering s) \<and> (rfid = None \<or> lock_free s)")
    case True
    then have "s' = downloadNameLookupSuccess nofile l r rfid (s\<lparr>entering := remove_nth k (entering s)\<rparr>)"
      using assms(3) Enter e by simp
    with enter_keeps [OF assms(1) _ e] True Enter show ?thesis by simp
  next
    case False
    then have "s' = s" using assms(3) Enter e by (simp split: if_splits)
    with assms(1) Enter show ?thesis by simp
  qed
next
  case (Layer_answer k n)
  show ?thesis
  proof (cases "k < length (gets s) \<and> lock_free s")
    case True
    obtain rfid r where g: "gets s ! k = (rfid, r)" by fastforce
    have s': "s' = downloadFinished rfid r (layer n rfid r) (s\<lparr>gets := remove_nth k (gets s)\<rparr>)"
      using assms(3) Layer_answer True g by simp
    have "isContainedBy_list r d" if "layer n rfid r = Some d" for d
      using assms(2) that by (simp add: layer_delivers_def)
    then have "active_ok s' \<and> waiters_ok s'"
      unfolding s' using assms(1) True g by (intro finished_keeps) (auto simp: dl_inv_def)
    moreover have "count_ok s' \<and> listeners_of s' = listeners_of s"
      using assms(1) by (simp add: s' dl_inv_def count_ok_def listeners_of_def downloadFinished_def Let_def)
    ultimately show ?thesis using Layer_answer by (simp add: dl_inv_def)
  qed (use assms Layer_answer in auto)
next
  case (Fire_event k)
  show ?thesis
  proof (cases "k < length (fires s)")
    case True
    then have s': "s' = s\<lparr>fires := remove_nth k (fires s), em_calls := em_calls s @ [Fire (fires s ! k)]\<rparr>"
      using assms(3) Fire_event by simp
    have "active_ok s'" using assms(1) active_ok_cong [of s' s] by (simp add: s' dl_inv_def)
    moreover have "waiters_ok s'" using assms(1) fire_keeps [OF _ True] by (simp add: s' dl_inv_def)
    moreover have "count_ok s' \<and> listeners_of s' = listeners_of s"
      using assms(1) by (simp add: s' dl_inv_def count_ok_def listeners_of_def)
    ultimately show ?thesis using Fire_event by (simp add: dl_inv_def)
  qed (use assms Fire_event in auto)
next
  case Cleanup_step
  then show ?thesis using assms cleanup_step_keeps [OF assms(1)] by auto
next
  case (Lookup_answer k ans)
  then show ?thesis
    using assms(1,3) lookup_answer_keeps [OF assms(1), of k] by (auto split: if_splits prod.splits)
next
  case (Call_get k)
  then show ?thesis using assms(1,3) call_get_keeps [OF assms(1), of k] by (auto simp: listeners_of_def)
next
  case Decrement
  let ?s = "s\<lparr>decs := decs s - 1, mPendingCleanup := mPendingCleanup s - 1\<rparr>"
  have "s' = s \<or> (0 < decs s \<and> (s' = ?s \<or> s' = ?s\<lparr>checks := checks ?s + 1\<rparr>))"
    using assms(3) Decrement by (simp add: Let_def split: if_splits)
  then show ?thesis
    using assms(1) decrement_keeps [OF assms(1) _ refl] check_keeps [of ?s _ "checks ?s + 1"] Decrement by auto
next
  case Check
  have "s' = s \<or> s' = s\<lparr>checks := checks s - 1\<rparr> \<or> s' = notify_one (s\<lparr>checks := checks s - 1\<rparr>)"
    using assms(3) Check by (simp add: Let_def split: if_splits)
  then show ?thesis using assms(1) check_keeps [OF assms(1) refl, of "checks s - 1"] Check by auto
qed (use request_keeps [OF assms(1,3)] in auto)

lemma dl_steps_keep:
  "dl_inv s \<Longrightarrow> layer_delivers layer \<Longrightarrow> dl_steps nofile layer chs s = Inr s' \<Longrightarrow>
    dl_inv s' \<and> listeners_of s' = listeners_of s + mset (concat (map requested chs))"
proof (induction chs arbitrary: s)
  case (Cons ch chs)
  then obtain t where t: "dl_step nofile layer ch s = Inr t" "dl_steps nofile layer chs t = Inr s'"
    by (auto simp: sum_bind_def split: sum.splits)
  note step = dl_step_keeps [OF Cons.prems(1,2) t(1)]
  show ?case using Cons.IH [OF _ Cons.prems(2) t(2)] step by (auto simp: ac_simps)
qed auto

lemma dl_init_inv: "dl_inv EventTransferManager_init"
  by (simp add: dl_inv_def EventTransferManager_init_def active_ok_def waiters_ok_def count_ok_def unanswered_def)

lemma listeners_init: "listeners_of EventTransferManager_init = {#}"
  by (simp add: listeners_of_def EventTransferManager_init_def)

text \<open>The only failure is a download by name after the clean up began.\<close>

lemma dl_steps_error:
  "dl_inv s \<Longrightarrow> layer_delivers layer \<Longrightarrow> dl_steps nofile layer chs s = Inl e \<Longrightarrow>
    \<exists>xs name l r ys. chs = xs @ Download name l r # ys \<and> (Cleanup_step \<in> set xs \<or> mCleanup s)"
proof (induction chs arbitrary: s)
  case (Cons ch chs)
  show ?case
  proof (cases "dl_step nofile layer ch s")
    case (Inl e')
    then obtain name l r where "ch = Download name l r" "\<not> mNameLookup s"
      by (cases ch) (auto simp: download_def Let_def split: if_splits)
    moreover have "mCleanup s" using Cons.prems(1) \<open>\<not> mNameLookup s\<close> by (simp add: dl_inv_def count_ok_def)
    ultimately show ?thesis by (intro exI [of _ "[]"]) simp
  next
    case (Inr t)
    then have "dl_inv t" using dl_step_keeps [OF Cons.prems(1,2)] by blast
    moreover have "dl_steps nofile layer chs t = Inl e" using Cons.prems(3) Inr by simp
    ultimately obtain xs name l r ys where IH: "chs = xs @ Download name l r # ys" "Cleanup_step \<in> set xs \<or> mCleanup t"
      using Cons.IH [OF _ Cons.prems(2)] by blast
    have "ch = Cleanup_step \<or> mCleanup s" if "mCleanup t"
      using that Inr
      by (cases ch) (auto simp: download_def downloadByHash_def downloadNameLookupSuccess_def downloadFinished_def Let_def
          split: if_splits prod.splits option.splits)
    then show ?thesis using IH by (intro exI [of _ "ch # xs"]) auto
  qed
qed simp

section \<open>Properties\<close>

text \<open>
  C24: every request for a download is answered. Whatever the order of requests, of answers of the name lookup
  and of the cache layers, and of the steps of all threads, the manager fails only if a download by name comes after
  \<open>cleanup\<close> began. Every listener is on its way, or was told of a failure, or was subscribed, once. For a
  subscription that no later event of its file has answered, with a failure or with all bytes of its range, such an event is
  about to be fired or a call of the cache layers for a range that contains it is to come or under way; so when
  nothing is under way every subscription has been answered. When \<open>cleanup\<close> has returned no request is in a name lookup
  or before the call of the cache layers.
\<close>

theorem download_requests_answered:
  assumes "layer_delivers layer"
  shows "case dl_steps nofile layer chs EventTransferManager_init of
      Inl _ \<Rightarrow> \<exists>xs name l r ys. chs = xs @ Download name l r # ys \<and> Cleanup_step \<in> set xs
    | Inr s \<Rightarrow>
        listeners_of s = mset (concat (map requested chs)) \<and> (\<forall>(l, ev) \<in> set (told s). \<not> event_success ev)
        \<and> (\<forall>(pair, l, r) \<in> unanswered (em_calls s).
             (\<exists>ev \<in> set (fires s). download_idPair (mFileId ev) = pair \<and> answers_request ev r)
             \<or> (\<exists>(rfid, r') \<in> set (gets_due s) \<union> set (gets s). download_idPair rfid = pair \<and> isContainedBy r r'))
        \<and> (all_quiet s \<longrightarrow> unanswered (em_calls s) = {})
        \<and> (cleanup_at s = Returned \<longrightarrow> lookups s = [] \<and> gets_due s = [])"
proof (cases "dl_steps nofile layer chs EventTransferManager_init")
  case (Inl e)
  then show ?thesis
    using dl_steps_error [OF dl_init_inv assms Inl] by (simp add: EventTransferManager_init_def)
next
  case (Inr s)
  have inv: "dl_inv s" "listeners_of s = mset (concat (map requested chs))"
    using dl_steps_keep [OF dl_init_inv assms Inr] by (simp_all add: listeners_init)
  have promise: "(\<exists>ev \<in> set (fires s). download_idPair (mFileId ev) = pair \<and> answers_request ev r)
      \<or> (\<exists>(rfid, r') \<in> set (gets_due s) \<union> set (gets s). download_idPair rfid = pair \<and> isContainedBy r r')"
    if "(pair, l, r) \<in> unanswered (em_calls s)" for pair l r
  proof -
    from inv(1) that have "promised s (pair, l, r)" by (auto simp: dl_inv_def waiters_ok_def)
    then consider "\<exists>ev \<in> set (fires s). download_idPair (mFileId ev) = pair \<and> answers_request ev r"
      | f r' where "download_idPair f = pair" "r' \<in> set (mActiveTransfers s (mHash f))" "isContainedBy r r'"
      by (auto simp: promised_def)
    then show ?thesis
    proof cases
      case (2 f r')
      then obtain g where "mHash g = mHash f" "(g, r') \<in> set (gets_due s) \<union> set (gets s)"
        using inv(1) by (auto simp: dl_inv_def active_ok_def asked_for_def)
      moreover have "download_idPair g = pair" using 2(1) calculation(1) download_idPair_hash by metis
      ultimately show ?thesis using 2(3) by blast
    qed simp
  qed
  have quiet: "all_quiet s \<longrightarrow> unanswered (em_calls s) = {}"
    using promise by (fastforce simp: all_quiet_def)
  have "count_ok s" using inv(1) by (simp add: dl_inv_def)
  then have "\<forall>(l, ev) \<in> set (told s). \<not> event_success ev" "cleanup_at s = Returned \<longrightarrow> lookups s = [] \<and> gets_due s = []"
    unfolding count_ok_def by blast+
  moreover have "\<forall>(pair, l, r) \<in> unanswered (em_calls s).
      (\<exists>ev \<in> set (fires s). download_idPair (mFileId ev) = pair \<and> answers_request ev r)
      \<or> (\<exists>(rfid, r') \<in> set (gets_due s) \<union> set (gets s). download_idPair rfid = pair \<and> isContainedBy r r')"
    by (intro ballI, unfold split_paired_all prod.case) (rule promise)
  ultimately show ?thesis unfolding Inr sum.case using inv(2) quiet by (intro conjI)
qed

text \<open>
  Two requests for a file, the second for a part of what the first asked for: one call of the cache layers,
  whose answer covers both.
\<close>

definition sample_file :: RemoteFileId where
  "sample_file = \<lparr>mHash = replicate 32 7, mURI = \<lparr>mContext = URIContext_default, mPath = ''x''\<rparr>\<rparr>"

definition sample_layer :: layer where
  "sample_layer n rfid r =
     (let d = [\<lparr>mStart = mStart r, mLength = mLength r, mWholeFile = mWholeFile r, mData = []\<rparr>]
      in if isContainedBy_list r d then Some d else None)"

definition sample_choices :: "dl_choice list" where
  "sample_choices = [Download_by_hash sample_file 1 (Range_make 0 10 Init_LENGTH False), Enter 0,
     Download_by_hash sample_file 2 (Range_make 2 3 Init_LENGTH False), Enter 0, Call_get 0, Layer_answer 0 0, Fire_event 0]"

theorem download_requests_answered_witness:
  "\<exists>s. dl_steps sample_file sample_layer sample_choices EventTransferManager_init = Inr s
     \<and> layer_delivers sample_layer \<and> all_quiet s \<and> unanswered (em_calls s) = {} \<and> listeners_of s = {#1, 2#}
     \<and> length (em_calls s) = 3"
proof -
  have delivers: "layer_delivers sample_layer" by (simp add: layer_delivers_def sample_layer_def Let_def)
  obtain s where s: "dl_steps sample_file sample_layer sample_choices EventTransferManager_init = Inr s"
      "all_quiet s" "length (em_calls s) = 3"
    by (simp add: sample_choices_def downloadByHash_def downloadNameLookupSuccess_def EventTransferManager_init_def
        lock_free_def remove_nth_def downloadFinished_def Let_def isContainedBy_def contains_def accessor_defs all_quiet_def)
  note all = download_requests_answered [OF delivers, where nofile = sample_file and chs = sample_choices, unfolded s(1) sum.case]
  have "listeners_of s = mset (concat (map requested sample_choices))" using all by (rule conjunct1)
  then have "listeners_of s = {#1, 2#}" by (simp add: sample_choices_def)
  moreover have "all_quiet s \<longrightarrow> unanswered (em_calls s) = {}" using all by (elim conjE)
  ultimately show ?thesis using s delivers by (intro exI [of _ s]) simp
qed

text \<open>
  C25: \<open>cleanup\<close> may wait for ever. The last thread it waits for decrements the count and notifies without holding
  the mutex; when it does so after \<open>cleanup\<close> read the count and before \<open>cleanup\<close> waits, the notification is lost: no
  request is left, the count is zero, and no further step of any thread changes anything until another
  request comes.
\<close>

theorem cleanup_misses_wakeup:
  "\<exists>chs s. dl_steps nofile layer chs EventTransferManager_init = Inr s
     \<and> all_quiet s \<and> mPendingCleanup s = 0 \<and> cleanup_at s = Waiting
     \<and> (\<forall>more. concat (map requested more) = [] \<longrightarrow> dl_steps nofile layer more s = Inr s)"
proof -
  let ?chs = "[Download name 1 r, Lookup_answer 0 None, Cleanup_step, Cleanup_step, Enter 0, Decrement, Check, Cleanup_step]"
  obtain s where s: "dl_steps nofile layer ?chs EventTransferManager_init = Inr s" "all_quiet s" "mPendingCleanup s = 0"
      "cleanup_at s = Waiting" "decs s = 0" "checks s = 0"
    by (simp add: download_def downloadNameLookupSuccess_def EventTransferManager_init_def remove_nth_def Let_def
        begin_cleanup_def notify_one_def all_quiet_def)
  have stuck: "dl_step nofile layer ch s = Inr s" if "requested ch = []" for ch
    using that s(2,4-6) by (cases ch) (simp_all add: all_quiet_def)
  have "concat (map requested more) = [] \<Longrightarrow> dl_steps nofile layer more s = Inr s" for more
    by (induction more) (simp_all add: stuck)
  with s(1-4) show ?thesis by blast
qed

theorem cleanup_misses_wakeup_witness:
  "\<exists>chs s. dl_steps sample_file sample_layer chs EventTransferManager_init = Inr s \<and> cleanup_at s = Waiting
     \<and> dl_steps sample_file sample_layer [Check, Decrement, Cleanup_step] s = Inr s"
proof -
  obtain chs s where s: "dl_steps sample_file sample_layer chs EventTransferManager_init = Inr s" "cleanup_at s = Waiting"
      "\<forall>more. concat (map requested more) = [] \<longrightarrow> dl_steps sample_file sample_layer more s = Inr s"
    using cleanup_misses_wakeup [of sample_file sample_layer] by (elim exE conjE) (rule that)
  have "concat (map requested [Check, Decrement, Cleanup_step]) = []" by simp
  then have "dl_steps sample_file sample_layer [Check, Decrement, Cleanup_step] s = Inr s"
    using s(3) by (simp only: simp_thms)
  with s(1,2) show ?thesis by (intro exI conjI)
qed

end
