(* ===== verification/Uploads.thy ===== *)
theory Uploads
  imports Download_Requests Name_Lookup
begin

text \<open>
  Uploads of the transfer manager (\<open>transfer/EventTransferManager.hpp\<close>): data go to every service configured for the context of
  their hash, and once they are there a name goes to every service configured for its context. Each
  of the two ends with an event.

  A handler speaks to the network and answers once: what it answers is the argument \<open>ask\<close> and the call of
  the next service follows at once. Fired events wait in a queue until the event manager delivers them to the
  listeners subscribed before. A registry that is a null pointer is \<open>None\<close>.
\<close>

section \<open>Events and listeners\<close>

record UploadEvent =
  up_status :: Status
  up_uri :: URI
  up_id :: "string \<times> string"

definition upload_idPair :: "URI \<Rightarrow> string \<Rightarrow> string \<times> string" where
  "upload_idPair uploadURI eid = (eid, uri_toString uploadURI)"

definition UploadEvent_make :: "Status \<Rightarrow> URI \<Rightarrow> string \<Rightarrow> UploadEvent" where
  "UploadEvent_make stat uploadURI eid = \<lparr>up_status = stat, up_uri = uploadURI, up_id = upload_idPair uploadURI eid\<rparr>"

definition UploadEventId :: string where "UploadEventId = ''UploadFinished''"

definition UploadDataEventId :: string where "UploadDataEventId = ''UploadDataFinished''"

definition upload_success :: "UploadEvent \<Rightarrow> bool" where
  "upload_success ev \<longleftrightarrow> up_status ev = SUCCESS"

text \<open>A listener of the client, and \<open>uploadDataFinishedDoName\<close> with its arguments bound.\<close>

datatype up_listener = Client nat | DoName URI RemoteFileId nat

record ('n, 'u) uploader =
  mNameUploadReg :: "'n registry option"
  mUploadReg :: "'u registry option"
  subscribed :: "((string \<times> string) \<times> up_listener) list"
  queued :: "UploadEvent list"
  name_uploads :: "('n \<times> ServiceParams \<times> URI \<times> RemoteFileId) list"
  data_uploads :: "('u \<times> ServiceParams \<times> URI \<times> dense_data) list"
  clients_told :: "(nat \<times> UploadEvent) list"

definition tell :: "nat \<Rightarrow> UploadEvent \<Rightarrow> ('n, 'u) uploader \<Rightarrow> ('n, 'u) uploader" where
  "tell n ev s = s\<lparr>clients_told := clients_told s @ [(n, ev)]\<rparr>"

text \<open>Where a file goes at a service: the handler registered for its protocol and the URI.\<close>

definition upload_target :: "URIContext \<Rightarrow> URI \<Rightarrow> 'h registry \<Rightarrow> 'h option \<times> URI" where
  "upload_target c file r =
     (let (proto, handler) = registry_lookup (mProto c) r;
          uploadURI = URI_relative c (mPath file)
      in (handler, uploadURI\<lparr>mContext := (mContext uploadURI)\<lparr>mProto := proto\<rparr>\<rparr>))"

section \<open>Services in turn\<close>

function doUploadName :: "('n \<Rightarrow> URI \<Rightarrow> bool) \<Rightarrow> URI \<Rightarrow> RemoteFileId \<Rightarrow> nat \<Rightarrow> bool \<Rightarrow> bool \<Rightarrow> ListOfServices option
    \<Rightarrow> ('n, 'u) uploader \<Rightarrow> manager_error + ('n, 'u) uploader" where
  "doUploadName ask name hash which success successThisRound services s =
     (let success = (success \<and> successThisRound); ss = (case services of None \<Rightarrow> [] | Some ss \<Rightarrow> ss) in
      if services = None \<or> which \<ge> length ss
      then let success = (if services = None \<or> ss = [] then False else success);
               stat = (if success then SUCCESS else FAIL_NAMEUPLOAD)
           in Inr (s\<lparr>queued := queued s @ [UploadEvent_make stat name UploadEventId]\<rparr>)
      else case mNameUploadReg s of
             None \<Rightarrow> Inl Null_dereference
           | Some r \<Rightarrow>
               (case upload_target (fst (ss ! which)) name r of
                  (None, _) \<Rightarrow> Inl Null_dereference
                | (Some h, u) \<Rightarrow>
                    doUploadName ask name hash (which + 1) success (ask h u) services
                      (s\<lparr>name_uploads := name_uploads s @ [(h, snd (ss ! which), u, hash)]\<rparr>)))"
  by auto
termination
  by (relation "measure (\<lambda>(_, _, _, which, _, _, services, _). length (case services of None \<Rightarrow> [] | Some ss \<Rightarrow> ss) - which)") auto

declare doUploadName.simps [simp del]

function doUploadData :: "('u \<Rightarrow> URI \<Rightarrow> bool) \<Rightarrow> RemoteFileId \<Rightarrow> dense_data \<Rightarrow> nat \<Rightarrow> bool \<Rightarrow> bool \<Rightarrow> ListOfServices option
    \<Rightarrow> ('n, 'u) uploader \<Rightarrow> manager_error + ('n, 'u) uploader" where
  "doUploadData ask hash toUpload which success successThisRound services s =
     (let success = (success \<and> successThisRound); ss = (case services of None \<Rightarrow> [] | Some ss \<Rightarrow> ss) in
      if services = None \<or> which \<ge> length ss
      then let success = (if services = None \<or> ss = [] then False else success);
               stat = (if success then SUCCESS else FAIL_UPLOAD)
           in Inr (s\<lparr>queued := queued s @ [UploadEvent_make stat (mURI hash) UploadDataEventId]\<rparr>)
      else case mUploadReg s of
             None \<Rightarrow> Inl Null_dereference
           | Some r \<Rightarrow>
               (case upload_target (fst (ss ! which)) (mURI hash) r of
                  (None, _) \<Rightarrow> Inl Null_dereference
                | (Some h, u) \<Rightarrow>
                    doUploadData ask hash toUpload (which + 1) success (ask h u) services
                      (s\<lparr>data_uploads := data_uploads s @ [(h, snd (ss ! which), u, toUpload)]\<rparr>)))"
  by auto
termination
  by (relation "measure (\<lambda>(_, _, _, which, _, _, services, _). length (case services of None \<Rightarrow> [] | Some ss \<Rightarrow> ss) - which)") auto

declare doUploadData.simps [simp del]

section \<open>Requests\<close>

text \<open>Without a registry the listener is told, and then the null pointer is used.\<close>

definition uploadName :: "('n \<Rightarrow> URI \<Rightarrow> bool) \<Rightarrow> URI \<Rightarrow> RemoteFileId \<Rightarrow> nat \<Rightarrow> ('n, 'u) uploader
    \<Rightarrow> manager_error + ('n, 'u) uploader" where
  "uploadName ask name hash listener s =
     (let s = (if mNameUploadReg s = None
               then tell listener (UploadEvent_make FAIL_UNIMPLEMENTED name UploadEventId) s else s);
          s = s\<lparr>subscribed := subscribed s @ [(upload_idPair name UploadEventId, Client listener)]\<rparr>
      in case mNameUploadReg s of
           None \<Rightarrow> Inl Null_dereference
         | Some r \<Rightarrow>
             (case registry_lookupService (mContext name) True r of (services, r) \<Rightarrow>
                doUploadName ask name hash 0 True True services (s\<lparr>mNameUploadReg := Some r\<rparr>)))"

definition uploadDataFinishedDoName :: "('n \<Rightarrow> URI \<Rightarrow> bool) \<Rightarrow> URI \<Rightarrow> RemoteFileId \<Rightarrow> nat \<Rightarrow> UploadEvent
    \<Rightarrow> ('n, 'u) uploader \<Rightarrow> manager_error + ('n, 'u) uploader" where
  "uploadDataFinishedDoName ask name hash listener ev s =
     (if upload_success ev then uploadName ask name hash listener s else Inr (tell listener ev s))"

definition call_listener :: "('n \<Rightarrow> URI \<Rightarrow> bool) \<Rightarrow> UploadEvent \<Rightarrow> up_listener \<Rightarrow> ('n, 'u) uploader
    \<Rightarrow> manager_error + ('n, 'u) uploader" where
  "call_listener ask ev l s =
     (case l of Client n \<Rightarrow> Inr (tell n ev s) | DoName name hash n \<Rightarrow> uploadDataFinishedDoName ask name hash n ev s)"

definition uploadByHash :: "('n \<Rightarrow> URI \<Rightarrow> bool) \<Rightarrow> ('u \<Rightarrow> URI \<Rightarrow> bool) \<Rightarrow> RemoteFileId \<Rightarrow> dense_data \<Rightarrow> up_listener
    \<Rightarrow> ('n, 'u) uploader \<Rightarrow> manager_error + ('n, 'u) uploader" where
  "uploadByHash ask askd hash toUpload listener s =
     sum_bind
       (if mUploadReg s = None
        then call_listener ask (UploadEvent_make FAIL_UNIMPLEMENTED (mURI hash) UploadDataEventId) listener s else Inr s)
       (\<lambda>s. let s = s\<lparr>subscribed := subscribed s @ [(upload_idPair (mURI hash) UploadDataEventId, listener)]\<rparr> in
          case mUploadReg s of
            None \<Rightarrow> Inl Null_dereference
          | Some r \<Rightarrow>
              (case registry_lookupService (mContext (mURI hash)) True r of (services, r) \<Rightarrow>
                 doUploadData askd hash toUpload 0 True True services (s\<lparr>mUploadReg := Some r\<rparr>)))"

definition upload :: "('n \<Rightarrow> URI \<Rightarrow> bool) \<Rightarrow> ('u \<Rightarrow> URI \<Rightarrow> bool) \<Rightarrow> URI \<Rightarrow> RemoteFileId \<Rightarrow> dense_data \<Rightarrow> nat
    \<Rightarrow> ('n, 'u) uploader \<Rightarrow> manager_error + ('n, 'u) uploader" where
  "upload ask askd name hash toUpload listener s =
     (let s = (if mNameUploadReg s = None \<or> mUploadReg s = None
               then tell listener (UploadEvent_make FAIL_UNIMPLEMENTED name UploadEventId) s else s)
      in uploadByHash ask askd hash toUpload (DoName name hash listener) s)"

text \<open>The overloads that compute the hash of the data; \<open>junk\<close> is the memory of the hash context.\<close>

definition upload_computed :: "byte_order \<Rightarrow> SHA256_CTX \<Rightarrow> ('n \<Rightarrow> URI \<Rightarrow> bool) \<Rightarrow> ('u \<Rightarrow> URI \<Rightarrow> bool) \<Rightarrow> URI \<Rightarrow> URIContext
    \<Rightarrow> dense_data \<Rightarrow> nat \<Rightarrow> ('n, 'u) uploader \<Rightarrow> manager_error + ('n, 'u) uploader" where
  "upload_computed bo junk ask askd name hashContext toUpload listener s =
     upload ask askd name (RemoteFileId_in (computeDigest bo junk (take (unat (mLength toUpload)) (mData toUpload))) hashContext)
       toUpload listener s"

definition uploadByHash_computed :: "byte_order \<Rightarrow> SHA256_CTX \<Rightarrow> ('n \<Rightarrow> URI \<Rightarrow> bool) \<Rightarrow> ('u \<Rightarrow> URI \<Rightarrow> bool) \<Rightarrow> URIContext
    \<Rightarrow> dense_data \<Rightarrow> up_listener \<Rightarrow> ('n, 'u) uploader \<Rightarrow> manager_error + ('n, 'u) uploader" where
  "uploadByHash_computed bo junk ask askd hashContext toUpload listener s =
     uploadByHash ask askd (RemoteFileId_in (computeDigest bo junk (take (unat (mLength toUpload)) (mData toUpload))) hashContext)
       toUpload listener s"

section \<open>Delivery of events\<close>

fun call_listeners :: "('n \<Rightarrow> URI \<Rightarrow> bool) \<Rightarrow> UploadEvent \<Rightarrow> up_listener list \<Rightarrow> ('n, 'u) uploader
    \<Rightarrow> manager_error + ('n, 'u) uploader" where
  "call_listeners ask ev [] s = Inr s"
| "call_listeners ask ev (l # ls) s = sum_bind (call_listener ask ev l s) (call_listeners ask ev ls)"

definition deliver :: "('n \<Rightarrow> URI \<Rightarrow> bool) \<Rightarrow> ('n, 'u) uploader \<Rightarrow> manager_error + ('n, 'u) uploader" where
  "deliver ask s =
     (case queued s of
        [] \<Rightarrow> Inr s
      | ev # q \<Rightarrow>
          call_listeners ask ev (map snd (filter (\<lambda>(i, l). i = up_id ev) (subscribed s))) (s\<lparr>queued := q\<rparr>))"

section \<open>What an upload does\<close>

definition services_list :: "ListOfServices option \<Rightarrow> ListOfServices" where
  "services_list services = (case services of None \<Rightarrow> [] | Some ss \<Rightarrow> ss)"

definition registered :: "'h registry \<Rightarrow> ListOfServices \<Rightarrow> bool" where
  "registered r ss \<longleftrightarrow> (\<forall>(c, p) \<in> set ss. mHandlers r (mProto c) \<noteq> None)"

text \<open>The calls of handlers for a file, one per service.\<close>

definition handler_calls :: "'h registry \<Rightarrow> URI \<Rightarrow> ListOfServices \<Rightarrow> ('h \<times> ServiceParams \<times> URI) list" where
  "handler_calls r file ss = map (\<lambda>(c, p). case upload_target c file r of (h, u) \<Rightarrow> (the h, p, u)) ss"

definition all_succeed :: "('h \<Rightarrow> URI \<Rightarrow> bool) \<Rightarrow> ('h \<times> ServiceParams \<times> URI) list \<Rightarrow> bool" where
  "all_succeed ask cs \<longleftrightarrow> (\<forall>(h, p, u) \<in> set cs. ask h u)"

lemma registered_target: "registered r ss \<Longrightarrow> (c, p) \<in> set ss \<Longrightarrow> \<exists>h u. upload_target c file r = (Some h, u)"
  by (auto simp: registered_def upload_target_def registry_lookup_def Let_def split: option.splits)

lemma handler_calls_drop:
  assumes "registered r ss" "which < length ss"
  obtains h u where "upload_target (fst (ss ! which)) file r = (Some h, u)"
    "handler_calls r file (drop which ss) = (h, snd (ss ! which), u) # handler_calls r file (drop (which + 1) ss)"
proof -
  have "(fst (ss ! which), snd (ss ! which)) \<in> set ss" using assms(2) by simp
  from registered_target [OF assms(1) this] obtain h u where "upload_target (fst (ss ! which)) file r = (Some h, u)" by blast
  moreover from this have "handler_calls r file (drop which ss) = (h, snd (ss ! which), u) # handler_calls r file (drop (which + 1) ss)"
    using assms(2) by (cases "ss ! which") (simp add: handler_calls_def Cons_nth_drop_Suc [symmetric])
  ultimately show thesis by (rule that)
qed

lemma doUploadName_effect:
  assumes "mNameUploadReg s = Some r" "registered r ss"
  shows "doUploadName ask name hash which success now (Some ss) s = Inr (s
    \<lparr>name_uploads := name_uploads s @ map (\<lambda>(h, p, u). (h, p, u, hash)) (handler_calls r name (drop which ss)),
     queued := queued s @ [UploadEvent_make (if ss \<noteq> [] \<and> success \<and> now \<and> all_succeed ask (handler_calls r name (drop which ss))
        then SUCCESS else FAIL_NAMEUPLOAD) name UploadEventId]\<rparr>)"
  using assms(1)
proof (induction "length ss - which" arbitrary: which success now s)
  case 0
  then show ?case
    by (subst doUploadName.simps) (auto simp: Let_def handler_calls_def all_succeed_def)
next
  case (Suc n)
  then have w: "which < length ss" by simp
  obtain h u where t: "upload_target (fst (ss ! which)) name r = (Some h, u)"
      "handler_calls r name (drop which ss) = (h, snd (ss ! which), u) # handler_calls r name (drop (which + 1) ss)"
    by (rule handler_calls_drop [OF assms(2) w])
  let ?s = "s\<lparr>name_uploads := name_uploads s @ [(h, snd (ss ! which), u, hash)]\<rparr>"
  have "doUploadName ask name hash which success now (Some ss) s
      = doUploadName ask name hash (which + 1) (success \<and> now) (ask h u) (Some ss) ?s"
    by (subst doUploadName.simps) (use w Suc.prems t(1) in \<open>simp add: Let_def\<close>)
  also note Suc.hyps(1) [of "which + 1" ?s "success \<and> now" "ask h u"]
  finally show ?case using Suc.hyps(2) Suc.prems t(2) w by (simp add: all_succeed_def conj_ac)
qed

lemma doUploadData_effect:
  assumes "mUploadReg s = Some r" "registered r ss"
  shows "doUploadData ask hash toUpload which success now (Some ss) s = Inr (s
    \<lparr>data_uploads := data_uploads s @ map (\<lambda>(h, p, u). (h, p, u, toUpload)) (handler_calls r (mURI hash) (drop which ss)),
     queued := queued s @ [UploadEvent_make (if ss \<noteq> [] \<and> success \<and> now \<and> all_succeed ask (handler_calls r (mURI hash) (drop which ss))
        then SUCCESS else FAIL_UPLOAD) (mURI hash) UploadDataEventId]\<rparr>)"
  using assms(1)
proof (induction "length ss - which" arbitrary: which success now s)
  case 0
  then show ?case
    by (subst doUploadData.simps) (auto simp: Let_def handler_calls_def all_succeed_def)
next
  case (Suc n)
  then have w: "which < length ss" by simp
  obtain h u where t: "upload_target (fst (ss ! which)) (mURI hash) r = (Some h, u)"
      "handler_calls r (mURI hash) (drop which ss) = (h, snd (ss ! which), u) # handler_calls r (mURI hash) (drop (which + 1) ss)"
    by (rule handler_calls_drop [OF assms(2) w])
  let ?s = "s\<lparr>data_uploads := data_uploads s @ [(h, snd (ss ! which), u, toUpload)]\<rparr>"
  have "doUploadData ask hash toUpload which success now (Some ss) s
      = doUploadData ask hash toUpload (which + 1) (success \<and> now) (ask h u) (Some ss) ?s"
    by (subst doUploadData.simps) (use w Suc.prems t(1) in \<open>simp add: Let_def\<close>)
  also note Suc.hyps(1) [of "which + 1" ?s "success \<and> now" "ask h u"]
  finally show ?case using Suc.hyps(2) Suc.prems t(2) w by (simp add: all_succeed_def conj_ac)
qed

text \<open>Whole runs over the services found for a file; a null list of services is like an empty one.\<close>

definition name_result :: "('n \<Rightarrow> URI \<Rightarrow> bool) \<Rightarrow> 'n registry \<Rightarrow> URI \<Rightarrow> ListOfServices option \<Rightarrow> UploadEvent" where
  "name_result ask r name services = UploadEvent_make
     (if services_list services \<noteq> [] \<and> all_succeed ask (handler_calls r name (services_list services))
      then SUCCESS else FAIL_NAMEUPLOAD) name UploadEventId"

definition data_result :: "('u \<Rightarrow> URI \<Rightarrow> bool) \<Rightarrow> 'u registry \<Rightarrow> URI \<Rightarrow> ListOfServices option \<Rightarrow> UploadEvent" where
  "data_result ask r file services = UploadEvent_make
     (if services_list services \<noteq> [] \<and> all_succeed ask (handler_calls r file (services_list services))
      then SUCCESS else FAIL_UPLOAD) file UploadDataEventId"

lemma doUploadName_all:
  assumes "mNameUploadReg s = Some r" "registered r (services_list services)"
  shows "doUploadName ask name hash 0 True True services s = Inr (s
    \<lparr>name_uploads := name_uploads s @ map (\<lambda>(h, p, u). (h, p, u, hash)) (handler_calls r name (services_list services)),
     queued := queued s @ [name_result ask r name services]\<rparr>)"
proof (cases services)
  case None
  then show ?thesis by (subst doUploadName.simps) (simp add: services_list_def name_result_def handler_calls_def)
next
  case (Some ss)
  then show ?thesis using doUploadName_effect [OF assms(1), of ss] assms(2) by (simp add: services_list_def name_result_def)
qed

lemma doUploadData_all:
  assumes "mUploadReg s = Some r" "registered r (services_list services)"
  shows "doUploadData ask hash toUpload 0 True True services s = Inr (s
    \<lparr>data_uploads := data_uploads s @ map (\<lambda>(h, p, u). (h, p, u, toUpload)) (handler_calls r (mURI hash) (services_list services)),
     queued := queued s @ [data_result ask r (mURI hash) services]\<rparr>)"
proof (cases services)
  case None
  then show ?thesis by (subst doUploadData.simps) (simp add: services_list_def data_result_def handler_calls_def)
next
  case (Some ss)
  then show ?thesis using doUploadData_effect [OF assms(1), of ss] assms(2) by (simp add: services_list_def data_result_def)
qed

lemma lookupService_handlers: "registry_lookupService c b r = (services, r') \<Longrightarrow> mHandlers r' = mHandlers r"
  by (auto simp: registry_lookupService_def Let_def split: if_splits option.splits prod.splits)

lemma same_handlers:
  "mHandlers r' = mHandlers r \<Longrightarrow> registered r' ss = registered r ss"
  "mHandlers r' = mHandlers r \<Longrightarrow> handler_calls r' file ss = handler_calls r file ss"
  by (simp_all add: registered_def handler_calls_def upload_target_def registry_lookup_def)

lemma uploadName_all:
  assumes "mNameUploadReg s = Some r" "registry_lookupService (mContext name) True r = (services, r')"
    and "registered r (services_list services)"
  shows "uploadName ask name hash n s = Inr (s
    \<lparr>mNameUploadReg := Some r', subscribed := subscribed s @ [(upload_idPair name UploadEventId, Client n)],
     name_uploads := name_uploads s @ map (\<lambda>(h, p, u). (h, p, u, hash)) (handler_calls r name (services_list services)),
     queued := queued s @ [name_result ask r name services]\<rparr>)"
proof -
  note same = same_handlers [OF lookupService_handlers [OF assms(2)]]
  have "name_result ask r' name services = name_result ask r name services" by (simp add: name_result_def same)
  then show ?thesis using assms by (simp add: uploadName_def Let_def same doUploadName_all [where r = r'])
qed

lemma upload_all:
  assumes "mNameUploadReg s = Some rn" "mUploadReg s = Some r"
    and "registry_lookupService (mContext (mURI hash)) True r = (services, r')" "registered r (services_list services)"
  shows "upload ask askd name hash toUpload n s = Inr (s
    \<lparr>mUploadReg := Some r', subscribed := subscribed s @ [(upload_idPair (mURI hash) UploadDataEventId, DoName name hash n)],
     data_uploads := data_uploads s @ map (\<lambda>(h, p, u). (h, p, u, toUpload)) (handler_calls r (mURI hash) (services_list services)),
     queued := queued s @ [data_result askd r (mURI hash) services]\<rparr>)"
proof -
  note same = same_handlers [OF lookupService_handlers [OF assms(3)]]
  have "data_result askd r' (mURI hash) services = data_result askd r (mURI hash) services" by (simp add: data_result_def same)
  then show ?thesis using assms by (simp add: upload_def uploadByHash_def Let_def same doUploadData_all [where r = r'])
qed

text \<open>Without one of the registries an upload ends in the use of a null pointer.\<close>

lemma upload_without_registry:
  "mUploadReg s = None \<Longrightarrow> upload ask askd name hash toUpload n s = Inl Null_dereference"
  by (simp add: upload_def uploadByHash_def call_listener_def uploadDataFinishedDoName_def UploadEvent_make_def
      upload_success_def tell_def Let_def)

lemma uploadName_without_registry: "mNameUploadReg s = None \<Longrightarrow> uploadName ask name hash n s = Inl Null_dereference"
  by (simp add: uploadName_def tell_def Let_def)

text \<open>A service whose protocol has no handler does, too.\<close>

lemma upload_unregistered:
  assumes "mUploadReg s = Some r" "mHandlers r (mProto (fst (ss ! 0))) = None" "ss \<noteq> []"
  shows "doUploadData ask hash toUpload 0 True True (Some ss) s = Inl Null_dereference"
  using assms by (subst doUploadData.simps) (simp add: upload_target_def registry_lookup_def Let_def)

section \<open>Properties\<close>

definition no_uploads :: "('n, 'u) uploader \<Rightarrow> bool" where
  "no_uploads s \<longleftrightarrow> subscribed s = [] \<and> queued s = [] \<and> name_uploads s = [] \<and> data_uploads s = [] \<and> clients_told s = []"


text \<open>Two services for the data, one for the name; the services for data refuse.\<close>

definition sample_uploader :: "(nat, nat) uploader" where
  "sample_uploader =
     (let ctx = (\<lambda>proto host. \<lparr>mProto = proto, mHost = host, mUser = [], mDirectory = []\<rparr>) in
      \<lparr>mNameUploadReg = Some \<lparr>mHandlers = [''http'' \<mapsto> (''http'', 5)],
          mServices = Some [OptionManagerServiceLookup [''meerkat:///'' \<mapsto> [(ctx ''http'' ''n.com'', Map.empty)]]],
          mAllowNonService = False\<rparr>,
       mUploadReg = Some \<lparr>mHandlers = [''http'' \<mapsto> (''http'', 6)],
          mServices = Some [OptionManagerServiceLookup [''mhash:///'' \<mapsto>
             [(ctx ''http'' ''a.com'', Map.empty), (ctx ''http'' ''b.com'', Map.empty)]]],
          mAllowNonService = False\<rparr>,
       subscribed = [], queued = [], name_uploads = [], data_uploads = [], clients_told = []\<rparr>)"

definition upload_file :: RemoteFileId where
  "upload_file = \<lparr>mHash = [], mURI = \<lparr>mContext = \<lparr>mProto = ''mhash'', mHost = [], mUser = [], mDirectory = []\<rparr>, mPath = ''12''\<rparr>\<rparr>"

definition upload_name :: URI where
  "upload_name = \<lparr>mContext = \<lparr>mProto = ''meerkat'', mHost = [], mUser = [], mDirectory = []\<rparr>, mPath = ''x''\<rparr>"


end
