(* ===== verification/HTTP_Request.thy ===== *)
theory HTTP_Request
  imports Range_Text Transfer_Data
begin

text \<open>
  A transfer over HTTP (\<open>transfer/HTTPRequest.hpp\<close>, \<open>HTTPRequest.cpp\<close>): how a request is set up, what happens to the
  headers and the body of the answer, and how it ends. The library that speaks HTTP is outside the program: a
  handle of it is the list of options set for it, and the calls it makes (headers, parts of the body, the end of a
  transfer) are the operations below. A null pointer is \<open>None\<close> or, for a list the library builds, the empty
  list; \<open>nullCallback\<close> is \<open>None\<close>. The calls of the callback are recorded.
\<close>

section \<open>The request\<close>

datatype http_state = NEW | INPROGRESS | FINISHED

datatype http_error = Logic_error string | Out_of_bounds

datatype form_part =
    Form_data string string dense_data string        \<comment> \<open>field, file name, content, type\<close>
  | Form_array string "(string \<times> dense_data) list" string
  | Form_field string string

datatype option_value = Number int | Text string | Lines "string list" | Form "form_part list" | Self | Function string

type_synonym curl_handle = "(string \<times> option_value) list"

record http_request =
  mPreventDeletion :: bool
  mState :: http_state
  request_uri :: URI
  mRequestedRange :: range
  mCallback :: "nat option"
  mCurlRequest :: "curl_handle option"
  mHeaders :: "string list"
  mCurlForm :: "form_part list"
  mSimplePOSTString :: string
  mTypeDELETE :: bool
  mStatusCode :: int
  mUploadOffset :: u64
  mStreamUploadData :: "dense_data option"
  mDataReferences :: "dense_data list"
  mOffset :: u64
  received :: dense_data
  callbacks :: "(nat \<times> dense_data \<times> bool) list"

definition call_back :: "nat option \<Rightarrow> dense_data \<Rightarrow> bool \<Rightarrow> http_request \<Rightarrow> http_request" where
  "call_back cb d success r =
     (case cb of None \<Rightarrow> r | Some c \<Rightarrow> r\<lparr>callbacks := callbacks r @ [(c, d, success)]\<rparr>)"

definition setopt :: "string \<Rightarrow> option_value \<Rightarrow> http_request \<Rightarrow> http_request" where
  "setopt opt v r = r\<lparr>mCurlRequest := map_option (\<lambda>h. h @ [(opt, v)]) (mCurlRequest r)\<rparr>"

section \<open>The body of the answer and of the request\<close>

text \<open>
  \<open>write\<close>: the bytes go to the offset relative to the start of the data. A part that begins before the data is cut,
  with a pointer and a length that are only right if some of it remains.
\<close>

definition http_write :: "u8 list \<Rightarrow> http_request \<Rightarrow> http_error + (nat \<times> http_request)" where
  "http_write bytes r =
     (let startByte = mOffset r - startbyte (received r);
          cut = (if sint startByte < 0 then nat (- sint startByte) else 0);
          startByte = (if sint startByte < 0 then 0 else startByte)
      in if cut > length bytes then Inl Out_of_bounds
         else let bytes = drop cut bytes;
                  totalNeeded = startByte + of_nat (length bytes);
                  d = (if range_length (received r) < totalNeeded
                       then dense_setLength (received r) totalNeeded (goesToEndOfFile (mRequestedRange r)) else received r)
              in if unat startByte + length bytes > length (mData d) then Inl Out_of_bounds
                 else Inr (length bytes,
                   r\<lparr>received := d\<lparr>mData := overwrite (unat startByte) bytes (mData d)\<rparr>,
                     mOffset := mOffset r + of_nat (length bytes)\<rparr>))"

text \<open>The parts of a body in turn, with the numbers returned to the library.\<close>

fun http_writes :: "u8 list list \<Rightarrow> http_request \<Rightarrow> http_error + (nat list \<times> http_request)" where
  "http_writes [] r = Inr ([], r)"
| "http_writes (bs # bss) r =
     sum_bind (http_write bs r) (\<lambda>(n, r). sum_bind (http_writes bss r) (\<lambda>(ns, r). Inr (n # ns, r)))"

text \<open>\<open>read\<close>: the bytes copied to a buffer of the given length.\<close>

definition http_read :: "nat \<Rightarrow> http_request \<Rightarrow> u8 list \<times> http_request" where
  "http_read len r =
     (case mStreamUploadData r of
        None \<Rightarrow> ([], r)
      | Some d \<Rightarrow>
          if mUploadOffset r \<ge> range_length d then ([], r)
          else let dataLength = unat (range_length d - mUploadOffset r);
                   len = (if dataLength < len then dataLength else len)
               in (take len (drop (unat (mUploadOffset r)) (mData d)), r\<lparr>mUploadOffset := mUploadOffset r + of_nat len\<rparr>))"

fun http_reads :: "nat list \<Rightarrow> http_request \<Rightarrow> u8 list list \<times> http_request" where
  "http_reads [] r = ([], r)"
| "http_reads (n # ns) r = (case http_read n r of (bs, r) \<Rightarrow> case http_reads ns r of (bss, r) \<Rightarrow> (bs # bss, r))"

text \<open>\<open>seek\<close> and the callback of the library, which needs data to upload.\<close>

definition http_seek :: "u64 \<Rightarrow> dense_data \<Rightarrow> http_request \<Rightarrow> http_request" where
  "http_seek offset d r = r\<lparr>mUploadOffset := (if offset < range_length d then offset else range_length d)\<rparr>"

datatype seek_origin = SEEK_SET | SEEK_CUR | SEEK_END

definition seek_cb :: "u64 \<Rightarrow> seek_origin \<Rightarrow> dense_data \<Rightarrow> http_request \<Rightarrow> u64 \<times> http_request" where
  "seek_cb offset origin d r =
     (let r = (case origin of
                 SEEK_SET \<Rightarrow> http_seek offset d r
               | SEEK_CUR \<Rightarrow> http_seek (mUploadOffset r + offset) d r
               | SEEK_END \<Rightarrow> http_seek (range_length d + offset) d r)
      in (mUploadOffset r, r))"

section \<open>Headers\<close>

definition extract_word :: "istream \<Rightarrow> istream" where
  "extract_word i =
     (if \<not> good i then i
      else let s = dropWhile IsSpace (unread i); rest = dropWhile (\<lambda>c. \<not> IsSpace c) s
           in \<lparr>unread = rest, good = (s \<noteq> [] \<and> rest \<noteq> [])\<rparr>)"

definition extract_int :: "istream \<Rightarrow> int" where
  "extract_int i = sint (fst (extract_num (2 ^ 31) (2 ^ 31 - 1) 0 i))"

text \<open>A line without a colon: the version and a status code.\<close>

definition gotStatus :: "string \<Rightarrow> http_request \<Rightarrow> http_request" where
  "gotStatus header r =
     (let code = extract_int (extract_word \<lparr>unread = header, good = True\<rparr>) in
      if code \<noteq> 0
      then let r = (if code = 200 \<and> (\<not> goesToEndOfFile (mRequestedRange r) \<or> startbyte (mRequestedRange r) \<noteq> 0)
                    then r\<lparr>mRequestedRange := Range_whole True,
                           received := dense_setLength (range_setBase (received r) 0) 0 True\<rparr>
                    else r)
           in r\<lparr>mStatusCode := code\<rparr>
      else r)"

text \<open>The position after the colon and the spaces that follow it.\<close>

function skip_spaces :: "string \<Rightarrow> nat \<Rightarrow> nat \<Rightarrow> nat" where
  "skip_spaces header endpos colon =
     (let colon = colon + 1 in
      if colon < endpos \<and> header ! colon = CHR '' '' then skip_spaces header endpos colon else colon)"
  by auto
termination by (relation "measure (\<lambda>(_, endpos, colon). endpos - colon)") auto

declare skip_spaces.simps [simp del]

definition gotHeader :: "string \<Rightarrow> http_request \<Rightarrow> http_request" where
  "gotHeader header r =
     (let colon = find_char CHR '':'' 0 header in
      if colon = npos then gotStatus header r
      else let headername = substr 0 colon header;
               endpos = length header;
               endpos = (if endpos > 2 \<and> header ! (endpos - 1) = CHR 0x0A \<and> header ! (endpos - 2) = CHR 0x0D
                         then endpos - 2 else endpos);
               colon = (if colon < endpos then skip_spaces header endpos colon else colon);
               headervalue = (if colon < endpos then substr colon (endpos - colon) header else []);
               headername = map tolower headername
           in if headername = ''content-length''
              then let dataToReserve = fst (extract_u64 0 \<lparr>unread = headervalue, good = True\<rparr>)
                   in if dataToReserve \<noteq> 0
                      then r\<lparr>received := dense_setLength (received r) dataToReserve (goesToEndOfFile (mRequestedRange r))\<rparr>
                      else r
              else r)"

section \<open>Setting up\<close>

definition allocDefaultCurl :: "string \<Rightarrow> curl_handle" where
  "allocDefaultCurl date =
     [(''VERBOSE'', Number 0), (''NOPROGRESS'', Number 1), (''NOSIGNAL'', Number 1), (''WRITEFUNCTION'', Function ''write_cb''),
      (''READFUNCTION'', Function ''read_cb''), (''HEADERFUNCTION'', Function ''header_cb''), (''FAILONERROR'', Number 1),
      (''USERAGENT'', Text (''Sirikata/0.1 ('' @ date @ '')'')), (''CONNECTTIMEOUT'', Number 5)]"

text \<open>The text of the range for the library, or \<open>None\<close> where none is set; the flag says that the range is invalid.\<close>

definition range_option :: "range \<Rightarrow> string option \<times> bool" where
  "range_option rng =
     (let nontrivialRange = (startbyte rng \<noteq> 0);
          text = (if startbyte rng \<noteq> 0 then show_u64 (startbyte rng) else []) @ ''-''
      in if \<not> goesToEndOfFile rng
         then if range_length rng = 0 then (None, True)
              else (Some (text @ show_u64 (endbyte rng)), False)
         else (if nontrivialRange then Some text else None, False))"

definition initCurlHandle :: "string \<Rightarrow> http_request \<Rightarrow> http_request" where
  "initCurlHandle date r =
     (let rng = mRequestedRange r;
          r = r\<lparr>mState := NEW, mStatusCode := 0, mOffset := 0, received := DenseData_range rng, mUploadOffset := 0,
                mCurlRequest := Some (allocDefaultCurl date
                  @ [(''WRITEDATA'', Self), (''READDATA'', Self), (''HEADERDATA'', Self), (''PRIVATE'', Self),
                     (''URL'', Text (uri_toString (request_uri r)))])\<rparr>;
          r = (if startbyte rng \<noteq> 0 then r\<lparr>mOffset := startbyte rng\<rparr> else r)
      in case range_option rng of
           (_, True) \<Rightarrow> call_back (mCallback r) (DenseData_range rng) True r
         | (None, False) \<Rightarrow> r
         | (Some text, False) \<Rightarrow> setopt ''RANGE'' (Text text) r)"

definition HTTPRequest_make :: "string \<Rightarrow> URI \<Rightarrow> range \<Rightarrow> http_request" where
  "HTTPRequest_make date uri rng = initCurlHandle date
     \<lparr>mPreventDeletion = False, mState = NEW, request_uri = uri, mRequestedRange = rng, mCallback = None, mCurlRequest = None,
      mHeaders = [], mCurlForm = [], mSimplePOSTString = [], mTypeDELETE = False, mStatusCode = 0, mUploadOffset = 0,
      mStreamUploadData = None, mDataReferences = [], mOffset = 0, received = DenseData_range rng, callbacks = []\<rparr>"

definition go_update_error :: http_error where
  "go_update_error = Logic_error ''Cannot set parameters after calling go()!''"

definition setPUTData :: "dense_data \<Rightarrow> http_request \<Rightarrow> http_error + http_request" where
  "setPUTData uploadData r =
     (if mState r \<noteq> NEW then Inl go_update_error
      else if mSimplePOSTString r \<noteq> [] then Inl (Logic_error ''setPUT after addSimplePOSTField.'')
      else if mCurlForm r \<noteq> [] then Inl (Logic_error ''setPUT after addPOSTData.'')
      else Inr (r\<lparr>mStreamUploadData := Some uploadData\<rparr>))"

definition setDELETE :: "http_request \<Rightarrow> http_error + http_request" where
  "setDELETE r =
     (if mState r \<noteq> NEW then Inl go_update_error
      else if mSimplePOSTString r \<noteq> [] then Inl (Logic_error ''setDELETE after addSimplePOSTField.'')
      else if mCurlForm r \<noteq> [] then Inl (Logic_error ''setDELETE after addPOSTData.'')
      else if mStreamUploadData r \<noteq> None then Inl (Logic_error ''setDELETE after setPUTData.'')
      else Inr (r\<lparr>mTypeDELETE := True\<rparr>))"

definition addPOSTData :: "string \<Rightarrow> string \<Rightarrow> dense_data \<Rightarrow> string \<Rightarrow> http_request \<Rightarrow> http_error + http_request" where
  "addPOSTData fieldname filename uploadData contentType r =
     (if mState r \<noteq> NEW then Inl go_update_error
      else if mStreamUploadData r \<noteq> None then Inl (Logic_error ''addPOSTData after setPUTData.'')
      else if mSimplePOSTString r \<noteq> [] then Inl (Logic_error ''addPOSTData after addSimplePOSTField.'')
      else Inr (r\<lparr>mDataReferences := mDataReferences r @ [uploadData],
                  mCurlForm := mCurlForm r @ [Form_data fieldname filename uploadData contentType]\<rparr>))"

definition addPOSTArray :: "string \<Rightarrow> (string \<times> dense_data) list \<Rightarrow> string \<Rightarrow> http_request \<Rightarrow> http_error + http_request" where
  "addPOSTArray fieldname fileData contentType r =
     (if mState r \<noteq> NEW then Inl go_update_error
      else if mStreamUploadData r \<noteq> None then Inl (Logic_error ''addPOSTArray after setPUTData.'')
      else if mSimplePOSTString r \<noteq> [] then Inl (Logic_error ''addPOSTArray after addSimplePOSTField.'')
      else Inr (r\<lparr>mDataReferences := mDataReferences r @ map snd fileData,
                  mCurlForm := mCurlForm r @ [Form_array fieldname fileData contentType]\<rparr>))"

definition addPOSTField :: "string \<Rightarrow> string \<Rightarrow> http_request \<Rightarrow> http_error + http_request" where
  "addPOSTField name value r =
     (if mState r \<noteq> NEW then Inl go_update_error
      else if mStreamUploadData r \<noteq> None then Inl (Logic_error ''addPOSTField after setPUTData.'')
      else if mSimplePOSTString r \<noteq> [] then Inl (Logic_error ''addPOSTData after addSimplePOSTField.'')
      else Inr (r\<lparr>mCurlForm := mCurlForm r @ [Form_field name value]\<rparr>))"

text \<open>\<open>escape\<close> is the function of the library that encodes a field.\<close>

definition addSimplePOSTField :: "(string \<Rightarrow> string) \<Rightarrow> string \<Rightarrow> string \<Rightarrow> http_request \<Rightarrow> http_error + http_request" where
  "addSimplePOSTField escape namestr valuestr r =
     (if mState r \<noteq> NEW then Inl go_update_error
      else if mStreamUploadData r \<noteq> None then Inl (Logic_error ''addSimplePOSTField after setPUTData.'')
      else if mCurlForm r \<noteq> [] then Inl (Logic_error ''addSimplePOSTField after addPOSTData.'')
      else Inr (r\<lparr>mSimplePOSTString := mSimplePOSTString r @ (if mSimplePOSTString r \<noteq> [] then ''&'' else [])
                     @ escape namestr @ ''='' @ escape valuestr\<rparr>))"

definition setSimplePOSTString :: "string \<Rightarrow> http_request \<Rightarrow> http_error + http_request" where
  "setSimplePOSTString postString r =
     (if mState r \<noteq> NEW then Inl go_update_error
      else if mStreamUploadData r \<noteq> None then Inl (Logic_error ''setSimplePOSTString after setPUTData.'')
      else if mCurlForm r \<noteq> [] then Inl (Logic_error ''setSimplePOSTString after addPOSTData.'')
      else Inr (r\<lparr>mSimplePOSTString := postString\<rparr>))"

definition addHeader :: "string \<Rightarrow> http_request \<Rightarrow> http_error + http_request" where
  "addHeader header r =
     (if mState r \<noteq> NEW then Inl go_update_error else Inr (r\<lparr>mHeaders := mHeaders r @ [header]\<rparr>))"

definition setCallback :: "nat \<Rightarrow> http_request \<Rightarrow> http_request" where
  "setCallback cb r = r\<lparr>mCallback := Some cb\<rparr>"

section \<open>Starting and ending\<close>

text \<open>What is known of servers: hosts that do not support \<open>Expect: 100-continue\<close>.\<close>

type_synonym server_properties = "string \<rightharpoonup> bool"

definition getProperties :: "URI \<Rightarrow> server_properties \<Rightarrow> bool" where
  "getProperties uri props = (case props (mHost (mContext uri)) of None \<Rightarrow> False | Some b \<Rightarrow> b)"

definition set_request_type :: "http_request \<Rightarrow> http_error + http_request" where
  "set_request_type r =
     (let proto = mProto (mContext (request_uri r)); file = mPath (request_uri r) in
      if mCurlForm r \<noteq> [] then Inr (setopt ''HTTPPOST'' (Form (mCurlForm r)) r)
      else if mSimplePOSTString r \<noteq> []
      then Inr (setopt ''POSTFIELDS'' (Text (mSimplePOSTString r))
             (setopt ''POSTFIELDSIZE_LARGE'' (Number (int (length (mSimplePOSTString r)))) (setopt ''POST'' (Number 1) r)))
      else case mStreamUploadData r of
             Some d \<Rightarrow> Inr (setopt ''INFILESIZE_LARGE'' (Number (uint (range_length d))) (setopt ''UPLOAD'' (Number 1) r))
           | None \<Rightarrow>
               if mTypeDELETE r
               then let r = setopt ''NOBODY'' (Number 1) r in
                 if proto = ''http'' \<or> proto = ''https'' then Inr (setopt ''CUSTOMREQUEST'' (Text ''DELETE'') r)
                 else if proto = ''ftp'' then addHeader (''DELE '' @ file) r
                 else if proto = ''sftp'' then addHeader (''rm '' @ file) r
                 else Inr r
               else Inr r)"

definition setFinalProperties :: "server_properties \<Rightarrow> http_request \<Rightarrow> http_error + http_request" where
  "setFinalProperties props r =
     (if mState r \<noteq> NEW then Inl go_update_error
      else sum_bind (set_request_type r) (\<lambda>r.
           sum_bind (if getProperties (request_uri r) props then addHeader ''Expect:'' r else Inr r) (\<lambda>r.
             let proto = mProto (mContext (request_uri r));
                 r = (if mHeaders r \<noteq> []
                      then if proto = ''http'' \<or> proto = ''https'' then setopt ''HTTPHEADER'' (Lines (mHeaders r)) r
                           else if proto = ''ftp'' \<or> proto = ''sftp'' then setopt ''QUOTE'' (Lines (mHeaders r)) r
                           else r
                      else r)
             in Inr (r\<lparr>mState := INPROGRESS\<rparr>))))"

definition http_go :: "server_properties \<Rightarrow> http_request \<Rightarrow> http_error + http_request" where
  "http_go props r =
     (if mState r \<noteq> NEW then Inl go_update_error
      else sum_bind (setFinalProperties props r) (\<lambda>r. Inr (r\<lparr>mPreventDeletion := True\<rparr>)))"

text \<open>The end of a request in \<open>curlLoop\<close> and in \<open>abort\<close>: the callback is taken out before it is called.\<close>

definition finish_request :: "bool \<Rightarrow> http_request \<Rightarrow> http_request" where
  "finish_request success r =
     call_back (mCallback r) (received r) success
       (r\<lparr>mCurlRequest := None, mState := FINISHED, mCallback := None, mPreventDeletion := False\<rparr>)"

text \<open>\<open>curlLoop\<close> when the library reports the end of a transfer with its result and the status of the answer.\<close>

definition transfer_done :: "string \<Rightarrow> bool \<Rightarrow> int \<Rightarrow> server_properties \<Rightarrow> http_request
    \<Rightarrow> http_error + (server_properties \<times> http_request)" where
  "transfer_done date result code props r =
     (let r = r\<lparr>mStatusCode := code\<rparr>; retry = (\<not> result \<and> code = 417) in
      if retry
      then let props = props(mHost (mContext (request_uri r)) \<mapsto> True)
           in sum_bind (setFinalProperties props (initCurlHandle date r)) (\<lambda>r. Inr (props, r))
      else Inr (props, finish_request result r))"

definition http_abort :: "http_request \<Rightarrow> http_request" where
  "http_abort r = finish_request False (r\<lparr>mState := FINISHED\<rparr>)"

end
