(* ===== verification/HTTP_Transfer.thy ===== *)
theory HTTP_Transfer
  imports HTTP_Request
begin

text \<open>
  The bytes of a transfer over HTTP: what a download holds once the parts of the body have been written, and what an
  upload sends. The answer of the server is described as the protocol documents it (\<open>serve_range\<close>), and the answer
  and the text of the range the request asks for (\<open>range_option\<close>) meet in the properties at the end.
\<close>

section \<open>The answer of a server\<close>

text \<open>
  The bytes of a file that a range asks for: \<open>a-b\<close> is the bytes from \<open>a\<close> to \<open>b\<close>, both included; \<open>a-\<close> the bytes from
  \<open>a\<close>; \<open>-n\<close> the last \<open>n\<close> bytes. Without a range it is the file.
\<close>

definition serve_range :: "string option \<Rightarrow> u8 list \<Rightarrow> u8 list" where
  "serve_range asked file =
     (case asked of
        None \<Rightarrow> file
      | Some t \<Rightarrow>
          let a = takeWhile is_digit t; b = drop 1 (dropWhile is_digit t) in
          if a = [] then drop (length file - digits_value 0 b) file
          else if b = [] then drop (digits_value 0 a) file
          else take (digits_value 0 b + 1 - digits_value 0 a) (drop (digits_value 0 a) file))"

definition status_line :: "string \<Rightarrow> string" where
  "status_line code = ''HTTP/1.1 '' @ code @ [CHR 0x0D, CHR 0x0A]"

definition content_length_line :: "nat \<Rightarrow> string" where
  "content_length_line n = ''Content-Length: '' @ show_nat n @ [CHR 0x0D, CHR 0x0A]"

text \<open>The calls of the library for an answer: the status, the length of the body, and its parts.\<close>

definition http_answer :: "string \<Rightarrow> u8 list list \<Rightarrow> http_request \<Rightarrow> http_error + (nat list \<times> http_request)" where
  "http_answer code parts r =
     http_writes parts (gotHeader (content_length_line (length (concat parts))) (gotHeader (status_line code) r))"

section \<open>Parts of a body\<close>

lemma overwrite_overwrite:
  "k \<le> length a \<Longrightarrow> overwrite (k + length b) c (overwrite k b a) = overwrite k (b @ c) a"
  by (simp add: overwrite_def ac_simps)

lemma overwrite_padded:
  "overwrite k b (vec_resize a (k + length b)) = overwrite k b (a @ replicate (k - length a) 0)"
  if "length a < k + length b"
  using that by (auto simp: overwrite_def vec_resize_def)

lemma sint_offset: "k < 2 ^ 63 \<Longrightarrow> sint (of_nat k :: u64) = int k \<and> unat (of_nat k :: u64) = k"
  by (simp add: sint_small unat_of_nat_eq)

lemma http_write_pads:
  assumes ok: "dense_ok (received r)" and off: "mOffset r = mStart (received r) + of_nat k" and small: "k + length bs < 2 ^ 63"
  shows "\<exists>d. http_write bs r = Inr (length bs, r\<lparr>received := d, mOffset := mOffset r + of_nat (length bs)\<rparr>)
    \<and> dense_ok d \<and> mStart d = mStart (received r)
    \<and> mData d = overwrite k bs (mData (received r) @ replicate (k - length (mData (received r))) 0)"
proof -
  let ?d = "received r" and ?need = "of_nat k + of_nat (length bs) :: u64"
  let ?a = "mData ?d @ replicate (k - length (mData ?d)) 0"
  have k: "sint (of_nat k :: u64) = int k" "unat (of_nat k :: u64) = k" using sint_offset [of k] small by simp_all
  have need: "unat ?need = k + length bs" using unat_of_nat_eq [of "k + length bs", where 'a = 64] small by simp
  have less: "range_length ?d < ?need \<longleftrightarrow> length (mData ?d) < k + length bs"
    using need ok by (simp add: word_less_nat_alt dense_ok_def range_length_def)
  show ?thesis
  proof (cases "length (mData ?d) < k + length bs")
    case True
    let ?e = "dense_setLength ?d ?need (goesToEndOfFile (mRequestedRange r))"
    have "mData ?e = vec_resize (mData ?d) (k + length bs)" by (simp add: dense_setLength_def need)
    moreover have "mStart ?e = mStart ?d" "unat (mLength ?e) = k + length bs"
      by (simp_all add: dense_setLength_def range_setLength_def need del: of_nat_add)
    moreover have "length (overwrite k bs ?a) = k + length bs" using True by (simp add: overwrite_def)
    ultimately show ?thesis
      using True less off k
      by (intro exI [of _ "?e\<lparr>mData := overwrite k bs ?a\<rparr>"])
        (simp add: http_write_def startbyte_def Let_def overwrite_padded dense_ok_def)
  next
    case False
    then show ?thesis
      using less off k ok
      by (intro exI [of _ "?d\<lparr>mData := overwrite k bs ?a\<rparr>"])
        (simp add: http_write_def startbyte_def Let_def dense_ok_def)
  qed
qed

lemma http_writes_data:
  assumes "dense_ok (received r)" "mOffset r = mStart (received r) + of_nat k" "k + length (concat parts) < 2 ^ 63"
    "k \<le> length (mData (received r))"
  shows "\<exists>r'. http_writes parts r = Inr (map length parts, r') \<and> mStart (received r') = mStart (received r)
    \<and> dense_ok (received r') \<and> mData (received r') = overwrite k (concat parts) (mData (received r))"
  using assms
proof (induction parts arbitrary: r k)
  case (Cons bs parts)
  obtain d where d: "http_write bs r = Inr (length bs, r\<lparr>received := d, mOffset := mOffset r + of_nat (length bs)\<rparr>)"
    "dense_ok d" "mStart d = mStart (received r)" "mData d = overwrite k bs (mData (received r))"
    using http_write_pads [of r k bs] Cons.prems by auto
  let ?r = "r\<lparr>received := d, mOffset := mOffset r + of_nat (length bs)\<rparr>"
  have "k + length bs \<le> length (mData d)" using d(4) Cons.prems(4) by (simp add: overwrite_def)
  then obtain r' where "http_writes parts ?r = Inr (map length parts, r')" "mStart (received r') = mStart d"
    "dense_ok (received r')" "mData (received r') = overwrite (k + length bs) (concat parts) (mData d)"
    using Cons.IH [of ?r "k + length bs"] d Cons.prems(2,3) by (auto simp: add.assoc)
  then show ?case using d Cons.prems(4) by (simp add: overwrite_overwrite)
qed simp

lemma http_writes_padded:
  assumes "dense_ok (received r)" "mOffset r = mStart (received r) + of_nat k" "k + length (concat parts) < 2 ^ 63" "parts \<noteq> []"
  shows "\<exists>r'. http_writes parts r = Inr (map length parts, r') \<and> mStart (received r') = mStart (received r)
    \<and> dense_ok (received r')
    \<and> mData (received r') = overwrite k (concat parts) (mData (received r) @ replicate (k - length (mData (received r))) 0)"
proof -
  obtain bs rest where parts: "parts = bs # rest" using assms(4) by (cases parts) auto
  let ?a = "mData (received r) @ replicate (k - length (mData (received r))) 0"
  obtain d where d: "http_write bs r = Inr (length bs, r\<lparr>received := d, mOffset := mOffset r + of_nat (length bs)\<rparr>)"
    "dense_ok d" "mStart d = mStart (received r)" "mData d = overwrite k bs ?a"
    using http_write_pads [of r k bs] assms(1-3) parts by auto
  let ?r = "r\<lparr>received := d, mOffset := mOffset r + of_nat (length bs)\<rparr>"
  have "k + length bs \<le> length (mData d)" using d(4) by (simp add: overwrite_def)
  then obtain r' where "http_writes rest ?r = Inr (map length rest, r')" "mStart (received r') = mStart d"
    "dense_ok (received r')" "mData (received r') = overwrite (k + length bs) (concat rest) (mData d)"
    using http_writes_data [of ?r "k + length bs" rest] d assms(2,3) parts by (auto simp: add.assoc)
  then show ?thesis using d parts by (simp add: overwrite_overwrite)
qed

section \<open>Headers of an answer\<close>

lemma scan_shown_end: "scan_number (show_nat n) = (False, show_nat n, [])"
proof -
  have d: "list_all is_digit (show_nat n)" using show_nat_value by blast
  then have "takeWhile is_digit (show_nat n) = show_nat n" "dropWhile is_digit (show_nat n) = []"
    by (simp_all add: list_all_iff)
  moreover obtain x xs where "show_nat n = x # xs" by (cases "show_nat n") auto
  moreover from this have "x \<noteq> CHR ''-'' \<and> x \<noteq> CHR ''+''" using d IsSpace_digit by simp
  ultimately show ?thesis by (auto simp: scan_number_def)
qed

lemma extract_shown_end: "n < 2 ^ 64 \<Longrightarrow> fst (extract_u64 0 \<lparr>unread = show_nat n, good = True\<rparr>) = of_nat n"
  using dropWhile_space_shown(1) [of n "[]"] show_nat_value [of n]
  by (simp add: extract_u64_def extract_num_def scan_shown_end)

lemma hd_shown: "show_nat n ! 0 \<noteq> CHR '' ''"
proof -
  obtain x xs where "show_nat n = x # xs" by (cases "show_nat n") auto
  moreover from this have "is_digit x" using show_nat_value [of n] by simp
  ultimately show ?thesis using IsSpace_digit [of x] by auto
qed

lemma gotHeader_length:
  assumes "0 < n" "n < 2 ^ 64"
  shows "gotHeader (content_length_line n) r
    = r\<lparr>received := dense_setLength (received r) (of_nat n) (goesToEndOfFile (mRequestedRange r))\<rparr>"
proof -
  let ?h = "content_length_line n" and ?e = "16 + length (show_nat n)"
  have len: "length ?h = ?e + 2" by (simp add: content_length_line_def)
  have colon: "find_char CHR '':'' 0 ?h = 14" by (simp add: content_length_line_def find_char_def)
  have crlf: "?h ! (?e + 1) = CHR 0x0A" "?h ! ?e = CHR 0x0D" by (simp_all add: content_length_line_def nth_append)
  have "?h ! 15 = CHR '' ''" "?h ! 16 = show_nat n ! 0" by (simp_all add: content_length_line_def nth_append)
  then have skip: "skip_spaces ?h ?e 14 = 16"
    using hd_shown [of n] by (simp add: skip_spaces.simps [of _ _ 14] skip_spaces.simps [of _ _ 15])
  have vals: "substr 16 (length (show_nat n)) ?h = show_nat n" "substr 0 14 ?h = ''Content-Length''"
    by (simp_all add: content_length_line_def substr_def)
  have low: "map tolower ''Content-Length'' = ''content-length''" by code_simp
  have "(of_nat n :: u64) \<noteq> 0" using assms unat_of_nat_eq [of n, where 'a = 64] by (auto simp del: word_of_nat_eq_0_iff)
  then show ?thesis
    using assms(2) len colon crlf skip vals low by (simp add: gotHeader_def Let_def npos_def extract_shown_end)
qed

lemma gotHeader_status:
  "gotHeader (status_line ''206'') r = r\<lparr>mStatusCode := 206\<rparr>"
  "gotHeader (status_line ''200'') r = (if goesToEndOfFile (mRequestedRange r) \<and> startbyte (mRequestedRange r) = 0
     then r\<lparr>mStatusCode := 200\<rparr>
     else r\<lparr>mRequestedRange := Range_whole True, received := dense_setLength (range_setBase (received r) 0) 0 True,
            mStatusCode := 200\<rparr>)"
proof -
  have "find_char CHR '':'' 0 (status_line ''206'') = npos" "find_char CHR '':'' 0 (status_line ''200'') = npos"
    by (simp_all add: find_char_def status_line_def)
  moreover have "extract_int (extract_word \<lparr>unread = status_line ''206'', good = True\<rparr>) = 206"
    "extract_int (extract_word \<lparr>unread = status_line ''200'', good = True\<rparr>) = 200"
    by (simp_all add: extract_int_def extract_word_def extract_num_def scan_number_def status_line_def IsSpace_def
        is_digit_def char_digit_def)
  ultimately show "gotHeader (status_line ''206'') r = r\<lparr>mStatusCode := 206\<rparr>"
    "gotHeader (status_line ''200'') r = (if goesToEndOfFile (mRequestedRange r) \<and> startbyte (mRequestedRange r) = 0
     then r\<lparr>mStatusCode := 200\<rparr>
     else r\<lparr>mRequestedRange := Range_whole True, received := dense_setLength (range_setBase (received r) 0) 0 True,
            mStatusCode := 200\<rparr>)"
    by (simp_all add: gotHeader_def gotStatus_def Let_def)
qed

section \<open>Downloads\<close>

lemma HTTPRequest_make_simps:
  "received (HTTPRequest_make date uri rng) = DenseData_range rng"
  "mOffset (HTTPRequest_make date uri rng) = startbyte rng"
  "mRequestedRange (HTTPRequest_make date uri rng) = rng"
  by (simp_all add: HTTPRequest_make_def initCurlHandle_def Let_def call_back_def setopt_def split: prod.split bool.split option.split)

lemma length_and_parts:
  assumes "mOffset r = mStart (received r)" "concat parts \<noteq> []" "length (concat parts) < 2 ^ 63"
  shows "\<exists>r'. http_writes parts (gotHeader (content_length_line (length (concat parts))) r) = Inr (map length parts, r')
    \<and> mStart (received r') = mStart (received r) \<and> dense_ok (received r') \<and> mData (received r') = concat parts"
proof -
  let ?n = "length (concat parts)"
  let ?d = "dense_setLength (received r) (of_nat ?n) (goesToEndOfFile (mRequestedRange r))"
  have hdr: "gotHeader (content_length_line ?n) r = r\<lparr>received := ?d\<rparr>" using assms(2,3) by (intro gotHeader_length) simp_all
  have "dense_ok ?d" by (rule dense_setLength_ok)
  moreover have "mStart ?d = mStart (received r)" "length (mData ?d) = ?n"
    using assms(3) unat_of_nat_eq [of ?n, where 'a = 64]
    by (simp_all add: dense_setLength_def range_setLength_def)
  ultimately show ?thesis
    using http_writes_data [of "r\<lparr>received := ?d\<rparr>" 0 parts] assms(1,3) hdr by (simp add: overwrite_def)
qed

lemma partial_answer:
  assumes "concat parts \<noteq> []" "length (concat parts) < 2 ^ 63"
  shows "\<exists>r'. http_answer ''206'' parts (HTTPRequest_make date uri rng) = Inr (map length parts, r')
    \<and> startbyte (received r') = startbyte rng \<and> dense_ok (received r') \<and> mData (received r') = concat parts"
  using length_and_parts [of "gotHeader (status_line ''206'') (HTTPRequest_make date uri rng)" parts] assms
  by (simp add: http_answer_def gotHeader_status HTTPRequest_make_simps DenseData_range_def startbyte_def)

lemma whole_answer:
  assumes "concat parts \<noteq> []" "length (concat parts) < 2 ^ 63"
  shows "\<exists>r'. http_answer ''200'' parts (HTTPRequest_make date uri (Range_whole True)) = Inr (map length parts, r')
    \<and> startbyte (received r') = 0 \<and> dense_ok (received r') \<and> mData (received r') = concat parts"
  using length_and_parts [of "gotHeader (status_line ''200'') (HTTPRequest_make date uri (Range_whole True))" parts] assms
  by (simp add: http_answer_def gotHeader_status HTTPRequest_make_simps DenseData_range_def accessor_defs)

text \<open>
  A server that does not understand ranges answers 200 with the whole file. The base of the block and the requested
  range are reset, the position of the next part is not: the file is stored behind as many zero bytes.
\<close>

lemma whole_answer_shifted:
  assumes "startbyte rng \<noteq> 0" "concat parts \<noteq> []" "unat (startbyte rng) + length (concat parts) < 2 ^ 63"
  shows "\<exists>r'. http_answer ''200'' parts (HTTPRequest_make date uri rng) = Inr (map length parts, r')
    \<and> startbyte (received r') = 0
    \<and> mData (received r') = replicate (unat (startbyte rng)) 0 @ concat parts"
proof -
  let ?n = "length (concat parts)" and ?r = "gotHeader (status_line ''200'') (HTTPRequest_make date uri rng)"
  let ?d = "dense_setLength (received ?r) (of_nat ?n) True"
  have r: "mRequestedRange ?r = Range_whole True" "mStart (received ?r) = 0" "mOffset ?r = startbyte rng" "mData (received ?r) = []"
    using assms(1) by (simp_all add: gotHeader_status HTTPRequest_make_simps accessor_defs dense_setLength_def vec_resize_def)
  then have hdr: "gotHeader (content_length_line ?n) ?r = ?r\<lparr>received := ?d\<rparr>"
    using assms(2,3) gotHeader_length [of ?n ?r] by (simp add: accessor_defs)
  have "mStart ?d = 0" "mData ?d = replicate ?n 0"
    using assms(3) unat_of_nat_eq [of ?n, where 'a = 64] r(2,4)
    by (simp_all add: dense_setLength_def range_setLength_def vec_resize_def)
  moreover have "parts \<noteq> []" using assms(2) by auto
  ultimately show ?thesis
    using http_writes_padded [of "?r\<lparr>received := ?d\<rparr>" "unat (startbyte rng)" parts] dense_setLength_ok assms(3) hdr r
    by (auto simp: http_answer_def startbyte_def overwrite_def simp flip: replicate_add)
qed

lemma digits_split [simp]:
  "takeWhile is_digit (show_nat n @ CHR ''-'' # s) = show_nat n" "dropWhile is_digit (show_nat n @ CHR ''-'' # s) = CHR ''-'' # s"
  "digits_value 0 (show_nat n) = n" "\<not> is_digit (CHR ''-'')"
proof -
  have minus: "\<not> is_digit (CHR ''-'')" by (simp add: is_digit_def char_digit_def)
  have "list_all is_digit (show_nat n)" using show_nat_value by blast
  with minus show "takeWhile is_digit (show_nat n @ CHR ''-'' # s) = show_nat n"
    "dropWhile is_digit (show_nat n @ CHR ''-'' # s) = CHR ''-'' # s"
    by (auto simp: list_all_iff takeWhile_tail dropWhile_append2)
  show "digits_value 0 (show_nat n) = n" using show_nat_value by blast
  show "\<not> is_digit (CHR ''-'')" by (rule minus)
qed

text \<open>What a server sends for the text of a range.\<close>

lemma served_bytes:
  "goesToEndOfFile rng \<Longrightarrow> serve_range (fst (range_option rng)) file = drop (unat (startbyte rng)) file"
  "\<not> goesToEndOfFile rng \<Longrightarrow> range_length rng \<noteq> 0 \<Longrightarrow> serve_range (fst (range_option rng)) file
     = (if startbyte rng = 0 then drop (length file - unat (endbyte rng)) file
        else take (unat (endbyte rng) + 1 - unat (startbyte rng)) (drop (unat (startbyte rng)) file))"
  by (simp_all add: serve_range_def range_option_def show_u64_def Let_def)

section \<open>Uploads\<close>

text \<open>The reads of the library return the bytes of the block in order, up to its end.\<close>

lemma http_reads_bytes:
  assumes "mStreamUploadData r = Some d" "dense_ok d" "mUploadOffset r = of_nat k" "k \<le> length (mData d)"
  shows "concat (fst (http_reads ns r)) = take (sum_list ns) (drop k (mData d))"
  using assms
proof (induction ns arbitrary: r k)
  case (Cons n ns)
  have small: "length (mData d) < 2 ^ 64" using Cons.prems(2) unsigned_less [of "mLength d", where 'a = nat] by (simp add: dense_ok_def)
  then have k: "unat (mUploadOffset r) = k" using Cons.prems(3,4) unat_of_nat_eq [of k, where 'a = 64] by simp
  have le: "mUploadOffset r \<ge> range_length d \<longleftrightarrow> length (mData d) \<le> k"
    using k Cons.prems(2) by (simp add: word_le_nat_alt dense_ok_def range_length_def)
  let ?m = "min n (length (mData d) - k)"
  have "http_read n r = (take n (drop k (mData d)), r\<lparr>mUploadOffset := of_nat (k + ?m)\<rparr>)"
  proof (cases "length (mData d) \<le> k")
    case True
    then show ?thesis using le Cons.prems by (simp add: http_read_def)
  next
    case False
    then have "unat (range_length d - mUploadOffset r) = length (mData d) - k"
      using le k Cons.prems(2) by (simp add: unat_sub dense_ok_def range_length_def)
    then show ?thesis
      using False le k Cons.prems(1,3) by (auto simp: http_read_def Let_def min_def)
  qed
  then show ?case
    using Cons.IH [of "r\<lparr>mUploadOffset := of_nat (k + ?m)\<rparr>" "k + ?m"] Cons.prems(1,2,4)
    by (cases "n \<le> length (mData d) - k") (auto simp: take_add ac_simps split: prod.split)
qed simp

section \<open>Properties\<close>

text \<open>
  C28: a download of a file from a position to its end holds exactly those bytes, however the server cuts the body into
  parts and whatever the position: the text of the range asks for them, every part is taken in full, and the block that
  is passed on begins at the position and has the length of the body. This is the answer 206 of a server that
  understands ranges; a request for the whole file is answered with 200.
\<close>

theorem http_download_to_end:
  assumes "unat s < length file" "length file < 2 ^ 63" "concat parts = serve_range (fst (range_option (Range_from s True))) file"
  shows "\<exists>r'. http_answer (if s = 0 then ''200'' else ''206'') parts (HTTPRequest_make date uri (Range_from s True))
      = Inr (map length parts, r')
    \<and> startbyte (received r') = s \<and> mData (received r') = drop (unat s) file
    \<and> unat (range_length (received r')) = length file - unat s"
proof -
  have body: "concat parts = drop (unat s) file"
    using assms(3) served_bytes(1) [of "Range_from s True"] by (simp add: accessor_defs)
  then have ok: "concat parts \<noteq> []" "length (concat parts) < 2 ^ 63" using assms(1,2) by simp_all
  have "s = 0 \<Longrightarrow> Range_from s True = Range_whole True" by (simp add: accessor_defs)
  then show ?thesis
    using whole_answer [OF ok, of date uri] partial_answer [OF ok, of date uri "Range_from s True"] body
    by (auto simp: dense_ok_def accessor_defs split: if_splits)
qed

theorem http_download_to_end_witness:
  "\<exists>r'. http_answer ''206'' [[30], [40, 50]] (HTTPRequest_make [] (URI_absolute ''http://h/f'') (Range_from 2 True))
      = Inr ([1, 2], r') \<and> startbyte (received r') = 2 \<and> mData (received r') = [30, 40, 50]"
proof -
  have "concat [[30], [40, 50 :: u8]] = serve_range (fst (range_option (Range_from 2 True))) [10, 20, 30, 40, 50]"
    using served_bytes(1) [of "Range_from 2 True" "[10, 20, 30, 40, 50]"] by (simp add: accessor_defs)
  with http_download_to_end [of 2 "[10, 20, 30, 40, 50]" "[[30], [40, 50]]" "[]" "URI_absolute ''http://h/f''"]
  show ?thesis by auto
qed

text \<open>
  C29: a bounded range is not what is asked for. For the first \<open>n\<close> bytes of a longer file the text is \<open>-n\<close>, which asks
  for the last \<open>n\<close> bytes: they are passed on as the bytes from \<open>0\<close> to \<open>n\<close>. For a range that begins later the end,
  which the protocol includes, is one too far: one byte more than the range arrives.
\<close>

theorem http_bounded_range_wrong:
  assumes "range_ok rng" "\<not> goesToEndOfFile rng" "unat (endbyte rng) < length file" "length file < 2 ^ 63"
    "concat parts = serve_range (fst (range_option rng)) file"
  shows "\<exists>r'. http_answer ''206'' parts (HTTPRequest_make date uri rng) = Inr (map length parts, r')
    \<and> startbyte (received r') = startbyte rng
    \<and> mData (received r')
        = (if startbyte rng = 0 then drop (length file - unat (range_length rng)) file
           else take (unat (range_length rng) + 1) (drop (unat (startbyte rng)) file))
    \<and> unat (range_length (received r')) = unat (range_length rng) + (if startbyte rng = 0 then 0 else 1)"
proof -
  have len: "range_length rng \<noteq> 0" using assms(1) by (simp add: range_ok_iff range_length_def)
  have sum: "unat (endbyte rng) = unat (startbyte rng) + unat (range_length rng)" by (rule endbyte_unat [OF assms(1)])
  have body: "concat parts = (if startbyte rng = 0 then drop (length file - unat (range_length rng)) file
      else take (unat (range_length rng) + 1) (drop (unat (startbyte rng)) file))"
    using assms(5) served_bytes(2) [OF assms(2) len] sum by simp
  have n: "0 < unat (range_length rng)" using len by (simp add: unat_gt_0)
  then have count: "length (concat parts) = unat (range_length rng) + (if startbyte rng = 0 then 0 else 1)"
    unfolding body using sum assms(3) by (cases "startbyte rng = 0") simp_all
  then have "length (concat parts) \<noteq> 0" "length (concat parts) < 2 ^ 63" using n sum assms(3,4) by (auto split: if_splits)
  from partial_answer [OF this [unfolded length_0_conv], of date uri rng] show ?thesis
    using body count by (auto simp: dense_ok_def range_length_def)
qed

theorem http_bounded_range_wrong_witness:
  "\<exists>r'. http_answer ''206'' [[50, 60, 70]] (HTTPRequest_make [] (URI_absolute ''http://h/f'') (Range_make 0 3 Init_BOUNDS False))
      = Inr ([3], r') \<and> startbyte (received r') = 0 \<and> mData (received r') = [50, 60, 70]"
proof -
  let ?rng = "Range_make 0 3 Init_BOUNDS False" and ?file = "[10, 20, 30, 40, 50, 60, 70] :: u8 list"
  have rng: "range_ok ?rng" "\<not> goesToEndOfFile ?rng" "unat (endbyte ?rng) < length ?file" "length ?file < 2 ^ 63"
    by (simp_all add: range_ok_def accessor_defs)
  moreover have "concat [[50, 60, 70]] = serve_range (fst (range_option ?rng)) ?file"
    using served_bytes(2) [of ?rng ?file] by (simp add: accessor_defs)
  ultimately show ?thesis
    using http_bounded_range_wrong [of ?rng ?file "[[50, 60, 70]]" "[]" "URI_absolute ''http://h/f''"]
    by (auto simp: accessor_defs)
qed

end
