(* ===== verification/HTTP_Lifecycle.thy ===== *)
theory HTTP_Lifecycle
  imports HTTP_Request
begin

text \<open>
  The life of a request over HTTP, as the sequence of calls of its owner (setting it up, starting it, aborting it) and
  of the library (headers, parts of the body, reads of an upload, the end of the transfer). Every call runs to its end
  before the next one. The library calls only for a request that has been started and is not finished.
\<close>

section \<open>Steps\<close>

datatype setup_call =
    Put dense_data
  | Delete
  | Post_data string string dense_data string
  | Post_array string "(string \<times> dense_data) list" string
  | Post_field string string
  | Simple_field string string
  | Simple_string string
  | Header string

fun http_setup :: "(string \<Rightarrow> string) \<Rightarrow> setup_call \<Rightarrow> http_request \<Rightarrow> http_error + http_request" where
  "http_setup escape (Put d) r = setPUTData d r"
| "http_setup escape Delete r = setDELETE r"
| "http_setup escape (Post_data fieldname filename d contentType) r = addPOSTData fieldname filename d contentType r"
| "http_setup escape (Post_array fieldname files contentType) r = addPOSTArray fieldname files contentType r"
| "http_setup escape (Post_field name value) r = addPOSTField name value r"
| "http_setup escape (Simple_field name value) r = addSimplePOSTField escape name value r"
| "http_setup escape (Simple_string s) r = setSimplePOSTString s r"
| "http_setup escape (Header h) r = addHeader h r"

inductive http_step :: "(string \<Rightarrow> string) \<Rightarrow> string \<Rightarrow> server_properties \<times> http_request
    \<Rightarrow> server_properties \<times> http_request \<Rightarrow> bool"
  for escape date where
  set_up: "http_setup escape c r = Inr r' \<Longrightarrow> http_step escape date (p, r) (p, r')"
| start: "http_go p r = Inr r' \<Longrightarrow> http_step escape date (p, r) (p, r')"
| header: "mState r = INPROGRESS \<Longrightarrow> http_step escape date (p, r) (p, gotHeader h r)"
| part: "mState r = INPROGRESS \<Longrightarrow> http_write bs r = Inr (n, r') \<Longrightarrow> http_step escape date (p, r) (p, r')"
| send: "mState r = INPROGRESS \<Longrightarrow> http_step escape date (p, r) (p, snd (http_read n r))"
| over: "mState r = INPROGRESS \<Longrightarrow> transfer_done date result code p r = Inr (p', r')
    \<Longrightarrow> http_step escape date (p, r) (p', r')"
| abort: "http_step escape date (p, r) (p, http_abort r)"
| elsewhere: "http_step escape date (p, r) (p', r)"

text \<open>Other requests may learn about servers in between: the last rule.\<close>

section \<open>The fields a step leaves alone\<close>

lemmas setup_defs = setPUTData_def setDELETE_def addPOSTData_def addPOSTArray_def addPOSTField_def addSimplePOSTField_def
  setSimplePOSTString_def addHeader_def

text \<open>A range that asks for something: not the empty range, for which the callback is called at once.\<close>

definition asks_bytes :: "range \<Rightarrow> bool" where
  "asks_bytes rng \<longleftrightarrow> goesToEndOfFile rng \<or> range_length rng \<noteq> 0"

lemma initCurlHandle_simps:
  assumes "asks_bytes (mRequestedRange r)"
  shows "mState (initCurlHandle date r) = NEW" "callbacks (initCurlHandle date r) = callbacks r"
    "mCallback (initCurlHandle date r) = mCallback r" "mRequestedRange (initCurlHandle date r) = mRequestedRange r"
    "request_uri (initCurlHandle date r) = request_uri r" "mHeaders (initCurlHandle date r) = mHeaders r"
    "mTypeDELETE (initCurlHandle date r) = mTypeDELETE r" "mCurlForm (initCurlHandle date r) = mCurlForm r"
    "mSimplePOSTString (initCurlHandle date r) = mSimplePOSTString r"
    "mStreamUploadData (initCurlHandle date r) = mStreamUploadData r"
  using assms
  by (auto simp: initCurlHandle_def range_option_def asks_bytes_def Let_def setopt_def)

lemma setopt_simps [simp]:
  "mState (setopt opt v r) = mState r" "callbacks (setopt opt v r) = callbacks r" "mCallback (setopt opt v r) = mCallback r"
  "mRequestedRange (setopt opt v r) = mRequestedRange r" "request_uri (setopt opt v r) = request_uri r"
  "mHeaders (setopt opt v r) = mHeaders r" "mTypeDELETE (setopt opt v r) = mTypeDELETE r"
  "mCurlForm (setopt opt v r) = mCurlForm r" "mSimplePOSTString (setopt opt v r) = mSimplePOSTString r"
  "mStreamUploadData (setopt opt v r) = mStreamUploadData r"
  by (simp_all add: setopt_def)

text \<open>What the invariants speak of, apart from the state and the body.\<close>

definition bookkeeping :: "http_request \<Rightarrow> nat option \<times> (nat \<times> dense_data \<times> bool) list \<times> range" where
  "bookkeeping r = (mCallback r, callbacks r, mRequestedRange r)"

definition body_fields :: "http_request \<Rightarrow> form_part list \<times> string \<times> dense_data option" where
  "body_fields r = (mCurlForm r, mSimplePOSTString r, mStreamUploadData r)"

lemmas field_defs = bookkeeping_def body_fields_def

lemma body_fields_update [simp]:
  "body_fields (r\<lparr>mStatusCode := code\<rparr>) = body_fields r" "body_fields (r\<lparr>mState := st\<rparr>) = body_fields r"
  by (simp_all add: body_fields_def)

lemma set_request_type_keeps:
  "set_request_type r = Inr r' \<Longrightarrow> bookkeeping r' = bookkeeping r \<and> body_fields r' = body_fields r \<and> mState r' = mState r
     \<and> request_uri r' = request_uri r"
  by (auto simp: set_request_type_def addHeader_def field_defs Let_def split: if_splits option.splits)

lemma setFinalProperties_keeps:
  assumes "setFinalProperties p r = Inr r'"
  shows "bookkeeping r' = bookkeeping r \<and> body_fields r' = body_fields r \<and> mState r' = INPROGRESS \<and> mState r = NEW"
proof -
  obtain r1 where r1: "set_request_type r = Inr r1" "mState r = NEW"
    using assms by (cases "set_request_type r") (auto simp: setFinalProperties_def split: if_splits)
  have "bookkeeping r' = bookkeeping r1 \<and> body_fields r' = body_fields r1 \<and> mState r' = INPROGRESS"
    using assms r1 set_request_type_keeps [OF r1(1)]
    by (auto simp: setFinalProperties_def addHeader_def field_defs Let_def split: if_splits)
  then show ?thesis using set_request_type_keeps [OF r1(1)] r1(2) by simp
qed

text \<open>After \<open>go\<close> nothing can be set any more.\<close>

lemma http_setup_started: "mState r \<noteq> NEW \<Longrightarrow> http_setup escape c r = Inl go_update_error"
  by (cases c) (simp_all add: setup_defs)

lemma http_go_started: "mState r \<noteq> NEW \<Longrightarrow> http_go p r = Inl go_update_error"
  by (simp add: http_go_def)

lemma http_setup_keeps: "http_setup escape c r = Inr r' \<Longrightarrow> bookkeeping r' = bookkeeping r \<and> mState r' = NEW \<and> mState r = NEW"
  by (cases c) (auto simp: setup_defs bookkeeping_def split: if_splits)

lemma http_go_keeps:
  "http_go p r = Inr r' \<Longrightarrow> bookkeeping r' = bookkeeping r \<and> body_fields r' = body_fields r \<and> mState r' = INPROGRESS \<and> mState r = NEW"
  using setFinalProperties_keeps [of p r]
  by (cases "setFinalProperties p r") (auto simp: http_go_def field_defs split: if_splits)

lemma http_write_keeps:
  "http_write bs r = Inr (n, r') \<Longrightarrow> bookkeeping r' = bookkeeping r \<and> body_fields r' = body_fields r \<and> mState r' = mState r"
  by (auto simp: http_write_def field_defs Let_def split: if_splits)

lemma http_read_keeps:
  "bookkeeping (snd (http_read n r)) = bookkeeping r \<and> body_fields (snd (http_read n r)) = body_fields r
     \<and> mState (snd (http_read n r)) = mState r"
  by (auto simp: http_read_def field_defs Let_def split: option.splits)

lemma gotHeader_keeps:
  "mCallback (gotHeader h r) = mCallback r \<and> callbacks (gotHeader h r) = callbacks r \<and> body_fields (gotHeader h r) = body_fields r
     \<and> mState (gotHeader h r) = mState r
     \<and> (mRequestedRange (gotHeader h r) = mRequestedRange r \<or> mRequestedRange (gotHeader h r) = Range_whole True)"
  by (auto simp: gotHeader_def gotStatus_def field_defs Let_def)

lemma finish_request_simps:
  "mState (finish_request ok r) = FINISHED" "mCallback (finish_request ok r) = None"
  "mRequestedRange (finish_request ok r) = mRequestedRange r" "body_fields (finish_request ok r) = body_fields r"
  "callbacks (finish_request ok r) = callbacks r @ (case mCallback r of None \<Rightarrow> [] | Some c \<Rightarrow> [(c, received r, ok)])"
  by (simp_all add: finish_request_def call_back_def body_fields_def split: option.split)

text \<open>The end of a transfer: a request that is tried again keeps what it had, any other one is finished.\<close>

lemma transfer_done_cases:
  assumes "transfer_done date result code p r = Inr (p', r')" "asks_bytes (mRequestedRange r)"
  shows "(\<not> result \<and> code = 417 \<and> mState r' = INPROGRESS \<and> bookkeeping r' = bookkeeping r \<and> body_fields r' = body_fields r)
    \<or> ((result \<or> code \<noteq> 417) \<and> r' = finish_request result (r\<lparr>mStatusCode := code\<rparr>))"
proof (cases "\<not> result \<and> code = 417")
  case True
  let ?r = "initCurlHandle date (r\<lparr>mStatusCode := code\<rparr>)"
  obtain r1 where "setFinalProperties (p(mHost (mContext (request_uri r)) \<mapsto> True)) ?r = Inr r1" "r' = r1"
    using assms(1) True by (auto simp: transfer_done_def Let_def sum_bind_def split: sum.splits)
  with True show ?thesis
    using setFinalProperties_keeps initCurlHandle_simps [of "r\<lparr>mStatusCode := code\<rparr>" date] assms(2)
    by (force simp: field_defs)
qed (use assms in \<open>auto simp: transfer_done_def Let_def\<close>)

section \<open>The callback\<close>

definition callback_inv :: "nat \<Rightarrow> http_request \<Rightarrow> bool" where
  "callback_inv cb r \<longleftrightarrow> asks_bytes (mRequestedRange r)
     \<and> (if mState r = FINISHED then mCallback r = None \<and> length (callbacks r) = 1 \<and> fst (hd (callbacks r)) = cb
        else mCallback r = Some cb \<and> callbacks r = [])"

lemma callback_inv_keeps:
  "callback_inv cb r \<Longrightarrow> bookkeeping r' = bookkeeping r \<Longrightarrow> (mState r' = FINISHED) = (mState r = FINISHED) \<Longrightarrow> callback_inv cb r'"
  by (simp add: callback_inv_def bookkeeping_def)

lemma callback_inv_finish: "callback_inv cb r \<Longrightarrow> callback_inv cb (finish_request ok (r\<lparr>mStatusCode := code\<rparr>))"
  by (auto simp: callback_inv_def finish_request_simps split: if_splits)

lemma callback_inv_abort: "callback_inv cb r \<Longrightarrow> callback_inv cb (http_abort r)"
  by (auto simp: callback_inv_def http_abort_def finish_request_simps split: if_splits)

lemma callback_inv_start:
  assumes "asks_bytes rng"
  shows "callback_inv cb (setCallback cb (HTTPRequest_make date uri rng))"
  using assms initCurlHandle_simps
  by (simp add: callback_inv_def HTTPRequest_make_def setCallback_def)

lemma callback_inv_step:
  assumes "http_step escape date (p, r) (p', r')" "callback_inv cb r"
  shows "callback_inv cb r'"
  using assms(1)
proof cases
  case (set_up c)
  then show ?thesis using http_setup_keeps assms(2) by (metis callback_inv_keeps)
next
  case start
  then have "bookkeeping r' = bookkeeping r" "mState r' = INPROGRESS" "mState r = NEW" using http_go_keeps by blast+
  then show ?thesis using assms(2) by (auto intro: callback_inv_keeps)
next
  case (header h)
  then show ?thesis
    using gotHeader_keeps [of h r] assms(2) by (auto simp: callback_inv_def asks_bytes_def accessor_defs)
next
  case (part bs n)
  then show ?thesis using http_write_keeps assms(2) by (metis callback_inv_keeps)
next
  case (send n)
  then show ?thesis using http_read_keeps [of n r] assms(2) by (metis callback_inv_keeps)
next
  case (over result code)
  have "asks_bytes (mRequestedRange r)" using assms(2) by (simp add: callback_inv_def)
  from transfer_done_cases [OF over(2) this] show ?thesis
  proof
    assume "\<not> result \<and> code = 417 \<and> mState r' = INPROGRESS \<and> bookkeeping r' = bookkeeping r \<and> body_fields r' = body_fields r"
    then show ?thesis using over(1) assms(2) by (auto intro: callback_inv_keeps)
  qed (use callback_inv_finish assms(2) in auto)
qed (use assms(2) callback_inv_abort in auto)

lemma callback_inv_reachable:
  assumes "(http_step escape date)\<^sup>*\<^sup>* (p, r) (p', r')" "callback_inv cb r"
  shows "callback_inv cb r'"
  using assms
proof (induction "(p', r')" arbitrary: p' r' rule: rtranclp_induct)
  case (step y)
  then show ?case using callback_inv_step by (metis prod.exhaust)
qed simp

section \<open>The body\<close>

definition one_body :: "http_request \<Rightarrow> bool" where
  "one_body r \<longleftrightarrow> (case body_fields r of (form, simple, stream) \<Rightarrow>
     (form = [] \<or> simple = []) \<and> (form = [] \<or> stream = None) \<and> (simple = [] \<or> stream = None))"

lemma one_body_setup: "http_setup escape c r = Inr r' \<Longrightarrow> one_body r \<Longrightarrow> one_body r'"
  by (cases c) (auto simp: setup_defs one_body_def body_fields_def split: if_splits)

lemma initCurlHandle_body: "body_fields (initCurlHandle date r) = body_fields r"
  by (auto simp: initCurlHandle_def call_back_def body_fields_def setopt_def Let_def split: prod.split bool.split option.split)

lemma transfer_done_body: "transfer_done date result code p r = Inr (p', r') \<Longrightarrow> body_fields r' = body_fields r"
proof (cases "\<not> result \<and> code = 417")
  case True
  assume "transfer_done date result code p r = Inr (p', r')"
  then obtain q where "setFinalProperties q (initCurlHandle date (r\<lparr>mStatusCode := code\<rparr>)) = Inr r'"
    using True by (auto simp: transfer_done_def Let_def sum_bind_def split: sum.splits)
  then show ?thesis
    using setFinalProperties_keeps initCurlHandle_body [of date "r\<lparr>mStatusCode := code\<rparr>"] by simp
qed (auto simp: transfer_done_def Let_def finish_request_simps)

lemma one_body_step:
  assumes "http_step escape date (p, r) (p', r')" "one_body r"
  shows "one_body r'"
proof -
  have same: "body_fields r' = body_fields r \<Longrightarrow> ?thesis" using assms(2) by (simp add: one_body_def)
  from assms(1) show ?thesis
  proof cases
    case (set_up c)
    then show ?thesis using one_body_setup assms(2) by blast
  next
    case start
    then show ?thesis using http_go_keeps same by blast
  next
    case (header h)
    then show ?thesis using gotHeader_keeps [of h r] same by blast
  next
    case (part bs n)
    then show ?thesis using http_write_keeps same by blast
  next
    case (send n)
    then show ?thesis using http_read_keeps [of n r] same by blast
  next
    case (over result code)
    then show ?thesis using transfer_done_body same by blast
  next
    case abort
    then show ?thesis using same by (simp add: http_abort_def finish_request_simps)
  qed (use assms(2) in simp)
qed

lemma one_body_reachable:
  assumes "(http_step escape date)\<^sup>*\<^sup>* (p, r) (p', r')" "one_body r"
  shows "one_body r'"
  using assms
proof (induction "(p', r')" arbitrary: p' r' rule: rtranclp_induct)
  case (step y)
  then show ?case using one_body_step by (metis prod.exhaust)
qed simp

lemma one_body_start: "one_body (HTTPRequest_make date uri rng)"
  by (simp add: one_body_def HTTPRequest_make_def initCurlHandle_body, simp add: body_fields_def)

section \<open>A request that is tried again\<close>

text \<open>A server that answers 417 every time.\<close>

fun rejections :: "string \<Rightarrow> nat \<Rightarrow> server_properties \<times> http_request \<Rightarrow> http_error + (server_properties \<times> http_request)" where
  "rejections date 0 s = Inr s"
| "rejections date (Suc n) s = sum_bind (transfer_done date False 417 (fst s) (snd s)) (rejections date n)"

definition rejected_state :: "http_request \<Rightarrow> URI \<times> http_state \<times> bool \<times> (nat option \<times> (nat \<times> dense_data \<times> bool) list \<times> range)" where
  "rejected_state r = (request_uri r, mState r, mTypeDELETE r, bookkeeping r)"

lemma set_request_type_http:
  "mProto (mContext (request_uri r)) = ''http''
     \<Longrightarrow> \<exists>r'. set_request_type r = Inr r' \<and> mHeaders r' = mHeaders r \<and> mTypeDELETE r' = mTypeDELETE r"
  by (simp add: set_request_type_def Let_def split: option.split)

lemma rejected_once:
  assumes "mState r = INPROGRESS" "asks_bytes (mRequestedRange r)" "mProto (mContext (request_uri r)) = ''http''"
  shows "\<exists>r'. transfer_done date False 417 p r = Inr (p(mHost (mContext (request_uri r)) \<mapsto> True), r')
    \<and> rejected_state r' = rejected_state r \<and> mHeaders r' = mHeaders r @ [''Expect:'']"
proof -
  let ?r = "initCurlHandle date (r\<lparr>mStatusCode := 417\<rparr>)" and ?p = "p(mHost (mContext (request_uri r)) \<mapsto> True)"
  have i: "mState ?r = NEW" "callbacks ?r = callbacks r" "mCallback ?r = mCallback r" "mRequestedRange ?r = mRequestedRange r"
    "request_uri ?r = request_uri r" "mHeaders ?r = mHeaders r" "mTypeDELETE ?r = mTypeDELETE r"
    using initCurlHandle_simps [of "r\<lparr>mStatusCode := 417\<rparr>" date] assms(2) by simp_all
  obtain r1 where r1: "set_request_type ?r = Inr r1" "mHeaders r1 = mHeaders ?r" "mTypeDELETE r1 = mTypeDELETE ?r"
    using set_request_type_http [of ?r] assms(3) i(5) by auto
  have keep: "bookkeeping r1 = bookkeeping ?r" "mState r1 = NEW" "request_uri r1 = request_uri ?r"
    using set_request_type_keeps [OF r1(1)] i(1) by simp_all
  have known: "getProperties (request_uri ?r) ?p" using i(5) by (simp add: getProperties_def)
  show ?thesis
    using r1 keep known i assms(1,3)
    by (simp add: transfer_done_def Let_def setFinalProperties_def addHeader_def rejected_state_def bookkeeping_def)
qed

lemma rejected_often:
  assumes "mState r = INPROGRESS" "asks_bytes (mRequestedRange r)" "mProto (mContext (request_uri r)) = ''http''"
  shows "\<exists>p' r'. rejections date n (p, r) = Inr (p', r') \<and> rejected_state r' = rejected_state r
    \<and> mHeaders r' = mHeaders r @ replicate n ''Expect:''"
  using assms
proof (induction n arbitrary: p r)
  case (Suc n)
  let ?p = "p(mHost (mContext (request_uri r)) \<mapsto> True)"
  obtain r1 where r1: "transfer_done date False 417 p r = Inr (?p, r1)" "rejected_state r1 = rejected_state r"
    "mHeaders r1 = mHeaders r @ [''Expect:'']"
    using rejected_once [OF Suc.prems] by blast
  then have "mState r1 = INPROGRESS" "asks_bytes (mRequestedRange r1)" "mProto (mContext (request_uri r1)) = ''http''"
    using Suc.prems by (simp_all add: rejected_state_def bookkeeping_def)
  from Suc.IH [OF this, of ?p] r1 show ?case by (auto simp del: fun_upd_apply simp: sum_bind_def)
qed simp

section \<open>Properties\<close>





text \<open>
  A server that answers 417 is asked for ever. After any number of such answers the request is in progress again, its
  callback has not been called, and the header that is to avoid the answer has been added once more each time, although
  nothing new was learnt of the server after the first.
\<close>

lemma http_417_retried_forever:
  assumes "mState r = INPROGRESS" "asks_bytes (mRequestedRange r)" "mProto (mContext (request_uri r)) = ''http''"
  shows "\<exists>p' r'. rejections date n (p, r) = Inr (p', r') \<and> mState r' = INPROGRESS \<and> callbacks r' = callbacks r
    \<and> mHeaders r' = mHeaders r @ replicate n ''Expect:''"
  using rejected_often [OF assms, of date n p] assms(1) by (auto simp: rejected_state_def bookkeeping_def)

end
