(* ===== verification/HTTP_Handlers.thy ===== *)
theory HTTP_Handlers
  imports HTTP_Lifecycle Name_Lookup
begin

text \<open>
  The handlers that turn the calls of the transfer layers into requests over HTTP: downloads and the look-up of names
  (\<open>HTTPDownloadHandler.hpp\<close>), uploads and removals by means of a form (\<open>HTTPFormUploadHandler.hpp\<close>). An operation is
  the request after it has been started, or the exception it throws; the object that the caller may keep to abort the
  transfer holds that request, and its \<open>abort\<close> is \<open>http_abort\<close>. The parameters of a service are its entries in the
  order of the keys, the order in which the map of the source is traversed.
\<close>

section \<open>Downloads and names\<close>

definition http_download :: "string \<Rightarrow> server_properties \<Rightarrow> URI \<Rightarrow> range \<Rightarrow> nat \<Rightarrow> http_error + http_request" where
  "http_download date props uri bytes cb = http_go props (setCallback cb (HTTPRequest_make date uri bytes))"

definition http_nameLookup :: "string \<Rightarrow> server_properties \<Rightarrow> URI \<Rightarrow> nat \<Rightarrow> http_error + http_request" where
  "http_nameLookup date props uri cb = http_go props (setCallback cb (HTTPRequest_make date uri (Range_whole True)))"

text \<open>\<open>stream\<close> is not implemented: the callback is told so at once.\<close>

definition http_stream :: "dense_data option \<times> bool" where
  "http_stream = (None, False)"

text \<open>
  \<open>nameCallback\<close>: what the callback of a look-up is called with, or the exception that leaves the function instead of the
  call. The fingerprint of a failed look-up has no defined content, here \<open>junk\<close>.
\<close>

definition nameCallback :: "digest \<Rightarrow> URI \<Rightarrow> dense_data \<Rightarrow> bool \<Rightarrow> sha_error + (digest \<times> string \<times> bool)" where
  "nameCallback junk uri data success =
     (if success
      then let receivedUri = bytes_text (take (unat (range_length data)) (mData data));
               receivedUri = filter (\<lambda>c. \<not> IsSpace c) receivedUri;
               temp = URI_relative (mContext uri) receivedUri;
               shasum = mPath temp
           in sum_bind (convertFromHex junk shasum) (\<lambda>hash. Inr (hash, receivedUri, True))
      else Inr (junk, [], False))"

section \<open>Forms\<close>

type_synonym params = "(string \<times> string) list"

definition param :: "string \<Rightarrow> params \<Rightarrow> string" where
  "param name params = params_get name (map_of params)"

fun add_value_fields :: "params \<Rightarrow> http_request \<Rightarrow> http_error + http_request" where
  "add_value_fields [] r = Inr r"
| "add_value_fields ((k, v) # params) r =
     (if substr 0 6 k = ''value:'' then sum_bind (addPOSTField (drop 6 k) v r) (add_value_fields params) else Inr r)"

definition createRequest :: "string \<Rightarrow> params \<Rightarrow> URI \<Rightarrow> nat \<Rightarrow> http_error + http_request" where
  "createRequest date params uri cb =
     (let req = HTTPRequest_make date (URI_absolute (context_toString False (mContext uri))) (Range_whole True);
          req = setCallback cb req
      in add_value_fields (dropWhile (\<lambda>(k, v). str_less k ''value:'') params) req)"

definition default_content_type :: string where
  "default_content_type = ''application/octet-stream''"

definition add_checkbox :: "string \<Rightarrow> params \<Rightarrow> http_request \<Rightarrow> http_error + http_request" where
  "add_checkbox name params r = (if param name params \<noteq> [] then addPOSTField (param name params) ''on'' r else Inr r)"

definition form_upload :: "string \<Rightarrow> server_properties \<Rightarrow> params \<Rightarrow> URI \<Rightarrow> dense_data \<Rightarrow> nat \<Rightarrow> http_error + http_request" where
  "form_upload date props params uri uploadData cb =
     sum_bind (createRequest date params uri cb) (\<lambda>r.
     sum_bind (addPOSTData (param ''field:file'' params) (mPath uri) uploadData default_content_type r) (\<lambda>r.
     sum_bind (if param ''field:filename'' params \<noteq> [] then addPOSTField (param ''field:filename'' params) (mPath uri) r else Inr r) (\<lambda>r.
     sum_bind (add_checkbox ''field:insert'' params r) (http_go props))))"

definition form_remove :: "string \<Rightarrow> server_properties \<Rightarrow> params \<Rightarrow> URI \<Rightarrow> nat \<Rightarrow> http_error + http_request" where
  "form_remove date props params uri cb =
     sum_bind (createRequest date params uri cb) (\<lambda>r.
     sum_bind (if param ''field:filename'' params = []
               then addPOSTData (param ''field:file'' params) (mPath uri) (DenseData_range (Range_whole False)) default_content_type r
               else addPOSTField (param ''field:filename'' params) (mPath uri) r) (\<lambda>r.
     sum_bind (add_checkbox ''field:remove'' params r) (http_go props)))"

definition form_uploadName :: "string \<Rightarrow> server_properties \<Rightarrow> params \<Rightarrow> URI \<Rightarrow> RemoteFileId \<Rightarrow> nat \<Rightarrow> http_error + http_request" where
  "form_uploadName date props params uri uploadId cb =
     sum_bind (createRequest date params uri cb) (\<lambda>r.
     sum_bind (if param ''field:filename'' params = []
               then addPOSTData (param ''field:file'' params) (mPath uri)
                      (DenseData_string (text_bytes (uri_toString (mURI uploadId))) True) default_content_type r
               else sum_bind (addPOSTField (param ''field:file'' params) (uri_toString (mURI uploadId)) r)
                      (addPOSTField (param ''field:filename'' params) (mPath uri))) (\<lambda>r.
     sum_bind (add_checkbox ''field:insert'' params r) (http_go props)))"

text \<open>The code of \<open>removeName\<close> is that of \<open>remove\<close>.\<close>

definition form_removeName :: "string \<Rightarrow> server_properties \<Rightarrow> params \<Rightarrow> URI \<Rightarrow> nat \<Rightarrow> http_error + http_request" where
  "form_removeName = form_remove"

section \<open>Starting a request\<close>

lemma set_request_type_total: "mState r = NEW \<Longrightarrow> \<exists>r'. set_request_type r = Inr r'"
  by (simp add: set_request_type_def addHeader_def Let_def split: option.split)

lemma setFinalProperties_total:
  assumes "mState r = NEW"
  shows "\<exists>r'. setFinalProperties props r = Inr r'"
proof -
  obtain r1 where r1: "set_request_type r = Inr r1" using set_request_type_total [OF assms] by blast
  then have "mState r1 = NEW" using set_request_type_keeps [OF r1] assms by simp
  then show ?thesis
    using r1 assms by (cases "getProperties (request_uri r1) props") (simp_all add: setFinalProperties_def addHeader_def Let_def)
qed

lemma http_go_total:
  assumes "mState r = NEW"
  shows "\<exists>r'. http_go props r = Inr r' \<and> mState r' = INPROGRESS \<and> mPreventDeletion r'
    \<and> bookkeeping r' = bookkeeping r \<and> body_fields r' = body_fields r"
proof -
  obtain r1 where "setFinalProperties props r = Inr r1" using setFinalProperties_total [OF assms] by blast
  then have "http_go props r = Inr (r1\<lparr>mPreventDeletion := True\<rparr>)" using assms by (simp add: http_go_def)
  then show ?thesis using http_go_keeps by auto
qed

section \<open>The fields of a form\<close>

definition sorted_params :: "params \<Rightarrow> bool" where
  "sorted_params params \<longleftrightarrow> sorted_wrt (\<lambda>x y. str_less (fst x) (fst y)) params"

definition is_value :: "string \<times> string \<Rightarrow> bool" where
  "is_value x \<longleftrightarrow> substr 0 6 (fst x) = ''value:''"

text \<open>All parameters with the prefix, whatever else there is.\<close>

definition value_fields :: "params \<Rightarrow> form_part list" where
  "value_fields params = map (\<lambda>(k, v). Form_field (drop 6 k) v) (filter is_value params)"

lemma takeWhile_sorted:
  assumes "sorted_wrt lt xs" "\<And>x y. lt x y \<Longrightarrow> ok x \<Longrightarrow> ok y" "\<And>x y. lt x y \<Longrightarrow> ok x \<Longrightarrow> \<not> P x \<Longrightarrow> \<not> P y" "\<forall>x\<in>set xs. ok x"
  shows "takeWhile P xs = filter P xs"
  using assms(1,4)
proof (induction xs)
  case (Cons x xs)
  then have "\<not> P x \<Longrightarrow> filter P xs = []" using assms(3) by (auto simp: filter_empty_conv)
  with Cons show ?case by auto
qed simp

lemma takeWhile_dropWhile_sorted:
  assumes "sorted_wrt lt xs" "\<And>x. P x \<Longrightarrow> \<not> Q x" "\<And>x y. lt x y \<Longrightarrow> \<not> Q x \<Longrightarrow> \<not> Q y"
    "\<And>x y. lt x y \<Longrightarrow> \<not> Q x \<Longrightarrow> \<not> P x \<Longrightarrow> \<not> P y"
  shows "takeWhile P (dropWhile Q xs) = filter P xs"
  using assms(1)
proof (induction xs)
  case (Cons x xs)
  show ?case
  proof (cases "Q x")
    case True
    then show ?thesis using Cons assms(2) by auto
  next
    case False
    then have "\<forall>y\<in>set (x # xs). \<not> Q y" using Cons.prems assms(3) by auto
    with takeWhile_sorted [OF Cons.prems, of "\<lambda>x. \<not> Q x" P] assms(3,4) False show ?thesis by simp
  qed
qed simp

lemma past_prefix: "\<not> str_less a p \<Longrightarrow> take (length p) a \<noteq> p \<Longrightarrow> str_less (p @ t) a"
proof (induction p arbitrary: a)
  case (Cons c p)
  then show ?case
    using linorder_less_linear [of "of_char c :: nat" "of_char (hd a)"] by (cases a) (auto simp: of_char_eq_iff)
qed simp

lemma not_less_prefix: "\<not> str_less (p @ t) p"
  by (induction p) (simp_all add: str_less_Nil)

lemma values_found:
  assumes "sorted_params params"
  shows "takeWhile is_value (dropWhile (\<lambda>(k, v). str_less k ''value:'') params) = filter is_value params"
proof -
  let ?Q = "\<lambda>x :: string \<times> string. str_less (fst x) ''value:''"
  have starts: "is_value x \<Longrightarrow> \<exists>t. fst x = ''value:'' @ t" for x
    using append_take_drop_id [of 6 "fst x"] by (metis is_value_def substr_def drop0)
  have "\<not> ?Q x" if "is_value x" for x
    using starts [OF that] not_less_prefix [of "''value:''"] by (elim exE) (simp only: not_False_eq_True)
  moreover have "str_less (fst x) (fst y) \<Longrightarrow> \<not> ?Q x \<Longrightarrow> \<not> ?Q y" for x y :: "string \<times> string"
    using str_less_transitive by blast
  moreover have "\<not> is_value y" if "str_less (fst x) (fst y)" "\<not> ?Q x" "\<not> is_value x" for x y
  proof
    assume "is_value y"
    then obtain t where "fst y = ''value:'' @ t" using starts by blast
    moreover have "length ''value:'' = 6" by simp
    then have "take (length ''value:'') (fst x) \<noteq> ''value:''"
      using that(3) unfolding is_value_def substr_def by (simp only: drop0 not_False_eq_True)
    ultimately have "str_less (fst y) (fst x)" using past_prefix [OF that(2), of t] by (simp only: not_False_eq_True)
    then show False using that(1) str_less_transitive str_less_irreflexive by blast
  qed
  ultimately have "takeWhile is_value (dropWhile ?Q params) = filter is_value params"
    using assms unfolding sorted_params_def by (intro takeWhile_dropWhile_sorted) blast+
  then show ?thesis by (simp add: case_prod_beta')
qed

section \<open>Building a form\<close>

definition open_form :: "nat \<Rightarrow> form_part list \<Rightarrow> http_request \<Rightarrow> bool" where
  "open_form cb fs r \<longleftrightarrow> mState r = NEW \<and> body_fields r = (fs, [], None) \<and> bookkeeping r = (Some cb, [], Range_whole True)"

definition form_so_far :: "nat \<Rightarrow> form_part list \<Rightarrow> http_error + http_request \<Rightarrow> bool" where
  "form_so_far cb fs x \<longleftrightarrow> (\<exists>r. x = Inr r \<and> open_form cb fs r)"

lemma form_bind:
  "form_so_far cb fs x \<Longrightarrow> (\<And>r. open_form cb fs r \<Longrightarrow> form_so_far cb gs (f r)) \<Longrightarrow> form_so_far cb gs (sum_bind x f)"
  by (auto simp: form_so_far_def)

lemma form_steps:
  assumes "open_form cb fs r"
  shows "form_so_far cb (fs @ [Form_field name v]) (addPOSTField name v r)"
    "form_so_far cb (fs @ [Form_data name file d ct]) (addPOSTData name file d ct r)"
    "form_so_far cb (fs @ (if param name params \<noteq> [] then [Form_field (param name params) ''on''] else [])) (add_checkbox name params r)"
  using assms by (auto simp: form_so_far_def open_form_def addPOSTField_def addPOSTData_def add_checkbox_def field_defs)

lemma add_value_fields_form:
  "open_form cb fs r \<Longrightarrow> form_so_far cb (fs @ map (\<lambda>(k, v). Form_field (drop 6 k) v) (takeWhile is_value params)) (add_value_fields params r)"
proof (induction params arbitrary: fs r)
  case (Cons x params)
  obtain k v where x: "x = (k, v)" by fastforce
  show ?case
  proof (cases "is_value x")
    case True
    have "form_so_far cb (fs @ map (\<lambda>(k, v). Form_field (drop 6 k) v) (takeWhile is_value (x # params)))
        (sum_bind (addPOSTField (drop 6 k) v r) (add_value_fields params))"
      using Cons.IH [of "fs @ [Form_field (drop 6 k) v]"] True x
      by (intro form_bind [OF form_steps(1) [OF Cons.prems]]) simp
    then show ?thesis using True x is_value_def [of x] by simp
  next
    case False
    then show ?thesis using x Cons.prems by (simp add: is_value_def form_so_far_def)
  qed
qed (simp add: form_so_far_def)

lemma createRequest_form:
  assumes "sorted_params params"
  shows "form_so_far cb (value_fields params) (createRequest date params uri cb)"
proof -
  let ?r = "setCallback cb (HTTPRequest_make date (URI_absolute (context_toString False (mContext uri))) (Range_whole True))"
  have "asks_bytes (Range_whole True)" by (simp add: asks_bytes_def accessor_defs)
  then have "open_form cb [] ?r"
    using initCurlHandle_simps by (simp add: open_form_def HTTPRequest_make_def setCallback_def field_defs)
  from add_value_fields_form [OF this, of "dropWhile (\<lambda>(k, v). str_less k ''value:'') params"] show ?thesis
    using values_found [OF assms] by (simp add: createRequest_def value_fields_def)
qed

lemma form_started:
  assumes "form_so_far cb fs x"
  shows "\<exists>r. sum_bind x (http_go props) = Inr r \<and> mState r = INPROGRESS \<and> mCallback r = Some cb \<and> callbacks r = [] \<and> mCurlForm r = fs"
proof -
  obtain r where r: "x = Inr r" "open_form cb fs r" using assms by (auto simp: form_so_far_def)
  then obtain r' where "http_go props r = Inr r'" "mState r' = INPROGRESS" "bookkeeping r' = bookkeeping r" "body_fields r' = body_fields r"
    using http_go_total [of r props] by (auto simp: open_form_def)
  with r show ?thesis by (simp add: open_form_def field_defs)
qed

lemma sum_bind_assoc: "sum_bind (sum_bind x f) g = sum_bind x (\<lambda>a. sum_bind (f a) g)"
  by (cases x) simp_all

section \<open>Properties\<close>

text \<open>A request for a download or a name is always started, and will call back (\<open>http_callback_once\<close> says how often).\<close>

lemma http_download_starts:
  "\<exists>r. http_download date props uri bytes cb = Inr r \<and> mState r = INPROGRESS \<and> mPreventDeletion r \<and> mCallback r = Some cb"
  if "asks_bytes bytes"
  using http_go_total [of "setCallback cb (HTTPRequest_make date uri bytes)" props] initCurlHandle_simps that
  by (auto simp: http_download_def HTTPRequest_make_def setCallback_def bookkeeping_def)

text \<open>An answer to a look-up that is the URI of a hash, with white space anywhere, names that hash.\<close>

lemma nameCallback_reads_hash:
  assumes "dense_ok data" "filter (\<lambda>c. \<not> IsSpace c) (bytes_text (mData data)) = u" "mPath (URI_relative (mContext uri) u) = convertToHexString d"
    "length d = 32" "32 \<le> length junk"
  shows "nameCallback junk uri data True = Inr (d, u, True)"
  using assms hex_roundtrip [OF assms(4,5)] by (simp add: nameCallback_def range_length_def dense_ok_def Let_def)

text \<open>An answer whose last part is not 64 characters long is an exception in the thread of the library: no callback.\<close>

lemma nameCallback_throws:
  assumes "dense_ok data" "length (mPath (URI_relative (mContext uri) (filter (\<lambda>c. \<not> IsSpace c) (bytes_text (mData data))))) \<noteq> 64"
  shows "nameCallback junk uri data True = Inl Invalid_argument"
  using assms by (simp add: nameCallback_def convertFromHex_def range_length_def dense_ok_def Let_def)

text \<open>A removal names the file in its field, or sends an empty file of that name where the service has no such field.\<close>

lemma form_remove_sends:
  assumes "sorted_params params"
  shows "\<exists>r. form_remove date props params uri cb = Inr r \<and> mState r = INPROGRESS \<and> mCallback r = Some cb \<and> callbacks r = []
    \<and> mCurlForm r = value_fields params
        @ (if param ''field:filename'' params = []
           then [Form_data (param ''field:file'' params) (mPath uri) (DenseData_range (Range_whole False)) default_content_type]
           else [Form_field (param ''field:filename'' params) (mPath uri)])
        @ (if param ''field:remove'' params \<noteq> [] then [Form_field (param ''field:remove'' params) ''on''] else [])"
    (is "\<exists>r. _ = _ \<and> _ \<and> _ \<and> _ \<and> _ = _ @ ?n @ ?c")
proof -
  let ?name = "\<lambda>r. if param ''field:filename'' params = []
      then addPOSTData (param ''field:file'' params) (mPath uri) (DenseData_range (Range_whole False)) default_content_type r
      else addPOSTField (param ''field:filename'' params) (mPath uri) r"
  have name: "form_so_far cb (fs @ ?n) (?name r)" if "open_form cb fs r" for fs r
    using form_steps(1,2) [OF that] by simp
  have "form_so_far cb ((value_fields params @ ?n) @ ?c)
      (sum_bind (sum_bind (createRequest date params uri cb) ?name) (add_checkbox ''field:remove'' params))"
    by (rule form_bind, rule form_bind, rule createRequest_form [OF assms], erule name, erule form_steps(3))
  from form_started [OF this, of props] show ?thesis by (simp add: form_remove_def sum_bind_assoc)
qed

text \<open>
  An upload by form sends every parameter of the service whose name begins with \<open>value:\<close> as a field, in the order of
  the map and without the prefix, then the file, then its name and the mark for an insertion where the service has
  fields for them. No step of it throws: the request is in progress, with the callback of the caller waiting.
\<close>

lemma form_upload_sends:
  assumes "sorted_params params"
  shows "\<exists>r. form_upload date props params uri d cb = Inr r \<and> mState r = INPROGRESS \<and> mCallback r = Some cb \<and> callbacks r = []
    \<and> mCurlForm r = map (\<lambda>(k, v). Form_field (drop 6 k) v) (filter (\<lambda>(k, v). take 6 k = ''value:'') params)
        @ [Form_data (param ''field:file'' params) (mPath uri) d ''application/octet-stream'']
        @ (if param ''field:filename'' params \<noteq> [] then [Form_field (param ''field:filename'' params) (mPath uri)] else [])
        @ (if param ''field:insert'' params \<noteq> [] then [Form_field (param ''field:insert'' params) ''on''] else [])"
    (is "\<exists>r. _ = _ \<and> _ \<and> _ \<and> _ \<and> _ = ?vs @ ?f @ ?n @ ?i")
proof -
  let ?name = "\<lambda>r. if param ''field:filename'' params \<noteq> [] then addPOSTField (param ''field:filename'' params) (mPath uri) r else Inr r"
  have vs: "value_fields params = ?vs" by (simp add: value_fields_def is_value_def [abs_def] substr_def case_prod_beta')
  have name: "form_so_far cb (fs @ ?n) (?name r)" if "open_form cb fs r" for fs r
    using form_steps(1) [OF that] that by (simp add: form_so_far_def)
  have "form_so_far cb (((?vs @ ?f) @ ?n) @ ?i)
      (sum_bind (sum_bind (sum_bind (createRequest date params uri cb)
         (addPOSTData (param ''field:file'' params) (mPath uri) d ''application/octet-stream'')) ?name)
         (add_checkbox ''field:insert'' params))"
    by (rule form_bind, rule form_bind, rule form_bind, rule createRequest_form [OF assms, unfolded vs],
        erule form_steps(2), erule name, erule form_steps(3))
  from form_started [OF this, of props] show ?thesis
    by (simp add: form_upload_def sum_bind_assoc default_content_type_def)
qed

end
