(* ===== verification/Spec2Isabelle.thy ===== *)
theory Spec2Isabelle
  imports Network_Layer Disk_Restart Cache_Layers Read_Buffer Socket_Wrapper Event_Manager Uris Send_Status Connection_Setup Listeners
    Sha512_Correct Dependency_Tasks Uploads HTTP_Transfer HTTP_Handlers
begin

text \<open>
  \<^bold>\<open>Sirikata's core library: transfer, network, events, digests\<close>

  Sirikata is a platform for shared virtual worlds. Its library \<^verbatim>\<open>libcore\<close> is what the object host, the space
  server and the plugins are built from; this development models the parts of it that carry logic of
  their own. File names below are relative to \<^verbatim>\<open>src/libcore/src\<close>.

  \<^bold>\<open>The parts and how they interact\<close>

  \<^item> \<^emph>\<open>Transfer\<close>. A download asks for a range of bytes of a remote file, named by the SHA-256 hash of its
    content and a URI. A chain of cache layers answers; each layer keeps dense blocks of bytes in sparse files, and
    a policy decides what is kept. Data from a later layer is put into the earlier ones on its way.
  \<^item> \<^emph>\<open>Network\<close>. Many streams share one connection made of several TCP sockets. A packet is framed with its
    length and the id of its stream, queued by a lock-free protocol in front of each socket, and cut out of the byte
    stream again by a read buffer. Streams are opened by their first packet and closed by a close that is sent on every
    socket and acknowledged. A connection is set up by a handshake on all its sockets.
  \<^item> \<^emph>\<open>Events\<close>. Threads queue events and subscriptions; one thread dispatches events to the listeners of their
    primary and secondary ids, in an order of early, middle and late listeners.

  \<^bold>\<open>Theories\<close>

  \<^item> \<^verbatim>\<open>Prelude\<close>: machine integers, collections of rules, lemmas on lists, words and results.
  \<^item> \<^verbatim>\<open>Ranges\<close> (\<^verbatim>\<open>transfer/Range.hpp\<close>): byte ranges, possibly up to the end of a file, and ordered lists of them.
    The list operations are compared with the set of bytes they cover.
  \<^item> \<^verbatim>\<open>Transfer_Data\<close> (\<^verbatim>\<open>transfer/TransferData.hpp\<close>): dense and sparse blocks. What the fingerprint hashes is the
    content of the file; \<open>flatten\<close> is shown to write out of bounds.
  \<^item> \<^verbatim>\<open>Std_Map\<close>: the ordered map of the library as an association list, with the laws the caches use.
  \<^item> \<^verbatim>\<open>Cache_Policy\<close> (\<^verbatim>\<open>transfer/CachePolicy.hpp\<close>, \<^verbatim>\<open>LRUPolicy.hpp\<close>): the interface of a policy as a record of
    functions and as a locale of laws; the LRU policy is an interpretation.
  \<^item> \<^verbatim>\<open>Cache_Map\<close> (\<^verbatim>\<open>transfer/CacheMap.hpp\<close>): the map of cached files with its iterators and the eviction loop.
  \<^item> \<^verbatim>\<open>Cache_Layers\<close> (\<^verbatim>\<open>transfer/CacheLayer.hpp\<close>, \<^verbatim>\<open>MemoryCacheLayer.hpp\<close>): linked layers and the memory
    layer. A chain of them stays within its capacity and serves the bytes of the files.
  \<^item> \<^verbatim>\<open>Range_Text\<close> and \<^verbatim>\<open>Disk_Layer\<close> (\<^verbatim>\<open>transfer/DiskCacheLayer.hpp\<close>, \<^verbatim>\<open>DiskCacheLayer.cpp\<close>): the disk layer
    with its worker, on a map of files. \<^verbatim>\<open>Disk_Correct\<close>: for every policy of the contract the map of the layer tells the truth
    about the files. \<^verbatim>\<open>Disk_Restart\<close>: starting on a directory that is listed in any order.
  \<^item> \<^verbatim>\<open>Sha2_Spec\<close>: the hash standard (message schedule, compression, padding) and, as locales, what an
    implementation owes it. \<^verbatim>\<open>Sha256_Code\<close> (\<^verbatim>\<open>util/internal_sha2.cpp\<close>): the C code, rolled and unrolled, on hosts of
    either byte order; \<^verbatim>\<open>Sha512_Code\<close>: SHA-384 and SHA-512. \<^verbatim>\<open>Buffered_Hash\<close>: what the two copies of the buffering
    code share. \<^verbatim>\<open>Sha256_Correct\<close>, \<^verbatim>\<open>Sha512_Correct\<close>: the code meets the standard. \<^verbatim>\<open>Digests\<close> (\<^verbatim>\<open>util/Sha256.cpp\<close>,
    \<^verbatim>\<open>Sha256.hpp\<close>, \<^verbatim>\<open>Array.hpp\<close>): digests, incremental hashing, hexadecimal form, fingerprints of files.
  \<^item> \<^verbatim>\<open>Uris\<close> (\<^verbatim>\<open>transfer/URI.hpp\<close>): parsing and printing of URIs, their order, identifiers of remote files.
  \<^item> \<^verbatim>\<open>Name_Lookup\<close> (\<^verbatim>\<open>transfer/ServiceLookup.hpp\<close>, \<^verbatim>\<open>ProtocolRegistry.hpp\<close>, \<^verbatim>\<open>NameLookupManager.hpp\<close> and
    their cached variants): from the name of a file to its identifier. \<^verbatim>\<open>Network_Layer\<close> (\<^verbatim>\<open>NetworkCacheLayer.hpp\<close>): the
    last layer, whose downloads complete at any time and in any order; it searches the services as the name lookup does.
  \<^item> \<^verbatim>\<open>Download_Requests\<close> and \<^verbatim>\<open>Uploads\<close> (\<^verbatim>\<open>transfer/TransferManager.hpp\<close>, \<^verbatim>\<open>EventTransferManager.hpp\<close>): the
    transfer manager in front of name lookup, cache layers and event manager, with every interleaving of its threads.
  \<^item> \<^verbatim>\<open>HTTP_Request\<close> (\<^verbatim>\<open>transfer/HTTPRequest.cpp\<close>, \<^verbatim>\<open>HTTPRequest.hpp\<close>): one transfer over HTTP, as the calls of its
    owner and of the library that speaks the protocol. \<^verbatim>\<open>HTTP_Transfer\<close>: the bytes of a download and of an upload, for
    servers that follow the protocol. \<^verbatim>\<open>HTTP_Lifecycle\<close>: a step relation, with the callback and the kinds of body as
    invariants. \<^verbatim>\<open>HTTP_Handlers\<close> (\<^verbatim>\<open>HTTPDownloadHandler.hpp\<close>, \<^verbatim>\<open>HTTPFormUploadHandler.hpp\<close>): the requests the
    transfer layers make.
  \<^item> \<^verbatim>\<open>Stream_Id\<close> (\<^verbatim>\<open>network/Stream.cpp\<close>): integers of 30 bits in one, two or four bytes.
    \<^verbatim>\<open>Framing\<close> (\<^verbatim>\<open>network/TCPStream.cpp\<close>, \<^verbatim>\<open>ASIOSocketWrapper.cpp\<close>): packets, control packets, headers, and the
    abstract reader of a byte stream.
  \<^item> \<^verbatim>\<open>Read_Buffer\<close> (\<^verbatim>\<open>network/ASIOReadBuffer.cpp\<close>): both modes of reading; it refines the abstract reader.
  \<^item> \<^verbatim>\<open>Socket_Wrapper\<close> (\<^verbatim>\<open>network/ASIOSocketWrapper.cpp\<close>): the lock-free send protocol as a step relation on
    arbitrarily many threads, with its invariant by rule induction.
  \<^item> \<^verbatim>\<open>Multiplexed_Socket\<close> (\<^verbatim>\<open>network/MultiplexedSocket.cpp\<close>): the connection, with client callbacks that may call
    back. A locale states what an invariant has to satisfy to hold in every run; stream ids and the order of requests are
    its interpretations.
  \<^item> \<^verbatim>\<open>Send_Status\<close> (\<^verbatim>\<open>network/TCPStream.cpp\<close>): threads that send and threads that close one stream, with
    safety by rule induction and termination of the waiting loop under fair schedules.
  \<^item> \<^verbatim>\<open>Connection_Setup\<close> (\<^verbatim>\<open>network/ASIOStreamBuilder.cpp\<close>, \<^verbatim>\<open>ASIOConnectAndHandshake.cpp\<close>): both sides of
    the set-up of a connection.
  \<^item> \<^verbatim>\<open>Listeners\<close> (\<^verbatim>\<open>util/ListenerProvider.hpp\<close>): providers of notifications, with listeners that come and go while
    they are called, and providers that tell new listeners the last value.
  \<^item> \<^verbatim>\<open>Queues\<close> (\<^verbatim>\<open>util/ThreadSafeQueue.hpp\<close>): the locked queue and its node iterator, against an abstract queue.
  \<^item> \<^verbatim>\<open>Event_Ids\<close> (\<^verbatim>\<open>task/Event.cpp\<close>, \<^verbatim>\<open>UniqueId.hpp\<close>): interned primary ids, secondary ids, subscription ids.
    \<^verbatim>\<open>Event_Manager\<close> (\<^verbatim>\<open>task/EventManager.cpp\<close>): subscription, dispatch, removal and clean up.
  \<^item> \<^verbatim>\<open>Dependency_Tasks\<close> (\<^verbatim>\<open>task/DependencyTask.cpp\<close>): tasks that wait for tasks, over any order of events and of
    tasks that finish.

  \<^bold>\<open>How code becomes definitions\<close>

  A class is a record and a method a function from the state before to the state after. Undefined behaviour, failed
  assertions and exceptions are values of a sum or option type, so that a property can say that they do not occur, or
  that they do. Integers are words of their width where the code could overflow. Threads are lists of control points; a step is
  one access to shared memory, or a whole critical section where the code holds a lock. The network,
  callbacks of clients, \<open>rand\<close>, hash functions and the order of hash maps are arguments. Every property is the
  last section of its theory, with an instance at concrete values where it has hypotheses.

  \<^bold>\<open>Loops and bounds\<close>

  Loops are recursive functions with a measure or over the list they consume; those that copy bytes have the number of bytes as
  measure. The waiting loop of \<open>closeSendStatus\<close> is a control point that may be left or not: it is shown to
  be left within six rounds in which every thread gets a turn, the longest path of a send (four steps) and of a
  close after it (two). The protocols assume fewer than \<open>2 ^ 29\<close> threads, as the widths of their counters require, and
  at most three that close a stream, as the source says.

  \<^bold>\<open>Not modelled\<close>

  The loop around the library for HTTP, which waits for its sockets; UUIDs, which are 16 bytes here; the lock-free
  queue, which is compiled out; options, plugins, logging, time and timers; geometry in floating point. In the parts
  that are modelled: destructors, the sleeping of the event thread, and printing for debugging. The object host, the
  space server and the graphics plugin connect these parts to libraries outside the repository.
\<close>

end
